(* ===== verification/Prelude.thy ===== *)
theory Prelude
  imports Main "HOL-Library.Word"
begin

text \<open>
  What the components share: the names of the machine types, the error values that stand for
  \<^verbatim>\<open>Status\<close> and for aborted processes, byte strings with their \<^verbatim>\<open>memcmp\<close> order, big-endian
  integers, and the generic facts on lists and words that the component proofs use.
\<close>

unbundle bit_operations_syntax

section \<open>Machine types and error values\<close>

type_synonym byte = "8 word"
type_synonym uint16 = "16 word"
type_synonym uint32 = "32 word"
type_synonym uint64 = "64 word"
type_synonym slice = "byte list"

text \<open>
  \<^verbatim>\<open>Status\<close> codes that the modelled code returns; the message texts are not modelled.
  \<open>Fatal\<close> is a failed \<^verbatim>\<open>CHECK\<close> or \<^verbatim>\<open>LOG(FATAL)\<close>: the process aborts. \<open>Undefined\<close> marks an
  operation the language leaves undefined (reading the top of an empty container).
\<close>

datatype status =
    Corruption | IOError | RuntimeError | IllegalState | InvalidArgument | NotFound
  | TryAgain | AlreadyPresent | Expired | Aborted | LeaderNotReadyToServe | Fatal | Undefined

type_synonym 'a result = "status + 'a"

definition bind_result :: "'a result \<Rightarrow> ('a \<Rightarrow> 'b result) \<Rightarrow> 'b result" where
  "bind_result r f = (case r of Inl e \<Rightarrow> Inl e | Inr x \<Rightarrow> f x)"

lemma bind_result_simps [simp]:
  "bind_result (Inl e) f = Inl e"
  "bind_result (Inr x) f = f x"
  by (simp_all add: bind_result_def)

lemma bind_result_eq_Inr:
  "bind_result r f = Inr y \<longleftrightarrow> (\<exists>x. r = Inr x \<and> f x = Inr y)"
  by (cases r) auto

lemma bind_result_cong [fundef_cong]:
  "r = r' \<Longrightarrow> (\<And>x. r' = Inr x \<Longrightarrow> f x = f' x) \<Longrightarrow> bind_result r f = bind_result r' f'"
  by (cases r') auto

named_theorems byte_order \<open>facts about the \<open>memcmp\<close> order of byte strings\<close>
named_theorems unat_norm \<open>unsigned readings of word operations\<close>

lemma unat_not: "unat (NOT (w :: 'a::len word)) = 2 ^ LENGTH('a) - 1 - unat w"
proof -
  have "NOT w = - 1 - w" by (simp add: not_eq_complement)
  moreover have "w \<le> - 1" by simp
  ultimately show ?thesis by (simp add: unat_sub unsigned_minus_1_eq_mask mask_eq_exp_minus_1)
qed

section \<open>The order of byte strings\<close>

text \<open>
  \<open>bytes_less a b\<close>: the strings differ at some position inside both of them, and \<open>a\<close> has the
  smaller byte there. This is \<^verbatim>\<open>memcmp\<close> on strings of which neither is a prefix of the other,
  so unlike the plain lexicographic order it is kept when suffixes are appended.
\<close>

fun bytes_less :: "slice \<Rightarrow> slice \<Rightarrow> bool" where
  "bytes_less (x # xs) (y # ys) = (x < y \<or> (x = y \<and> bytes_less xs ys))"
| "bytes_less _ _ = False"

lemma bytes_less_append [byte_order]: "bytes_less a b \<Longrightarrow> bytes_less (a @ c) (b @ d)"
  by (induction a b rule: bytes_less.induct) auto

lemma bytes_less_same_prefix [byte_order, simp]: "bytes_less (p @ a) (p @ b) = bytes_less a b"
  by (induction p) auto

lemma bytes_less_irrefl [simp]: "\<not> bytes_less a a"
  by (induction a) auto

lemma bytes_less_Nil [simp]: "\<not> bytes_less a []"
  by (cases a) auto

lemma bytes_less_trans [byte_order]: "bytes_less a b \<Longrightarrow> bytes_less b c \<Longrightarrow> bytes_less a c"
proof (induction a b arbitrary: c rule: bytes_less.induct)
  case (1 x xs y ys)
  then show ?case by (cases c) (auto intro: less_trans)
qed auto

lemma bytes_less_asym: "bytes_less a b \<Longrightarrow> \<not> bytes_less b a"
  using bytes_less_trans bytes_less_irrefl by blast

lemma bytes_less_take:
  "bytes_less (take k a) (take k b) \<Longrightarrow> bytes_less a b"
  by (metis append_take_drop_id bytes_less_append)

lemma word_not_less_not: "NOT x < NOT y \<longleftrightarrow> y < x" for x y :: "'a::len word"
proof -
  have "unat x < 2 ^ LENGTH('a)" "unat y < 2 ^ LENGTH('a)" by (rule unsigned_less)+
  then show ?thesis unfolding word_less_nat_alt unat_not by linarith
qed

lemma bytes_less_map_not [byte_order]:
  "bytes_less (map (\<lambda>b. NOT b) a) (map (\<lambda>b. NOT b) b) \<longleftrightarrow> bytes_less b a"
  by (induction a b rule: bytes_less.induct) (auto simp: word_not_less_not)

lemma bytes_less_lexord: "bytes_less a b \<Longrightarrow> (a, b) \<in> lexord {(x, y). x < y}"
  by (induction a b rule: bytes_less.induct) auto

text \<open>
  \<open>bytes_distinguished a b\<close>: neither string is a prefix of the other. A set of strings in which
  any two different ones are distinguished is a prefix code.
\<close>

definition bytes_distinguished :: "slice \<Rightarrow> slice \<Rightarrow> bool" where
  "bytes_distinguished a b \<longleftrightarrow> bytes_less a b \<or> bytes_less b a"

section \<open>Big-endian integers\<close>

text \<open>The last \<open>n\<close> bytes of a number, most significant byte first.\<close>

primrec be_bytes :: "nat \<Rightarrow> nat \<Rightarrow> slice" where
  "be_bytes 0 N = []"
| "be_bytes (Suc n) N = of_nat (N div 256 ^ n) # be_bytes n N"

definition be_val :: "slice \<Rightarrow> nat" where
  "be_val bs = foldl (\<lambda>acc b. acc * 256 + unat b) 0 bs"

lemma length_be_bytes [simp]: "length (be_bytes n N) = n"
  by (induction n) auto

lemma foldl_be: "foldl (\<lambda>acc b. acc * 256 + unat (b :: byte)) a bs = a * 256 ^ length bs + be_val bs"
proof (induction bs arbitrary: a)
  case Nil
  then show ?case by (simp add: be_val_def)
next
  case (Cons b bs)
  have "be_val (b # bs) = unat b * 256 ^ length bs + be_val bs"
    using Cons.IH [of "unat b"] by (simp add: be_val_def)
  with Cons.IH [of "a * 256 + unat b"] show ?case
    by (simp add: algebra_simps)
qed

lemma be_val_Nil [simp]: "be_val [] = 0"
  by (simp add: be_val_def)

lemma be_val_Cons [simp]: "be_val (b # bs) = unat b * 256 ^ length bs + be_val bs"
  using foldl_be [of "unat b" bs] by (simp add: be_val_def)

lemma be_val_append: "be_val (a @ b) = be_val a * 256 ^ length b + be_val b"
  by (induction a) (auto simp: algebra_simps power_add)

lemma unat_byte_less: "unat (b :: byte) < 256"
  using unsigned_less [of b] by simp

lemma be_val_less: "be_val bs < 256 ^ length bs"
proof (induction bs)
  case (Cons b bs)
  have "unat b * 256 ^ length bs + be_val bs < (unat b + 1) * 256 ^ length bs"
    using Cons.IH by simp
  also have "\<dots> \<le> 256 * 256 ^ length bs"
    using unat_byte_less [of b] by (intro mult_right_mono) auto
  finally show ?case by simp
qed simp

lemma unat_of_nat_byte: "unat (of_nat k :: byte) = k mod 256"
  by (simp add: unat_of_nat)

lemma of_nat_byte_eq: "(of_nat a :: byte) = of_nat b \<longleftrightarrow> a mod 256 = b mod 256"
  by (simp add: word_unat_eq_iff unat_of_nat_byte)

lemma of_nat_byte_less: "(of_nat a :: byte) < of_nat b \<longleftrightarrow> a mod 256 < b mod 256"
  by (simp add: word_less_nat_alt unat_of_nat_byte)

lemma be_val_be_bytes: "be_val (be_bytes n N) = N mod 256 ^ n"
proof (induction n)
  case (Suc n)
  have "N mod 256 ^ Suc n = 256 ^ n * (N div 256 ^ n mod 256) + N mod 256 ^ n"
    using mod_mult2_eq [of N "256 ^ n" 256] by (simp add: mult.commute)
  with Suc show ?case by (simp add: unat_of_nat_byte mult.commute)
qed simp

lemma be_bytes_mod: "be_bytes n (N mod 256 ^ k) = be_bytes n N" if "n \<le> k"
  using that
proof (induction n)
  case (Suc n)
  have "(256 :: nat) ^ k = 256 ^ n * 256 ^ (k - n)"
    using Suc.prems by (simp flip: power_add)
  then have "N mod 256 ^ k div 256 ^ n = N div 256 ^ n mod 256 ^ (k - n)"
    by (simp add: mod_mult2_eq)
  moreover have "(256 :: nat) dvd 256 ^ (k - n)"
    using Suc.prems by (simp add: dvd_power)
  ultimately have "(of_nat (N mod 256 ^ k div 256 ^ n) :: byte) = of_nat (N div 256 ^ n)"
    by (simp add: of_nat_byte_eq mod_mod_cancel)
  with Suc show ?case by simp
qed simp

lemma be_bytes_take: "take k (be_bytes n N) = be_bytes k (N div 256 ^ (n - k))" if "k \<le> n"
  using that
proof (induction n arbitrary: k)
  case (Suc n)
  show ?case
  proof (cases k)
    case (Suc j)
    have "N div 256 ^ (n - j) div 256 ^ j = N div 256 ^ n"
      using Suc Suc.prems by (simp flip: div_mult2_eq power_add)
    with Suc Suc.prems Suc.IH [of j] show ?thesis by simp
  qed simp
qed simp

lemma be_bytes_drop: "drop k (be_bytes n N) = be_bytes (n - k) N"
proof (induction n arbitrary: k)
  case (Suc n)
  then show ?case by (cases k) auto
qed simp

lemma be_bytes_less [byte_order]:
  "N < M \<Longrightarrow> M < 256 ^ n \<Longrightarrow> bytes_less (be_bytes n N) (be_bytes n M)"
proof (induction n arbitrary: N M)
  case (Suc n)
  let ?q = "\<lambda>x. x div 256 ^ n" and ?r = "\<lambda>x. x mod 256 ^ n"
  have lt: "?q x < 256" if "x \<le> M" for x
    using Suc.prems that by (simp add: div_less_iff_less_mult mult.commute)
  have byte: "(of_nat (?q N) :: byte) < of_nat (?q M) \<longleftrightarrow> ?q N < ?q M"
    "(of_nat (?q N) :: byte) = of_nat (?q M) \<longleftrightarrow> ?q N = ?q M"
    using lt [of N] lt [of M] Suc.prems(1)
    by (auto simp: of_nat_byte_eq of_nat_byte_less)
  have rec: "be_bytes n x = be_bytes n (?r x)" for x
    by (simp add: be_bytes_mod)
  consider "?q N < ?q M" | "?q N = ?q M" "?r N < ?r M"
    using Suc.prems(1) by (metis div_le_mono div_mult_mod_eq le_eq_less_or_eq nat_add_left_cancel_less)
  then show ?case
  proof cases
    case 2
    then have "bytes_less (be_bytes n (?r N)) (be_bytes n (?r M))"
      by (intro Suc.IH) auto
    with 2 byte rec show ?thesis by simp
  qed (use byte in simp)
qed simp

lemma be_bytes_be_val: "be_bytes (length bs) (be_val bs) = bs"
proof (induction bs)
  case (Cons b bs)
  have q: "be_val (b # bs) div 256 ^ length bs = unat b"
    and r: "be_val (b # bs) mod 256 ^ length bs = be_val bs"
    using be_val_less [of bs] by (simp_all add: div_mult_self3)
  have "be_bytes (length bs) (be_val (b # bs)) = be_bytes (length bs) (be_val bs)"
    using be_bytes_mod [of "length bs" "length bs" "be_val (b # bs)"] r by simp
  with q Cons.IH show ?case by simp
qed simp

lemma unat_not_byte: "unat (NOT (b :: byte)) = 255 - unat b"
  by (simp add: unat_not)

lemma be_val_map_not: "be_val (map (\<lambda>b. NOT b) bs) + be_val bs + 1 = 256 ^ length bs"
proof (induction bs)
  case (Cons b bs)
  have "(255 - unat b) + unat b = 255" using unat_byte_less [of b] by simp
  then have "(255 - unat b) * 256 ^ length bs + unat b * 256 ^ length bs = 255 * 256 ^ length bs"
    by (simp flip: add_mult_distrib)
  with Cons.IH show ?case by (simp add: unat_not_byte)
qed simp

lemma map_not_be_bytes:
  assumes "N < 256 ^ n"
  shows "map (\<lambda>b. NOT b) (be_bytes n N) = be_bytes n (256 ^ n - 1 - N)"
proof -
  have "be_val (map (\<lambda>b. NOT b) (be_bytes n N)) = 256 ^ n - 1 - N"
    using be_val_map_not [of "be_bytes n N"] assms by (simp add: be_val_be_bytes)
  then show ?thesis
    using be_bytes_be_val [of "map (\<lambda>b. NOT b) (be_bytes n N)"] by simp
qed

section \<open>Unsigned readings of shifted words\<close>

lemma unat_drop_bit_div: "unat (drop_bit n w) = unat w div 2 ^ n"
  by (subst unat_drop_bit_eq) (rule drop_bit_eq_div)

lemma ucast_byte_of_nat: "(ucast w :: byte) = of_nat (unat w)"
  by simp

lemma ucast_drop_bit_byte: "(ucast (drop_bit (8 * j) w) :: byte) = of_nat (unat w div 256 ^ j)"
  by (simp only: ucast_byte_of_nat unat_drop_bit_div power_mult) simp

text \<open>Bits that are set in at most one of the operands: \<open>OR\<close> is addition.\<close>

lemma not_mask_or:
  fixes x :: "'a::len word"
  assumes "unat x < 2 ^ k"
  shows "NOT (push_bit k 1 - 1) OR x = x - 2 ^ k"
proof -
  have x: "take_bit k x = x"
    using assms by (simp add: word_unat_eq_iff unsigned_take_bit_eq take_bit_nat_eq_self)
  have m: "push_bit k 1 - 1 = (mask k :: 'a word)"
    by (simp add: mask_eq_exp_minus_1 push_bit_eq_mult)
  have "NOT (mask k) AND take_bit k x = 0"
    by (rule bit_eqI) (simp add: bit_simps)
  then have "NOT (mask k) OR x = NOT (mask k) + x"
    by (simp add: x disjunctive_add_eq_or)
  also have "\<dots> = x - 2 ^ k"
    by (simp add: not_eq_complement mask_eq_exp_minus_1)
  finally show ?thesis by (simp only: m)
qed

lemma push_or_add:
  fixes x :: "'a::len word"
  assumes "unat x < 2 ^ k"
  shows "push_bit k a OR x = push_bit k a + x"
proof -
  have x: "take_bit k x = x"
    using assms by (simp add: word_unat_eq_iff unsigned_take_bit_eq take_bit_nat_eq_self)
  have "push_bit k a AND take_bit k x = 0"
    by (rule bit_eqI) (simp add: bit_simps)
  then show ?thesis by (simp add: x disjunctive_add_eq_or)
qed

lemma unat_ucast_up:
  fixes w :: "'a::len word"
  assumes "LENGTH('a) \<le> LENGTH('b)"
  shows "unat (ucast w :: 'b::len word) = unat w"
proof -
  have "unat w < 2 ^ LENGTH('a)" by (rule unsigned_less)
  also have "\<dots> \<le> 2 ^ LENGTH('b)" using assms by (intro power_increasing) simp_all
  finally show ?thesis by (simp add: unsigned_ucast_eq take_bit_nat_eq_self)
qed

lemma unat_take_bit_mod: "unat (take_bit k w) = unat w mod 2 ^ k"
  by (subst unsigned_take_bit_eq) (rule take_bit_eq_mod)

lemma odd_less_2: "q < 2 \<Longrightarrow> odd q \<longleftrightarrow> q \<noteq> 0" for q :: nat
  by (cases q) auto

lemma and_sign16: "h AND 0x8000 = 0 \<longleftrightarrow> unat h < 32768" for h :: uint16
proof -
  have "unat h < 65536" using unsigned_less [of h] by simp
  then have "odd (unat h div 2 ^ 15) \<longleftrightarrow> unat h div 2 ^ 15 \<noteq> 0"
    by (intro odd_less_2) (simp add: div_less_iff_less_mult)
  also have "\<dots> \<longleftrightarrow> \<not> unat h < 2 ^ 15"
    by (simp only: div_eq_0_iff) simp
  finally have "\<not> bit (unat h) 15 \<longleftrightarrow> unat h < 32768"
    by (simp only: bit_iff_odd) simp
  moreover have "h AND 2 ^ 15 = 0 \<longleftrightarrow> \<not> bit (unat h) 15"
    by (simp only: and_exp_eq_0_iff_not_bit) (simp add: bit_unsigned_iff)
  ultimately show ?thesis by simp
qed

lemma and_exp_zero: "unat w < 2 ^ k \<Longrightarrow> w AND 2 ^ k = 0" for w :: "'a::len word"
proof -
  assume "unat w < 2 ^ k"
  then have "take_bit k w = w" by (simp add: word_unat_eq_iff unat_take_bit_mod)
  then have "\<not> bit w k" using bit_take_bit_iff [of k w k] by simp
  then show ?thesis by (simp only: and_exp_eq_0_iff_not_bit) simp
qed

end
