(* ===== verification/KeyEncoding.thy ===== *)
theory KeyEncoding
  imports Prelude
begin

text \<open>
  The contract every part of a document key obeys, so that keys can be concatenated from encoded
  parts and compared with \<^verbatim>\<open>memcmp\<close>: a decoder that gives back the value and the rest of the
  slice, and an encoder that maps a total order on the values to the order of byte strings. What
  follows from the contract (prefix-freeness, comparison of concatenations, pairs of parts) is
  proved once here; the components interpret it on their encoders.
\<close>

locale key_encoding =
  fixes enc :: "'a \<Rightarrow> slice"
    and dec :: "slice \<Rightarrow> ('a \<times> slice) result"
    and valid :: "'a \<Rightarrow> bool"
    and lt :: "'a \<Rightarrow> 'a \<Rightarrow> bool"
  assumes round_trip: "valid x \<Longrightarrow> dec (enc x @ rest) = Inr (x, rest)"
    and mono: "valid x \<Longrightarrow> valid y \<Longrightarrow> lt x y \<Longrightarrow> bytes_less (enc x) (enc y)"
    and total: "valid x \<Longrightarrow> valid y \<Longrightarrow> x \<noteq> y \<Longrightarrow> lt x y \<or> lt y x"
begin

lemma enc_inj: "valid x \<Longrightarrow> valid y \<Longrightarrow> enc x = enc y \<Longrightarrow> x = y"
  using round_trip [of x "[]"] round_trip [of y "[]"] by simp

lemma enc_distinguished:
  "valid x \<Longrightarrow> valid y \<Longrightarrow> x \<noteq> y \<Longrightarrow> bytes_distinguished (enc x) (enc y)"
  using total mono unfolding bytes_distinguished_def by blast

lemma prefix_free:
  assumes "valid x" "valid y" "enc x @ r = enc y @ s"
  shows "x = y \<and> r = s"
proof -
  have "(Inr (x, r) :: ('a \<times> slice) result) = Inr (y, s)"
    using round_trip [OF assms(1), of r] round_trip [OF assms(2), of s] by (simp only: assms(3))
  then show ?thesis by simp
qed

lemma lt_irrefl: "valid x \<Longrightarrow> \<not> lt x x"
  using mono by fastforce

lemma enc_less_iff:
  "valid x \<Longrightarrow> valid y \<Longrightarrow> bytes_less (enc x) (enc y) \<longleftrightarrow> lt x y"
  using mono [of x y] mono [of y x] total [of x y] bytes_less_asym [of "enc x" "enc y"] by auto

lemma append_less_iff:
  assumes "valid x" "valid y"
  shows "bytes_less (enc x @ r) (enc y @ s) \<longleftrightarrow> lt x y \<or> (x = y \<and> bytes_less r s)"
proof (cases "x = y")
  case True
  with lt_irrefl [OF assms(1)] show ?thesis by simp
next
  case False
  with assms total consider "lt x y" | "lt y x" by blast
  then show ?thesis
  proof cases
    case 1
    with assms mono bytes_less_append show ?thesis by blast
  next
    case 2
    with assms mono have "bytes_less (enc y @ s) (enc x @ r)" by (blast intro: bytes_less_append)
    moreover have "\<not> lt x y" using 2 assms mono bytes_less_asym by blast
    ultimately show ?thesis using False bytes_less_asym by blast
  qed
qed

end

text \<open>Two parts in a row: the first decides the order unless it is the same.\<close>

definition pair_enc :: "('a \<Rightarrow> slice) \<Rightarrow> ('b \<Rightarrow> slice) \<Rightarrow> 'a \<times> 'b \<Rightarrow> slice" where
  "pair_enc f g p = f (fst p) @ g (snd p)"

definition pair_dec ::
  "(slice \<Rightarrow> ('a \<times> slice) result) \<Rightarrow> (slice \<Rightarrow> ('b \<times> slice) result) \<Rightarrow>
   slice \<Rightarrow> (('a \<times> 'b) \<times> slice) result" where
  "pair_dec f g s =
     bind_result (f s) (\<lambda>(x, s'). bind_result (g s') (\<lambda>(y, s''). Inr ((x, y), s'')))"

definition pair_lt :: "('a \<Rightarrow> 'a \<Rightarrow> bool) \<Rightarrow> ('b \<Rightarrow> 'b \<Rightarrow> bool) \<Rightarrow> 'a \<times> 'b \<Rightarrow> 'a \<times> 'b \<Rightarrow> bool" where
  "pair_lt lt1 lt2 p q \<longleftrightarrow> lt1 (fst p) (fst q) \<or> (fst p = fst q \<and> lt2 (snd p) (snd q))"

locale key_pair =
  a: key_encoding enc1 dec1 valid1 lt1 + b: key_encoding enc2 dec2 valid2 lt2
  for enc1 :: "'a \<Rightarrow> slice" and dec1 valid1 lt1
    and enc2 :: "'b \<Rightarrow> slice" and dec2 valid2 lt2

sublocale key_pair \<subseteq> pair: key_encoding
  "pair_enc enc1 enc2" "pair_dec dec1 dec2" "\<lambda>p. valid1 (fst p) \<and> valid2 (snd p)" "pair_lt lt1 lt2"
proof
  fix x rest assume "valid1 (fst x) \<and> valid2 (snd x)"
  then show "pair_dec dec1 dec2 (pair_enc enc1 enc2 x @ rest) = Inr (x, rest)"
    by (simp add: pair_dec_def pair_enc_def a.round_trip b.round_trip)
next
  fix x y assume v: "valid1 (fst x) \<and> valid2 (snd x)" "valid1 (fst y) \<and> valid2 (snd y)"
  show "bytes_less (pair_enc enc1 enc2 x) (pair_enc enc1 enc2 y)" if "pair_lt lt1 lt2 x y"
    using v that by (auto simp: pair_enc_def pair_lt_def a.append_less_iff b.enc_less_iff)
  show "pair_lt lt1 lt2 x y \<or> pair_lt lt1 lt2 y x" if "x \<noteq> y"
    using v that a.total [of "fst x" "fst y"] b.total [of "snd x" "snd y"]
    by (cases "fst x = fst y") (auto simp: pair_lt_def prod_eq_iff)
qed

end
