(* ===== verification/FastVarInt.thy ===== *)
theory FastVarInt
  imports KeyEncoding
begin

text \<open>
  The variable-length integers of \<^verbatim>\<open>src/yb/util/fast_varint.cc\<close>. A signed 64-bit value is kept
  as its two's complement bits, a \<open>64 word\<close> read with \<^term>\<open>sint\<close>; buffers are byte lists, so an
  encoder returns the bytes it writes and a decoder takes the bytes of its slice.
\<close>

section \<open>Operations\<close>

function varint_length_loop :: "uint64 \<Rightarrow> nat \<Rightarrow> nat" where
  "varint_length_loop v n = (if v \<noteq> 0 then varint_length_loop (drop_bit 7 v) (n + 1) else n)"
  by pat_completeness auto
termination
proof (relation "measure (unat \<circ> fst)")
  fix v :: uint64 and n :: nat
  assume "v \<noteq> 0"
  then have "unat v div 2 ^ 7 < unat v"
    by (intro div_less_dividend) (auto simp: unat_gt_0)
  then show "((drop_bit 7 v, n + 1), (v, n)) \<in> measure (unat \<circ> fst)"
    by (simp only: in_measure o_def fst_conv unat_drop_bit_div)
qed simp

declare varint_length_loop.simps [simp del]

definition SignedPositiveVarIntLength :: "uint64 \<Rightarrow> nat" where
  "SignedPositiveVarIntLength v = varint_length_loop (drop_bit 6 v) 1"

definition FastEncodeSignedVarInt :: "uint64 \<Rightarrow> slice" where
  "FastEncodeSignedVarInt v =
     (let negative = sint v < 0;
          uv = (if negative then 1 + NOT v else v);
          n = SignedPositiveVarIntLength uv;
          start =
            (if n = 10 then [0xff, 0xc0]
             else if n = 9 then [0xff, ucast (0x80 OR drop_bit 56 uv)]
             else [ucast (NOT (push_bit (8 - n) 1 - 1) OR drop_bit (8 * (n - 1)) uv)]);
          dest = start @ map (\<lambda>i. ucast (drop_bit (8 * (n - 1 - i)) uv)) [length start..<n]
      in if negative then map (\<lambda>b. NOT b) dest else dest)"

definition kVarIntMasks :: "uint64 list" where
  "kVarIntMasks =
     [0, 0x3f, 0x1fff, 0xfffff, 0x7ffffff, 0x3ffffffff, 0x1ffffffffff, 0xffffffffffff,
      0x7fffffffffffff, 0x3fffffffffffffff, 0xffffffffffffffff]"

text \<open>\<^verbatim>\<open>__builtin_clz\<close> on a non-zero 32-bit argument: 32 less the number of significant bits.\<close>

fun bit_length :: "nat \<Rightarrow> nat" where
  "bit_length n = (if n = 0 then 0 else Suc (bit_length (n div 2)))"

declare bit_length.simps [simp del]

definition builtin_clz :: "uint32 \<Rightarrow> nat" where
  "builtin_clz w = 32 - bit_length (unat w)"

definition load_be :: "slice \<Rightarrow> uint64" where
  "load_be bs = foldl (\<lambda>temp b. push_bit 8 temp OR ucast b) 0 bs"

text \<open>
  The two builds of the decoder differ in how they fetch the payload. Under the sanitizers a
  loop reads the last at most eight of the \<open>n_bytes\<close> bytes; the release build loads the eight
  bytes that end at \<open>src + n_bytes\<close>, which begin before \<open>src\<close> when \<open>n_bytes < 8\<close>: \<open>before\<close> holds
  the eight bytes of memory in front of the slice. The parameter \<open>fetch\<close> is that difference.
\<close>

definition decode_signed_with :: "(nat \<Rightarrow> uint64) \<Rightarrow> slice \<Rightarrow> (uint64 \<times> nat) result" where
  "decode_signed_with fetch src =
     (if src = [] then Inl Corruption
      else
        let header0 = push_bit 8 (ucast (src ! 0)) OR (if length src > 1 then ucast (src ! 1) else 0) :: uint16;
            negative = - (if header0 AND 0x8000 = 0 then 1 else 0) :: uint64;
            header = header0 XOR ucast negative;
            n_bytes = builtin_clz ((NOT (ucast header) AND 0x7fff) OR 0x20) - 16
        in if length src < n_bytes then Inl Corruption
           else let mask = kVarIntMasks ! n_bytes
                in Inr (((fetch n_bytes AND mask) OR (NOT mask AND negative)) - negative, n_bytes))"

definition FastDecodeSignedVarInt :: "slice \<Rightarrow> (uint64 \<times> nat) result" where
  "FastDecodeSignedVarInt src =
     decode_signed_with (\<lambda>n_bytes. load_be (drop (n_bytes - 8) (take n_bytes src))) src"

definition FastDecodeSignedVarInt_release :: "slice \<Rightarrow> slice \<Rightarrow> (uint64 \<times> nat) result" where
  "FastDecodeSignedVarInt_release before src =
     decode_signed_with (\<lambda>n_bytes. load_be (take 8 (drop n_bytes (before @ src)))) src"

definition FastDecodeSignedVarInt_slice :: "slice \<Rightarrow> (uint64 \<times> slice) result" where
  "FastDecodeSignedVarInt_slice s =
     bind_result (FastDecodeSignedVarInt s) (\<lambda>(v, n). Inr (v, drop n s))"

definition FastEncodeDescendingSignedVarInt :: "uint64 \<Rightarrow> slice" where
  "FastEncodeDescendingSignedVarInt v = FastEncodeSignedVarInt (- v)"

definition FastDecodeDescendingSignedVarInt :: "slice \<Rightarrow> (uint64 \<times> slice) result" where
  "FastDecodeDescendingSignedVarInt s =
     bind_result (FastDecodeSignedVarInt s) (\<lambda>(v, n). Inr (- v, drop n s))"

definition UnsignedVarIntLength :: "uint64 \<Rightarrow> nat" where
  "UnsignedVarIntLength v = varint_length_loop (drop_bit 7 v) 1"

definition FastEncodeUnsignedVarInt :: "uint64 \<Rightarrow> slice" where
  "FastEncodeUnsignedVarInt v =
     (let n = UnsignedVarIntLength v;
          start =
            (if n = 10 then [0xff, 0x80]
             else if n = 9 then [0xff, ucast (drop_bit 56 v)]
             else [ucast (NOT (push_bit (9 - n) 1 - 1) OR drop_bit (8 * (n - 1)) v)])
      in start @ map (\<lambda>i. ucast (drop_bit (8 * (n - 1 - i)) v)) [length start..<n])"

definition kUnsignedVarIntSize :: "byte \<Rightarrow> nat" where
  "kUnsignedVarIntSize i = builtin_clz (push_bit 1 (ucast i) XOR 0x1ff) - 23 + 1"

definition FastDecodeUnsignedVarInt :: "slice \<Rightarrow> (uint64 \<times> nat) result" where
  "FastDecodeUnsignedVarInt src =
     (if src = [] then Inl Corruption
      else
        let first_byte = src ! 0;
            n_bytes = kUnsignedVarIntSize first_byte
        in if length src < n_bytes then Inl Corruption
           else if n_bytes = 1 then Inr (ucast (first_byte AND 0x7f), 1)
           else
             let (n_bytes, result, i) =
                   (if n_bytes = 9
                    then if src ! 1 AND 0x80 \<noteq> 0 then (10, ucast (src ! 1 AND 0x3f), 2)
                         else (9, 0, 0)
                    else (n_bytes, ucast (src ! 0 AND (push_bit (8 - n_bytes) 1 - 1)), 1))
             in if length src < n_bytes then Inl Corruption
                else Inr (foldl (\<lambda>result b. push_bit 8 result OR ucast b) result
                            (drop i (take n_bytes src)), n_bytes))"

definition FastDecodeUnsignedVarInt_slice :: "slice \<Rightarrow> (uint64 \<times> slice) result" where
  "FastDecodeUnsignedVarInt_slice s =
     bind_result (FastDecodeUnsignedVarInt s) (\<lambda>(v, n). Inr (v, drop n s))"

definition FastDecodeUnsignedVarInt_full :: "slice \<Rightarrow> uint64 result" where
  "FastDecodeUnsignedVarInt_full s =
     bind_result (FastDecodeUnsignedVarInt_slice s)
       (\<lambda>(v, rest). if rest \<noteq> [] then Inl Corruption else Inr v)"

section \<open>Lengths\<close>

lemma varint_length_loop_add: "varint_length_loop v (m + k) = varint_length_loop v m + k"
proof (induction v m rule: varint_length_loop.induct)
  case (1 v m)
  then show ?case
    using varint_length_loop.simps [of v "m + k"] varint_length_loop.simps [of v m] by simp
qed

lemma varint_length_loop_step:
  "varint_length_loop v 0 = (if v = 0 then 0 else Suc (varint_length_loop (drop_bit 7 v) 0))"
  using varint_length_loop.simps [of v 0] varint_length_loop_add [of "drop_bit 7 v" 0 1] by simp

lemma varint_length_loop_bounds:
  "unat v < 2 ^ (7 * varint_length_loop v 0) \<and>
   (v \<noteq> 0 \<longrightarrow> 2 ^ (7 * (varint_length_loop v 0 - 1)) \<le> unat v)"
proof (induction "unat v" arbitrary: v rule: less_induct)
  case less
  show ?case
  proof (cases "v = 0")
    case False
    let ?w = "drop_bit 7 v" and ?k = "varint_length_loop (drop_bit 7 v) 0"
    have w: "unat ?w = unat v div 128"
      by (simp only: unat_drop_bit_div) simp
    with False have "unat ?w < unat v"
      by (simp add: unat_gt_0 del: drop_bit_eq_div)
    from less [OF this] have IH: "unat v div 128 < 2 ^ (7 * ?k)"
      "?w \<noteq> 0 \<longrightarrow> 2 ^ (7 * (?k - 1)) \<le> unat v div 128"
      unfolding w by auto
    have k: "varint_length_loop v 0 = Suc ?k"
      using False varint_length_loop_step [of v] by simp
    have "unat v < 128 * 2 ^ (7 * ?k)"
      using IH(1) by (simp add: div_less_iff_less_mult mult.commute)
    moreover have "2 ^ (7 * ?k) \<le> unat v"
    proof (cases "?w = 0")
      case True
      with varint_length_loop_step [of ?w] False show ?thesis
        by (simp add: unat_gt_0 Suc_le_eq)
    next
      case w0: False
      then have "?k \<noteq> 0" using varint_length_loop_step [of ?w] by simp
      then have "2 ^ (7 * ?k) = (2 :: nat) ^ (7 * (?k - 1)) * 128"
        by (cases ?k) (simp_all add: power_add)
      with IH(2) w0 show ?thesis by (simp add: le_div_geq less_eq_div_iff_mult_less_eq)
    qed
    ultimately show ?thesis unfolding k by (simp add: power_add)
  qed (simp add: varint_length_loop_step)
qed

section \<open>The prefix code\<close>

text \<open>
  Both encodings share one layout. A value of \<open>n\<close> bytes starts with a header of \<open>n - 1 + c\<close> one
  bits and a zero bit; the remaining \<open>7 * n - c\<close> bits hold the magnitude. The signed encoding has
  \<open>c = 1\<close> (its first header bit is the sign), the unsigned one \<open>c = 0\<close>. Read as one big-endian
  number the bytes are \<^term>\<open>varint_code c n u\<close>.
\<close>

definition varint_code :: "nat \<Rightarrow> nat \<Rightarrow> nat \<Rightarrow> nat" where
  "varint_code c n u = (2 ^ (n - 1 + c) - 1) * 2 ^ (7 * n + 1 - c) + u"

locale varint_layout =
  fixes c :: nat and length_of :: "uint64 \<Rightarrow> nat"
  assumes c_le: "c \<le> 1"
    and length_of_eq: "length_of u = varint_length_loop (drop_bit (7 - c) u) 1"
begin

lemma length_bounds:
  shows "1 \<le> length_of u" "length_of u \<le> 10" "unat u < 2 ^ (7 * length_of u - c)"
    "2 \<le> length_of u \<Longrightarrow> 2 ^ (7 * (length_of u - 1) - c) \<le> unat u"
proof -
  let ?v = "drop_bit (7 - c) u" let ?k = "varint_length_loop ?v 0"
  have n: "length_of u = Suc ?k"
    using varint_length_loop_add [of ?v 0 1] by (simp add: length_of_eq)
  note b = varint_length_loop_bounds [of ?v, unfolded unat_drop_bit_div]
  show "1 \<le> length_of u" using n by simp
  have "unat u < 2 ^ (7 - c) * 2 ^ (7 * ?k)"
    using b by (simp add: div_less_iff_less_mult mult.commute)
  then show "unat u < 2 ^ (7 * length_of u - c)"
    using c_le unfolding n by (simp flip: power_add)
  show low: "2 ^ (7 * (length_of u - 1) - c) \<le> unat u" if "2 \<le> length_of u"
  proof -
    have "?v \<noteq> 0" using that n varint_length_loop_step [of ?v] by auto
    with b have "2 ^ (7 * (?k - 1)) \<le> unat u div 2 ^ (7 - c)" by simp
    then have "2 ^ (7 * (?k - 1)) * 2 ^ (7 - c) \<le> unat u" by (simp add: less_eq_div_iff_mult_less_eq)
    moreover have "2 ^ (7 * ?k - c) = (2 :: nat) ^ (7 * (?k - 1)) * 2 ^ (7 - c)"
      using that n c_le by (cases ?k) (simp_all flip: power_add)
    ultimately show ?thesis unfolding n by simp
  qed
  show "length_of u \<le> 10"
  proof (rule ccontr)
    assume "\<not> length_of u \<le> 10"
    with low have "2 ^ (7 * (length_of u - 1) - c) \<le> unat u" by simp
    moreover have "(2 :: nat) ^ 64 \<le> 2 ^ (7 * (length_of u - 1) - c)"
      using \<open>\<not> length_of u \<le> 10\<close> c_le by (intro power_increasing) auto
    moreover have "unat u < 2 ^ 64" using unsigned_less [of u] by simp
    ultimately show False by linarith
  qed
qed

lemma length_mono: "unat u \<le> unat w \<Longrightarrow> length_of u \<le> length_of w"
proof (rule ccontr)
  assume le: "unat u \<le> unat w" and "\<not> length_of u \<le> length_of w"
  then have gt: "length_of w < length_of u" by simp
  then have "2 ^ (7 * (length_of u - 1) - c) \<le> unat u"
    using length_bounds(1) [of w] by (intro length_bounds(4)) simp
  moreover have "(2 :: nat) ^ (7 * length_of w - c) \<le> 2 ^ (7 * (length_of u - 1) - c)"
    using gt by (intro power_increasing diff_le_mono mult_le_mono2) auto
  ultimately show False using le length_bounds(3) [of w] by linarith
qed

lemma code_upper:
  assumes "1 \<le> n" and "u < 2 ^ (7 * n - c)"
  shows "varint_code c n u < (2 ^ (n + c) - 1) * 2 ^ (7 * n - c)"
proof -
  let ?P = "2 ^ (7 * n - c) :: nat"
  have "2 ^ (7 * n + 1 - c) = 2 * ?P" and "(2 :: nat) ^ (n + c) = 2 * 2 ^ (n - 1 + c)"
    using c_le assms(1) by (simp_all flip: power_Suc add: Suc_diff_le)
  moreover have "1 \<le> (2 :: nat) ^ (n - 1 + c)" by simp
  ultimately show ?thesis
    using assms(2) unfolding varint_code_def
    by (cases "(2 :: nat) ^ (n - 1 + c)") (simp_all add: algebra_simps)
qed

lemma code_less_256:
  assumes "1 \<le> n" and "u < 2 ^ (7 * n - c)"
  shows "varint_code c n u < 256 ^ n"
proof -
  have "varint_code c n u < 2 ^ (n + c) * 2 ^ (7 * n - c)"
    using code_upper [OF assms] by (rule less_le_trans) (intro mult_right_mono; simp)
  also have "\<dots> = 256 ^ n"
    using c_le assms(1) by (simp flip: power_add) (simp add: power_mult)
  finally show ?thesis .
qed

lemma code_lower:
  assumes "1 \<le> n" "n < m"
  shows "(2 ^ (n + c) - 1) * 2 ^ (8 * m - (n + c)) \<le> varint_code c m u"
proof -
  have e: "(2 ^ a - 1) * 2 ^ b = (2 :: nat) ^ (a + b) - 2 ^ b" for a b
    by (simp add: diff_mult_distrib power_add)
  have "(2 ^ (n + c) - 1) * 2 ^ (8 * m - (n + c)) = (2 :: nat) ^ (8 * m) - 2 ^ (8 * m - (n + c))"
    using assms c_le by (subst e) simp
  also have "\<dots> \<le> 2 ^ (8 * m) - 2 ^ (7 * m + 1 - c)"
    using assms c_le by (intro diff_le_mono2 power_increasing) auto
  also have "\<dots> = (2 ^ (m - 1 + c) - 1) * 2 ^ (7 * m + 1 - c)"
    using assms c_le by (subst e) (simp add: add.commute)
  finally show ?thesis by (simp add: varint_code_def)
qed

lemma code_bytes_less_longer:
  assumes "1 \<le> n" "n < m" "u < 2 ^ (7 * n - c)" "w < 2 ^ (7 * m - c)"
  shows "bytes_less (be_bytes n (varint_code c n u)) (be_bytes m (varint_code c m w))"
proof -
  let ?N = "varint_code c n u" and ?M = "varint_code c m w"
  have "8 * m - (n + c) = (7 * n - c) + 8 * (m - n)"
    using assms(1,2) c_le by simp
  then have "(2 ^ (n + c) - 1) * 2 ^ (7 * n - c) * 256 ^ (m - n) \<le> ?M"
    using code_lower [OF assms(1,2), of w] by (simp add: power_add power_mult mult.assoc)
  then have "(2 ^ (n + c) - 1) * 2 ^ (7 * n - c) \<le> ?M div 256 ^ (m - n)"
    by (simp add: less_eq_div_iff_mult_less_eq)
  with code_upper [OF assms(1,3)] have less: "?N < ?M div 256 ^ (m - n)" by linarith
  have "?M < 256 ^ n * 256 ^ (m - n)"
    using code_less_256 [OF _ assms(4)] assms(1,2) by (simp flip: power_add)
  then have "?M div 256 ^ (m - n) < 256 ^ n" by (simp add: div_less_iff_less_mult)
  with less have "bytes_less (be_bytes n ?N) (be_bytes n (?M div 256 ^ (m - n)))"
    by (rule be_bytes_less)
  then have "bytes_less (take n (be_bytes n ?N)) (take n (be_bytes m ?M))"
    using assms(2) by (simp add: be_bytes_take)
  then show ?thesis by (rule bytes_less_take)
qed

definition layout_bytes :: "uint64 \<Rightarrow> slice" where
  "layout_bytes u = be_bytes (length_of u) (varint_code c (length_of u) (unat u))"

lemma layout_bytes_less:
  assumes "unat u < unat w"
  shows "bytes_less (layout_bytes u) (layout_bytes w)"
proof (cases "length_of u = length_of w")
  case True
  have "varint_code c (length_of w) (unat w) < 256 ^ length_of w"
    by (rule code_less_256) (rule length_bounds)+
  then show ?thesis
    using True assms by (simp add: layout_bytes_def be_bytes_less varint_code_def)
next
  case False
  with length_mono [of u w] assms have "length_of u < length_of w" by simp
  then show ?thesis
    unfolding layout_bytes_def
    by (intro code_bytes_less_longer length_bounds)
qed

end

interpretation slen: varint_layout "Suc 0" SignedPositiveVarIntLength
  by unfold_locales (simp_all add: SignedPositiveVarIntLength_def)

interpretation ulen: varint_layout 0 UnsignedVarIntLength
  by unfold_locales (simp_all add: UnsignedVarIntLength_def)

section \<open>The encoders write the layout\<close>

lemma tail_be_bytes:
  "i \<le> n \<Longrightarrow> map (\<lambda>i. ucast (drop_bit (8 * (n - 1 - i)) u)) [i..<n] = be_bytes (n - i) (unat u)"
proof (induction "n - i" arbitrary: i)
  case (Suc k)
  then have i: "i < n" and k: "k = n - Suc i" by auto
  have "map (\<lambda>i. ucast (drop_bit (8 * (n - 1 - i)) u)) [Suc i..<n] = be_bytes k (unat u)"
    using Suc.hyps(1) [of "Suc i"] i k by simp
  moreover have "n - i = Suc k" using i k by simp
  ultimately show ?case
    using i k by (simp add: upt_conv_Cons ucast_drop_bit_byte)
qed simp

text \<open>The first byte when the header fits into it: \<open>k\<close> low bits are free for the magnitude.\<close>

lemma header_byte:
  assumes "k \<le> 8" and "unat u div 256 ^ j < 2 ^ k"
  shows "(ucast (NOT (push_bit k 1 - 1) OR drop_bit (8 * j) (u :: uint64)) :: byte)
    = of_nat (2 ^ 8 - 2 ^ k + unat u div 256 ^ j)"
proof -
  let ?x = "drop_bit (8 * j) u"
  have x: "unat ?x = unat u div 256 ^ j"
    by (simp only: unat_drop_bit_div) (simp add: power_mult)
  have "NOT (push_bit k 1 - 1) OR ?x = ?x - 2 ^ k"
    using assms(2) x by (intro not_mask_or) simp
  also have "\<dots> = of_nat (unat ?x + (2 ^ 64 - 2 ^ k))"
  proof -
    have "(2 :: nat) ^ k \<le> 2 ^ 64" using assms(1) by (intro power_increasing) auto
    then have "(of_nat (2 ^ 64 - 2 ^ k) :: uint64) = of_nat (2 ^ 64) - of_nat (2 ^ k)"
      by (rule of_nat_diff)
    then show ?thesis by simp
  qed
  finally have "(ucast (NOT (push_bit k 1 - 1) OR ?x) :: byte)
      = of_nat ((unat ?x + (2 ^ 64 - 2 ^ k)) mod 2 ^ 64)"
    by (simp only: ucast_byte_of_nat unat_of_nat) simp
  moreover have "(2 :: nat) ^ k \<le> 2 ^ 8" using assms(1) by (intro power_increasing) auto
  moreover have "unat ?x < 2 ^ k" using assms(2) x by simp
  ultimately show ?thesis
    unfolding x [symmetric] of_nat_byte_eq by (simp add: of_nat_byte_eq)
qed

context varint_layout
begin

lemma layout_short:
  assumes "1 \<le> n" "n \<le> 8" "u < 2 ^ (7 * n - c)"
  shows "be_bytes n (varint_code c n u) =
      of_nat (2 ^ 8 - 2 ^ (9 - n - c) + u div 256 ^ (n - 1)) # be_bytes (n - 1) u"
    and "u div 256 ^ (n - 1) < 2 ^ (9 - n - c)"
proof -
  obtain j where n: "n = Suc j" using assms(1) by (cases n) auto
  let ?k = "9 - n - c" let ?h = "(2 ^ (n - 1 + c) - 1) * 2 ^ ?k :: nat"
  have hk: "n - 1 + c + ?k = 8" "7 * n + 1 - c = ?k + 8 * j"
    using assms(1,2) c_le n by auto
  have "(2 :: nat) ^ (n - 1 + c) * 2 ^ ?k = 2 ^ 8" by (simp only: hk flip: power_add)
  then have h: "?h = 2 ^ 8 - 2 ^ ?k" by (simp add: diff_mult_distrib)
  have code: "varint_code c n u = ?h * 256 ^ j + u"
    unfolding varint_code_def hk(2) by (simp add: power_add power_mult)
  have "varint_code c n u div 256 ^ j = 2 ^ 8 - 2 ^ ?k + u div 256 ^ j"
    unfolding code h by simp
  moreover have "be_bytes j (varint_code c n u) = be_bytes j u"
    unfolding code by (metis be_bytes_mod mod_mult_self3 order_refl)
  ultimately show "be_bytes n (varint_code c n u) =
      of_nat (2 ^ 8 - 2 ^ ?k + u div 256 ^ (n - 1)) # be_bytes (n - 1) u"
    by (simp only: n be_bytes.simps diff_Suc_1)
  have "u < 2 ^ ?k * 256 ^ j"
  proof -
    have "(2 :: nat) ^ (7 * n - c) \<le> 2 ^ (?k + 8 * j)"
      using hk(2) by (intro power_increasing) auto
    with assms(3) show ?thesis by (simp add: power_add power_mult)
  qed
  then show "u div 256 ^ (n - 1) < 2 ^ ?k" by (simp add: n div_less_iff_less_mult)
qed

end

lemma two_byte_header:
  assumes "u < 256 ^ Suc j"
  shows "be_bytes (Suc (Suc j)) (h * 256 ^ j + u) =
      of_nat ((h + u div 256 ^ j) div 256) # of_nat (h + u div 256 ^ j) # be_bytes j u"
proof -
  have d: "(h * 256 ^ j + u) div 256 ^ j = h + u div 256 ^ j" by simp
  moreover have "(h * 256 ^ j + u) div 256 ^ Suc j = (h + u div 256 ^ j) div 256"
    using div_mult2_eq [of "h * 256 ^ j + u" "256 ^ j" 256] d by (simp add: mult.commute)
  moreover have "be_bytes j (h * 256 ^ j + u) = be_bytes j u"
    by (metis be_bytes_mod mod_mult_self3 order_refl)
  ultimately show ?thesis by simp
qed

lemma layout_long_signed:
  "u < 2 ^ 62 \<Longrightarrow> be_bytes 9 (varint_code 1 9 u) = 0xff # of_nat (0x80 + u div 256 ^ 7) # be_bytes 7 u"
  "u < 2 ^ 64 \<Longrightarrow> be_bytes 10 (varint_code 1 10 u) = 0xff # 0xc0 # be_bytes 8 u"
proof -
  assume "u < 2 ^ 62"
  then have "u div 256 ^ 7 < 64" by (simp add: div_less_iff_less_mult)
  then have "(65408 + u div 256 ^ 7) div 256 = 255" by (intro div_nat_eqI) auto
  then show "be_bytes 9 (varint_code 1 9 u) = 0xff # of_nat (0x80 + u div 256 ^ 7) # be_bytes 7 u"
    using two_byte_header [of u 7 65408] \<open>u < 2 ^ 62\<close> by (simp add: varint_code_def)
qed (use two_byte_header [of u 8 65472] in \<open>simp add: varint_code_def\<close>)

lemma layout_long_unsigned:
  "u < 2 ^ 63 \<Longrightarrow> be_bytes 9 (varint_code 0 9 u) = 0xff # of_nat (u div 256 ^ 7) # be_bytes 7 u"
  "u < 2 ^ 64 \<Longrightarrow> be_bytes 10 (varint_code 0 10 u) = 0xff # 0x80 # be_bytes 8 u"
proof -
  assume "u < 2 ^ 63"
  then have "u div 256 ^ 7 < 128" by (simp add: div_less_iff_less_mult)
  then have "(65280 + u div 256 ^ 7) div 256 = 255" by (intro div_nat_eqI) auto
  then show "be_bytes 9 (varint_code 0 9 u) = 0xff # of_nat (u div 256 ^ 7) # be_bytes 7 u"
    using two_byte_header [of u 7 65280] \<open>u < 2 ^ 63\<close> by (simp add: varint_code_def)
qed (use two_byte_header [of u 8 65408] in \<open>simp add: varint_code_def\<close>)

definition magnitude :: "uint64 \<Rightarrow> uint64" where
  "magnitude v = (if sint v < 0 then - v else v)"

lemma FastEncodeSignedVarInt_layout:
  "FastEncodeSignedVarInt v =
     (if sint v < 0 then map (\<lambda>b. NOT b) (slen.layout_bytes (magnitude v))
      else slen.layout_bytes (magnitude v))"
proof -
  let ?u = "magnitude v" let ?n = "SignedPositiveVarIntLength ?u"
  have u: "(if sint v < 0 then 1 + NOT v else v) = ?u"
    by (simp add: magnitude_def not_eq_complement)
  let ?start = "if ?n = 10 then [0xff, 0xc0]
             else if ?n = 9 then [0xff, ucast (0x80 OR drop_bit 56 ?u)]
             else [ucast (NOT (push_bit (8 - ?n) 1 - 1) OR drop_bit (8 * (?n - 1)) ?u)] :: slice"
  note b = slen.length_bounds [of ?u]
  have tail: "map (\<lambda>i. ucast (drop_bit (8 * (?n - 1 - i)) ?u)) [length ?start..<?n]
      = be_bytes (?n - length ?start) (unat ?u)"
    using b(1) by (intro tail_be_bytes) auto
  have "?start @ be_bytes (?n - length ?start) (unat ?u) = slen.layout_bytes ?u"
  proof -
    consider "?n = 10" | "?n = 9" | "?n \<le> 8" using b(2) by linarith
    then show ?thesis
    proof cases
      case 1
      moreover have "unat ?u < 2 ^ 64" using unsigned_less [of ?u] by simp
      ultimately show ?thesis
        using layout_long_signed(2) [of "unat ?u"] by (simp add: slen.layout_bytes_def)
    next
      case 2
      with b(3) have "unat ?u < 2 ^ 62" by simp
      then have x: "unat (drop_bit 56 ?u) = unat ?u div 256 ^ 7" "unat ?u div 256 ^ 7 < 2 ^ 7"
        by (simp_all add: unat_drop_bit_div div_less_iff_less_mult)
      have "0x80 OR drop_bit 56 ?u = 0x80 + drop_bit 56 ?u"
        using push_or_add [of "drop_bit 56 ?u" 7 1] x by simp
      then have "(ucast (0x80 OR drop_bit 56 ?u) :: byte) = of_nat (0x80 + unat ?u div 256 ^ 7)"
        using x by (simp add: ucast_byte_of_nat unat_word_ariths del: of_nat_unat)
      with 2 \<open>unat ?u < 2 ^ 62\<close> show ?thesis
        using layout_long_signed(1) [of "unat ?u"] by (simp add: slen.layout_bytes_def)
    next
      case 3
      show ?thesis
        using 3 slen.layout_short [OF b(1) 3 b(3)] header_byte [of "8 - ?n" ?u "?n - 1"]
        by (simp add: slen.layout_bytes_def)
    qed
  qed
  then show ?thesis
    unfolding FastEncodeSignedVarInt_def Let_def u tail by simp
qed

lemma length_layout_bytes [simp]:
  "length (slen.layout_bytes u) = SignedPositiveVarIntLength u"
  "length (ulen.layout_bytes u) = UnsignedVarIntLength u"
  by (simp_all add: slen.layout_bytes_def ulen.layout_bytes_def)

section \<open>Order of the signed encoding\<close>

lemma sint_conv_unat: "sint (v :: uint64) = int (unat v) - (if sint v < 0 then 2 ^ 64 else 0)"
proof -
  have t: "take_bit 64 (uint v) = uint v"
    using uint_lt2p [of v] by (intro take_bit_int_eq_self) simp_all
  have "sint v = uint v - 2 ^ 64 * of_bool (bit (uint v) 63)"
    using signed_take_bit_eq_take_bit_minus [of 63 "uint v"] t by (simp add: sint_uint)
  moreover have "sint v < 0 \<longleftrightarrow> bit (uint v) 63" by (simp add: sint_uint)
  ultimately show ?thesis by simp
qed

lemma int_magnitude: "int (unat (magnitude v)) = \<bar>sint v\<bar>"
proof (cases "sint v < 0")
  case True
  have b: "unat v < 2 ^ 64" using unsigned_less [of v] by simp
  have s: "sint v = int (unat v) - 2 ^ 64" using True sint_conv_unat [of v] by simp
  have "v \<noteq> 0" using True by auto
  then have "unat (- v) = 2 ^ 64 - unat v"
    using unat_sub_if_size [of 0 v] by (simp add: size_word.rep_eq unat_gt_0)
  then have "int (unat (- v)) = int (2 ^ 64) - int (unat v)"
    using of_nat_diff [OF less_imp_le [OF b], where ?'a = int] by (simp only:)
  with True s show ?thesis by (simp add: magnitude_def)
next
  case False
  then show ?thesis using sint_conv_unat [of v] by (simp add: magnitude_def)
qed

lemma signed_code_bounds:
  assumes "1 \<le> n" "u < 2 ^ (7 * n - 1)"
  shows "2 ^ (8 * n) - 2 ^ (7 * n) \<le> varint_code (Suc 0) n u"
    and "varint_code (Suc 0) n u < 2 ^ (8 * n) - 2 ^ (7 * n - 1)"
proof -
  have "(2 ^ n - 1) * 2 ^ (7 * n) = (2 :: nat) ^ (8 * n) - 2 ^ (7 * n)"
    by (simp add: diff_mult_distrib flip: power_add)
  moreover have "(2 ^ (n + 1) - 1) * 2 ^ (7 * n - 1) = (2 :: nat) ^ (8 * n) - 2 ^ (7 * n - 1)"
    using assms(1) by (simp add: diff_mult_distrib flip: power_add power_Suc)
  moreover have "varint_code (Suc 0) n u = (2 ^ n - 1) * 2 ^ (7 * n) + u"
    using assms(1) by (simp add: varint_code_def)
  moreover have "varint_code (Suc 0) n u < (2 ^ (n + 1) - 1) * 2 ^ (7 * n - 1)"
    using slen.code_upper [of n u] assms by simp
  ultimately show "2 ^ (8 * n) - 2 ^ (7 * n) \<le> varint_code (Suc 0) n u"
    and "varint_code (Suc 0) n u < 2 ^ (8 * n) - 2 ^ (7 * n - 1)"
    by linarith+
qed

lemma hd_layout_bytes: "unat (hd (slen.layout_bytes u)) \<ge> 128"
proof -
  let ?n = "SignedPositiveVarIntLength u" let ?V = "varint_code (Suc 0) ?n (unat u)"
  note b = slen.length_bounds [of u]
  obtain j where n: "?n = Suc j" using b(1) by (cases ?n) auto
  have "(2 :: nat) ^ (8 * ?n) = 2 * 2 ^ (8 * ?n - 1)"
    using b(1) by (simp flip: power_Suc)
  moreover have "(2 :: nat) ^ (7 * ?n) \<le> 2 ^ (8 * ?n - 1)"
    using b(1) by (intro power_increasing) auto
  ultimately have "2 ^ (8 * ?n - 1) \<le> ?V"
    using signed_code_bounds(1) [of ?n "unat u"] b(1,3) unfolding One_nat_def by linarith
  then have "128 * 256 ^ j \<le> ?V"
    by (simp add: n power_add power_mult)
  then have "128 \<le> ?V div 256 ^ j" by (simp add: less_eq_div_iff_mult_less_eq)
  moreover have "?V < 256 * 256 ^ j"
    using slen.code_less_256 [of ?n "unat u"] b n by simp
  then have "?V div 256 ^ j < 256" by (simp add: div_less_iff_less_mult)
  ultimately show ?thesis
    by (simp add: slen.layout_bytes_def n unat_of_nat_byte)
qed

lemma FastEncodeSignedVarInt_less:
  assumes "sint v < sint w"
  shows "bytes_less (FastEncodeSignedVarInt v) (FastEncodeSignedVarInt w)"
proof -
  note m = int_magnitude [of v] int_magnitude [of w]
  consider "0 \<le> sint v" | "sint w < 0" | "sint v < 0" "0 \<le> sint w" by linarith
  then show ?thesis
  proof cases
    case 1
    then have "unat (magnitude v) < unat (magnitude w)" using assms m by linarith
    with 1 assms show ?thesis
      by (simp add: FastEncodeSignedVarInt_layout slen.layout_bytes_less)
  next
    case 2
    then have "unat (magnitude w) < unat (magnitude v)" using assms m by linarith
    with 2 assms show ?thesis
      by (simp add: FastEncodeSignedVarInt_layout bytes_less_map_not slen.layout_bytes_less)
  next
    case 3
    have ne: "slen.layout_bytes u \<noteq> []" for u
      using slen.length_bounds(1) [of u] by (auto simp flip: length_greater_0_conv)
    obtain a as where a: "slen.layout_bytes (magnitude v) = a # as" "128 \<le> unat a"
      using ne hd_layout_bytes [of "magnitude v"] by (metis list.collapse)
    obtain b bs where b: "slen.layout_bytes (magnitude w) = b # bs" "128 \<le> unat b"
      using ne hd_layout_bytes [of "magnitude w"] by (metis list.collapse)
    have "NOT a < b" using a(2) b(2) by (simp add: word_less_nat_alt unat_not)
    with 3 a b show ?thesis by (simp add: FastEncodeSignedVarInt_layout)
  qed
qed

section \<open>Decoding the signed encoding\<close>

lemma foldl_load_be:
  "foldl (\<lambda>temp b. push_bit 8 temp OR ucast b) a bs = a * 256 ^ length bs + (of_nat (be_val bs) :: uint64)"
proof (induction bs arbitrary: a)
  case (Cons b bs)
  have b: "unat (ucast b :: uint64) = unat b"
    by (simp add: unat_ucast_up)
  then have "push_bit 8 a OR ucast b = a * 256 + (of_nat (unat b) :: uint64)"
    using push_or_add [of "ucast b :: uint64" 8 a] unat_byte_less [of b]
    by (simp add: push_bit_eq_mult)
  then show ?case by (simp add: Cons.IH algebra_simps)
qed simp

lemma load_be_val: "load_be bs = of_nat (be_val bs)"
  by (simp add: load_be_def foldl_load_be)

lemma bit_length_le: "n < 2 ^ k \<Longrightarrow> bit_length n \<le> k"
proof (induction k arbitrary: n)
  case (Suc k)
  then have "n div 2 < 2 ^ k" by auto
  from Suc.IH [OF this] show ?case by (subst bit_length.simps) simp
qed (simp add: bit_length.simps)

lemma bit_length_greater: "2 ^ k \<le> n \<Longrightarrow> k < bit_length n"
proof (induction k arbitrary: n)
  case (Suc k)
  then have "2 ^ k \<le> n div 2" by auto
  moreover have "n \<noteq> 0" using Suc.prems by (intro notI) simp
  ultimately show ?case using Suc.IH [of "n div 2"] by (subst bit_length.simps) simp
qed (simp add: bit_length.simps)

lemma bit_length_eq: "2 ^ k \<le> n \<Longrightarrow> n < 2 ^ Suc k \<Longrightarrow> bit_length n = Suc k"
  using bit_length_le [of n "Suc k"] bit_length_greater [of k n] by simp

lemma unat_or_range:
  fixes x y :: "'a::len word"
  assumes "2 ^ k \<le> unat x" "unat x < 2 ^ m" "unat y < 2 ^ m"
  shows "2 ^ k \<le> unat (x OR y)" "unat (x OR y) < 2 ^ m"
proof -
  have "take_bit m (unat (x OR y)) = unat (x OR y)"
    using assms by (simp add: unsigned_or_eq take_bit_nat_eq_self)
  then show "unat (x OR y) < 2 ^ m" by (metis take_bit_nat_less_exp)
  have "x \<le> x OR y" by (rule le_word_or2)
  then show "2 ^ k \<le> unat (x OR y)" using assms(1) by (simp add: word_le_nat_alt)
qed

lemma header_size:
  fixes h :: uint16
  assumes "1 \<le> n" "n \<le> 10" "2 ^ 16 - 2 ^ (16 - n) \<le> unat h" "unat h < 2 ^ 16 - 2 ^ (15 - n)"
  shows "builtin_clz ((NOT (ucast h) AND 0x7fff) OR 0x20) - 16 = n"
proof -
  let ?x = "NOT (ucast h) AND 0x7fff :: uint32"
  have p: "(2 :: nat) ^ (16 - n) \<le> 2 ^ 15" "(2 :: nat) ^ 6 \<le> 2 ^ (16 - n)"
    using assms(1,2) by (intro power_increasing; simp)+
  have h: "unat (ucast h :: uint32) = unat h"
    by (simp add: unat_ucast_up)
  have H: "unat h < 65536" "32768 \<le> unat h"
    using unsigned_less [of h] assms(3) p(1) by simp_all
  have "?x = take_bit 15 (NOT (ucast h))"
    by (simp add: take_bit_eq_mask mask_eq_exp_minus_1)
  then have "unat ?x = unat (NOT (ucast h :: uint32)) mod 2 ^ 15"
    by (simp only: unat_take_bit_mod)
  also have "\<dots> = (4294967295 - unat h) mod 32768"
    by (simp add: unat_not h)
  also have "4294967295 - unat h = 131070 * 32768 + (65535 - unat h)"
    using H by simp
  also have "\<dots> mod 32768 = 65535 - unat h"
    using H by (simp only: mod_mult_self3) simp
  finally have "unat ?x = 65535 - unat h" .
  then have "2 ^ (15 - n) \<le> unat ?x" "unat ?x < 2 ^ (16 - n)"
    using assms(3,4) p by auto
  then have "2 ^ (15 - n) \<le> unat (?x OR 0x20)" "unat (?x OR 0x20) < 2 ^ (16 - n)"
    using p by (intro unat_or_range [where m = "16 - n"]; simp)+
  moreover have "Suc (15 - n) = 16 - n" using assms(2) by simp
  ultimately have "bit_length (unat (?x OR 0x20)) = 16 - n"
    using bit_length_eq [of "15 - n"] by metis
  then show ?thesis using assms(1,2) by (simp add: builtin_clz_def)
qed

lemma kVarIntMasks_nth:
  assumes "1 \<le> n" "n \<le> 10"
  shows "kVarIntMasks ! n = mask (min 64 (7 * n - 1))"
proof -
  have "n \<in> {1, 2, 3, 4, 5, 6, 7, 8, 9, 10}" using assms by (simp; presburger)
  then show ?thesis
    by (elim insertE emptyE) (simp_all add: kVarIntMasks_def mask_eq_exp_minus_1)
qed

text \<open>What the decoder computes once the header announces \<open>n\<close> bytes.\<close>

definition src_header :: "slice \<Rightarrow> uint16" where
  "src_header src =
     push_bit 8 (ucast (src ! 0)) OR (if length src > 1 then ucast (src ! 1) else 0)"

lemma unat_src_header:
  "unat (src_header src) = unat (src ! 0) * 256 + (if length src > 1 then unat (src ! 1) else 0)"
proof -
  let ?y = "if length src > 1 then ucast (src ! 1) else 0 :: uint16"
  have y: "unat ?y = (if length src > 1 then unat (src ! 1) else 0)"
    by (simp add: unat_ucast_up)
  have "unat ?y < 2 ^ 8" unfolding y using unat_byte_less [of "src ! 1"] by simp
  then have "src_header src = push_bit 8 (ucast (src ! 0)) + ?y"
    unfolding src_header_def by (rule push_or_add)
  also have "\<dots> = of_nat (unat (src ! 0) * 256 + unat ?y)"
    by (simp add: push_bit_eq_mult)
  finally show ?thesis
    using unat_byte_less [of "src ! 0"] \<open>unat ?y < 2 ^ 8\<close>
    unfolding y [symmetric] by (simp add: unat_of_nat del: of_nat_add of_nat_mult)
qed

lemma decode_signed_with_positive:
  assumes "src \<noteq> []" "1 \<le> n" "n \<le> 10" "n \<le> length src"
    and "2 ^ 16 - 2 ^ (16 - n) \<le> unat (src_header src)" "unat (src_header src) < 2 ^ 16 - 2 ^ (15 - n)"
  shows "decode_signed_with fetch src = Inr (fetch n AND mask (min 64 (7 * n - 1)), n)"
proof -
  have "(2 :: nat) ^ (16 - n) \<le> 2 ^ 15" using assms(2) by (intro power_increasing) simp_all
  then have "32768 \<le> unat (src_header src)" using assms(5) by simp
  then have "src_header src AND 0x8000 \<noteq> 0" by (simp add: and_sign16)
  then show ?thesis
    using assms header_size [OF assms(2,3,5,6)]
    unfolding decode_signed_with_def src_header_def [symmetric] Let_def
    by (simp add: kVarIntMasks_nth)
qed

lemma decode_signed_with_negative:
  assumes "src \<noteq> []" "1 \<le> n" "n \<le> 10" "n \<le> length src"
    and "2 ^ 16 - 2 ^ (16 - n) \<le> 65535 - unat (src_header src)"
    and "65535 - unat (src_header src) < 2 ^ 16 - 2 ^ (15 - n)"
  shows "decode_signed_with fetch src =
    Inr ((fetch n AND mask (min 64 (7 * n - 1)) OR NOT (mask (min 64 (7 * n - 1)))) + 1, n)"
proof -
  let ?h = "NOT (src_header src)"
  have h: "unat ?h = 65535 - unat (src_header src)" by (simp add: unat_not)
  have "(2 :: nat) ^ (16 - n) \<le> 2 ^ 15" using assms(2) by (intro power_increasing) simp_all
  then have "unat (src_header src) < 32768" using assms(5) by simp
  then have "src_header src AND 0x8000 = 0" by (simp add: and_sign16)
  moreover have "src_header src XOR ucast (- 1 :: uint64) = ?h"
  proof -
    have "(ucast (- 1 :: uint64) :: uint16) = - 1"
      by (rule bit_word_eqI) (simp add: bit_ucast_iff)
    then show ?thesis by simp
  qed
  ultimately show ?thesis
    using assms header_size [OF assms(2,3), of ?h] h
    unfolding decode_signed_with_def src_header_def [symmetric] Let_def
    by (simp add: kVarIntMasks_nth)
qed

definition header_announces :: "nat \<Rightarrow> nat \<Rightarrow> bool" where
  "header_announces n h \<longleftrightarrow> 2 ^ 16 - 2 ^ (16 - n) \<le> h \<and> h < 2 ^ 16 - 2 ^ (15 - n)"

lemma header_announces_top:
  assumes "2 \<le> n" "n \<le> 10"
    and "2 ^ (8 * n) - 2 ^ (7 * n) \<le> V" "V < 2 ^ (8 * n) - 2 ^ (7 * n - 1)"
  shows "header_announces n (V div 256 ^ (n - 2))"
proof -
  have s: "(2 ^ 16 - 2 ^ a) * 256 ^ (n - 2) = (2 :: nat) ^ (8 * n) - 2 ^ b"
    if "a + 8 * (n - 2) = b" for a b
  proof -
    have "(256 :: nat) ^ (n - 2) = 2 ^ (8 * (n - 2))" by (simp add: power_mult)
    moreover have "16 + 8 * (n - 2) = 8 * n" using assms(1) by simp
    ultimately show ?thesis using that
      by (simp only: diff_mult_distrib flip: power_add)
  qed
  have "(2 ^ 16 - 2 ^ (16 - n)) * 256 ^ (n - 2) \<le> V"
    using s [of "16 - n" "7 * n"] assms by simp
  moreover have "V < (2 ^ 16 - 2 ^ (15 - n)) * 256 ^ (n - 2)"
    using s [of "15 - n" "7 * n - 1"] assms by simp
  ultimately show ?thesis
    by (simp add: header_announces_def less_eq_div_iff_mult_less_eq div_less_iff_less_mult)
qed

lemma src_header_be_bytes:
  assumes "V < 256 ^ Suc (Suc j)"
  shows "unat (src_header (be_bytes (Suc (Suc j)) V @ rest)) = V div 256 ^ j"
    and "unat (src_header (map (\<lambda>b. NOT b) (be_bytes (Suc (Suc j)) V) @ rest)) = 65535 - V div 256 ^ j"
proof -
  let ?q = "V div 256 ^ j"
  have "?q < 65536" using assms by (simp add: div_less_iff_less_mult mult.commute)
  moreover have "V div (256 * 256 ^ j) = ?q div 256"
    by (simp add: div_mult2_eq [symmetric] mult.commute)
  ultimately have "V div (256 * 256 ^ j) mod 256 * 256 + ?q mod 256 = ?q"
    "V div (256 * 256 ^ j) mod 256 < 256" "?q mod 256 < 256"
    by (simp_all add: div_less_iff_less_mult)
  then show "unat (src_header (be_bytes (Suc (Suc j)) V @ rest)) = ?q"
    and "unat (src_header (map (\<lambda>b. NOT b) (be_bytes (Suc (Suc j)) V) @ rest)) = 65535 - ?q"
    by (simp_all add: unat_src_header unat_of_nat_byte unat_not_byte)
qed

lemma signed_header:
  assumes "1 \<le> n" "n \<le> 10" "u < 2 ^ (7 * n - 1)"
  defines "V \<equiv> varint_code (Suc 0) n u"
  shows "header_announces n (unat (src_header (be_bytes n V @ rest)))"
    and "header_announces n (65535 - unat (src_header (map (\<lambda>b. NOT b) (be_bytes n V) @ rest)))"
proof -
  note b = signed_code_bounds [OF assms(1,3), folded V_def]
  have less: "V < 256 ^ n" using slen.code_less_256 [of n u] assms by simp
  have "header_announces n (unat (src_header (be_bytes n V @ rest))) \<and>
    header_announces n (65535 - unat (src_header (map (\<lambda>b. NOT b) (be_bytes n V) @ rest)))"
  proof (cases "n = 1")
    case 1: True
    with b have V: "128 \<le> V" "V < 192" by simp_all
    define x :: nat where "x = (if rest = [] then 0 else unat (rest ! 0))"
    have x: "x < 256" by (simp add: x_def unat_byte_less)
    have "unat (src_header (be_bytes n V @ rest)) = V * 256 + x"
      "unat (src_header (map (\<lambda>b. NOT b) (be_bytes n V) @ rest)) = (255 - V) * 256 + x"
      using 1 V by (auto simp: unat_src_header unat_of_nat_byte unat_not_byte x_def)
    moreover have "65535 - ((255 - V) * 256 + x) = V * 256 + (255 - x)" using V x by arith
    ultimately show ?thesis using V x 1 by (simp add: header_announces_def) arith
  next
    case False
    define j where "j = n - 2"
    have 2: "n = Suc (Suc j)" using False assms(1) by (simp add: j_def)
    have "header_announces n (V div 256 ^ j)"
      using header_announces_top [OF _ assms(2) b] 2 by simp
    moreover have "V div 256 ^ j < 65536"
      using less 2 by (simp add: div_less_iff_less_mult mult.commute)
    ultimately show ?thesis
      using src_header_be_bytes [of V j rest] less 2 by simp
  qed
  then show "header_announces n (unat (src_header (be_bytes n V @ rest)))"
    and "header_announces n (65535 - unat (src_header (map (\<lambda>b. NOT b) (be_bytes n V) @ rest)))"
    by auto
qed

text \<open>The payload, once header and foreign bytes are masked off.\<close>

lemma code_mod_payload:
  assumes "1 \<le> n" "n \<le> 10" "u < 2 ^ (7 * n - 1)" "u < 2 ^ 64"
  defines "m \<equiv> min 64 (7 * n - 1)"
  shows "varint_code (Suc 0) n u mod 2 ^ m = u"
    and "(256 ^ n - 1 - varint_code (Suc 0) n u) mod 2 ^ m = 2 ^ m - 1 - u"
proof -
  let ?V = "varint_code (Suc 0) n u"
  have m: "m \<le> 7 * n" "m \<le> 8 * n" "u < 2 ^ m" using assms by (auto simp: m_def min_def)
  define a where "a = (2 ^ n - 1) * (2 :: nat) ^ (7 * n - m)"
  define b where "b = (2 :: nat) ^ (8 * n - m)"
  have V: "?V = a * 2 ^ m + u"
    using m(1) assms(1) by (simp add: varint_code_def a_def mult.assoc flip: power_add)
  have N: "(256 :: nat) ^ n = b * 2 ^ m"
    using m(2) by (simp add: b_def flip: power_add) (simp add: power_mult)
  have "?V < 256 ^ n" using slen.code_less_256 [of n u] assms by simp
  then have "a * 2 ^ m < b * 2 ^ m" unfolding V N by (rule le_less_trans [OF le_add1])
  then have ab: "a < b" by simp
  show "?V mod 2 ^ m = u" unfolding V using m(3) by simp
  have "256 ^ n - 1 - ?V = (b - 1 - a) * 2 ^ m + (2 ^ m - 1 - u)"
  proof -
    obtain d where d: "b = a + 1 + d" using ab less_iff_Suc_add [of a b] by auto
    show ?thesis unfolding V N d using m(3) by (simp add: algebra_simps)
  qed
  then show "(256 ^ n - 1 - ?V) mod 2 ^ m = 2 ^ m - 1 - u" by (simp only: mod_mult_self3) simp
qed

lemma and_mask_of_nat: "(of_nat N :: uint64) AND mask m = of_nat (N mod 2 ^ m)"
  by (simp add: of_nat_take_bit [symmetric] take_bit_eq_mod [symmetric] flip: take_bit_eq_mask)

lemma payload_negative:
  assumes "u < 2 ^ m" "m \<le> 64"
  shows "(of_nat (2 ^ m - 1 - u) OR NOT (mask m :: uint64)) + 1 = - of_nat u"
proof -
  let ?x = "of_nat (2 ^ m - 1 - u) :: uint64"
  have "2 ^ m - 1 - u < 2 ^ m" by (simp add: less_imp_diff_less)
  then have x: "?x = ?x AND mask m" by (simp only: and_mask_of_nat mod_less)
  have "?x AND NOT (mask m) = 0" by (subst x) (simp only: and.assoc word_and_not and_zero_eq)
  then have "?x OR NOT (mask m) = ?x + NOT (mask m)" by (simp add: disjunctive_add_eq_or)
  moreover have "?x = mask m - of_nat u"
    using assms by (simp add: of_nat_diff mask_eq_exp_minus_1)
  then have "?x + NOT (mask m) + 1 = - of_nat u"
    by (simp only:) (simp add: not_eq_complement)
  ultimately show ?thesis by (simp only:)
qed

text \<open>
  A fetch of the payload is right when its low bits are the low bits of the number that the
  \<open>n\<close> bytes spell; what lies above them is masked off. Both builds fetch in this sense.
\<close>

definition fetches :: "(nat \<Rightarrow> uint64) \<Rightarrow> slice \<Rightarrow> bool" where
  "fetches fetch src \<longleftrightarrow>
     (\<forall>n m. 1 \<le> n \<longrightarrow> n \<le> 10 \<longrightarrow> n \<le> length src \<longrightarrow> m \<le> min 64 (8 * n) \<longrightarrow>
        fetch n AND mask m = of_nat (be_val (take n src) mod 2 ^ m))"

lemma decode_encode_with:
  assumes "fetches fetch (FastEncodeSignedVarInt v @ rest)"
  shows "decode_signed_with fetch (FastEncodeSignedVarInt v @ rest) =
    Inr (v, length (FastEncodeSignedVarInt v))"
proof -
  let ?u = "magnitude v" let ?n = "SignedPositiveVarIntLength ?u" let ?src = "FastEncodeSignedVarInt v @ rest"
  let ?m = "min 64 (7 * ?n - 1)" let ?V = "varint_code (Suc 0) ?n (unat ?u)"
  note b = slen.length_bounds [of ?u, folded One_nat_def]
  have u64: "unat ?u < 2 ^ 64" using unsigned_less [of ?u] by simp
  have lenV: "?V < 256 ^ ?n" using slen.code_less_256 [of ?n "unat ?u"] b by simp
  have len: "length (FastEncodeSignedVarInt v) = ?n"
    by (simp add: FastEncodeSignedVarInt_layout)
  then have src: "?src \<noteq> []" "?n \<le> length ?src" using b(1) by auto
  have take: "take ?n ?src = FastEncodeSignedVarInt v" using len by simp
  note f = assms [unfolded fetches_def, rule_format, OF b(1,2) src(2), of ?m, unfolded take]
  have um: "unat ?u < 2 ^ ?m" using b(3) u64 by (simp add: min_def)
  show ?thesis
  proof (cases "sint v < 0")
    case True
    then have enc: "FastEncodeSignedVarInt v = map (\<lambda>b. NOT b) (be_bytes ?n ?V)"
      by (simp add: FastEncodeSignedVarInt_layout slen.layout_bytes_def)
    then have "be_val (FastEncodeSignedVarInt v) = 256 ^ ?n - 1 - ?V"
      using lenV by (simp add: map_not_be_bytes be_val_be_bytes)
    then have "fetch ?n AND mask ?m = of_nat (2 ^ ?m - 1 - unat ?u)"
      using f code_mod_payload(2) [OF b(1,2,3) u64] by simp
    moreover have "header_announces ?n (65535 - unat (src_header ?src))"
      unfolding enc by (rule signed_header(2) [OF b(1,2,3)])
    ultimately show ?thesis
      using decode_signed_with_negative [OF src(1) b(1,2) src(2)] payload_negative [OF um] True
      by (simp add: header_announces_def len magnitude_def)
  next
    case False
    then have enc: "FastEncodeSignedVarInt v = be_bytes ?n ?V"
      by (simp add: FastEncodeSignedVarInt_layout slen.layout_bytes_def)
    then have "fetch ?n AND mask ?m = of_nat (unat ?u)"
      using f code_mod_payload(1) [OF b(1,2,3) u64] lenV by (simp add: be_val_be_bytes)
    moreover have "header_announces ?n (unat (src_header ?src))"
      unfolding enc by (rule signed_header(1) [OF b(1,2,3)])
    ultimately show ?thesis
      using decode_signed_with_positive [OF src(1) b(1,2) src(2)] False
      by (simp add: header_announces_def len magnitude_def)
  qed
qed

lemma be_val_append_mod:
  assumes "m \<le> 8 * length b"
  shows "be_val (a @ b) mod 2 ^ m = be_val b mod 2 ^ m"
proof -
  have "(256 :: nat) ^ length b = 2 ^ m * 2 ^ (8 * length b - m)"
    using assms by (simp add: power_mult flip: power_add)
  then show ?thesis by (simp add: be_val_append mult.left_commute [of _ "2 ^ m"])
qed

lemma be_val_drop_mod:
  "m \<le> 8 * (length t - k) \<Longrightarrow> be_val (drop k t) mod 2 ^ m = be_val t mod 2 ^ m"
  using be_val_append_mod [of m "drop k t" "take k t"] by simp

lemma fetches_sanitizer: "fetches (\<lambda>n. load_be (drop (n - 8) (take n src))) src"
proof -
  have "load_be (drop (n - 8) (take n src)) AND mask m = of_nat (be_val (take n src) mod 2 ^ m)"
    if "n \<le> length src" "m \<le> min 64 (8 * n)" for n m
  proof -
    have "m \<le> 8 * (n - (n - 8))" using that by (cases "n \<le> 8") auto
    then show ?thesis
      using that be_val_drop_mod [of m "take n src" "n - 8"]
      by (simp add: load_be_val and_mask_of_nat)
  qed
  then show ?thesis by (simp add: fetches_def)
qed

lemma fetches_release:
  assumes "length before = 8"
  shows "fetches (\<lambda>n. load_be (take 8 (drop n (before @ src)))) src"
proof -
  have "load_be (take 8 (drop n (before @ src))) AND mask m = of_nat (be_val (take n src) mod 2 ^ m)"
    if n: "n \<le> length src" and m: "m \<le> min 64 (8 * n)" for n m
  proof (cases "n \<le> 8")
    case True
    with assms n have "take 8 (drop n (before @ src)) = drop n before @ take n src" by simp
    with n m be_val_append_mod [of m "take n src" "drop n before"] show ?thesis
      by (simp add: load_be_val and_mask_of_nat)
  next
    case False
    with assms n have "take 8 (drop n (before @ src)) = drop (n - 8) (take n src)"
      by (simp add: drop_take)
    with n m False show ?thesis
      using be_val_drop_mod [of m "take n src" "n - 8"]
      by (simp add: load_be_val and_mask_of_nat)
  qed
  then show ?thesis by (simp add: fetches_def)
qed

lemma header_size_range:
  fixes h :: uint16
  defines "n \<equiv> builtin_clz ((NOT (ucast h) AND 0x7fff) OR 0x20) - 16"
  shows "1 \<le> n" "n \<le> 10"
proof -
  let ?x = "NOT (ucast h) AND 0x7fff :: uint32" let ?y = "0x20 OR ?x"
  have "?x = take_bit 15 (NOT (ucast h))" by (simp add: take_bit_eq_mask mask_eq_exp_minus_1)
  then have "unat ?x < 2 ^ 15" by (simp only: unat_take_bit_mod) simp
  then have y: "2 ^ 5 \<le> unat ?y" "unat ?y < 2 ^ 15"
    by (intro unat_or_range [where m = 15 and k = 5]; simp)+
  have "6 \<le> bit_length (unat ?y)" "bit_length (unat ?y) \<le> 15"
    using bit_length_greater [OF y(1)] bit_length_le [OF y(2)] by simp_all
  then show "1 \<le> n" "n \<le> 10" by (simp_all add: n_def builtin_clz_def or.commute)
qed

lemma decode_signed_with_cong:
  assumes "fetches f src" "fetches g src"
  shows "decode_signed_with f src = decode_signed_with g src"
proof -
  have "f n AND kVarIntMasks ! n = g n AND kVarIntMasks ! n"
    if "1 \<le> n" "n \<le> 10" "n \<le> length src" for n
    using assms that by (simp add: fetches_def kVarIntMasks_nth)
  then show ?thesis
    using header_size_range
    unfolding decode_signed_with_def Let_def by (auto simp: not_less)
qed

section \<open>The unsigned encoding\<close>

lemma FastEncodeUnsignedVarInt_layout: "FastEncodeUnsignedVarInt u = ulen.layout_bytes u"
proof -
  let ?n = "UnsignedVarIntLength u"
  let ?start = "if ?n = 10 then [0xff, 0x80]
             else if ?n = 9 then [0xff, ucast (drop_bit 56 u)]
             else [ucast (NOT (push_bit (9 - ?n) 1 - 1) OR drop_bit (8 * (?n - 1)) u)] :: slice"
  note b = ulen.length_bounds [of u]
  have tail: "map (\<lambda>i. ucast (drop_bit (8 * (?n - 1 - i)) u)) [length ?start..<?n]
      = be_bytes (?n - length ?start) (unat u)"
    using b(1) by (intro tail_be_bytes) auto
  have "?start @ be_bytes (?n - length ?start) (unat u) = ulen.layout_bytes u"
  proof -
    consider "?n = 10" | "?n = 9" | "?n \<le> 8" using b(2) by linarith
    then show ?thesis
    proof cases
      case 1
      moreover have "unat u < 2 ^ 64" using unsigned_less [of u] by simp
      ultimately show ?thesis
        using layout_long_unsigned(2) [of "unat u"] by (simp add: ulen.layout_bytes_def)
    next
      case 2
      with b(3) have "unat u < 2 ^ 63" by simp
      with 2 show ?thesis
        using layout_long_unsigned(1) [of "unat u"] ucast_drop_bit_byte [of 7 u]
        by (simp add: ulen.layout_bytes_def)
    next
      case 3
      then show ?thesis
        using b(1) ulen.layout_short [OF b(1) 3 b(3)] header_byte [of "9 - ?n" u "?n - 1"]
        by (simp add: ulen.layout_bytes_def)
    qed
  qed
  then show ?thesis
    unfolding FastEncodeUnsignedVarInt_def Let_def tail by simp
qed

lemma xor_mask_unat:
  fixes y :: uint32
  assumes "unat y < 2 ^ k" "k \<le> 32"
  shows "unat (y XOR mask k) = 2 ^ k - 1 - unat y"
proof -
  have y: "take_bit k y = y"
    using assms(1) by (simp add: word_unat_eq_iff unat_take_bit_mod)
  have "y XOR mask k = take_bit k (NOT y)"
    by (subst y [symmetric], rule bit_word_eqI) (auto simp: bit_simps)
  then have "unat (y XOR mask k) = (2 ^ 32 - 1 - unat y) mod 2 ^ k"
    by (simp only: unat_take_bit_mod unat_not) simp
  also have "2 ^ 32 - 1 - unat y = (2 ^ (32 - k) - 1) * 2 ^ k + (2 ^ k - 1 - unat y)"
  proof -
    have "(2 :: nat) ^ 32 = 2 ^ (32 - k) * 2 ^ k" using assms(2) by (simp flip: power_add)
    moreover have "(2 :: nat) ^ k \<le> 2 ^ 32" using assms(2) by (intro power_increasing) simp_all
    ultimately show ?thesis using assms(1) by (simp add: diff_mult_distrib)
  qed
  also have "\<dots> mod 2 ^ k = 2 ^ k - 1 - unat y" by (simp only: mod_mult_self3) simp
  finally show ?thesis .
qed

lemma kUnsignedVarIntSize_clz:
  "kUnsignedVarIntSize b = 32 - bit_length (511 - 2 * unat b) - 23 + 1"
proof -
  let ?y = "push_bit 1 (ucast b) :: uint32"
  have "unat (ucast b :: uint32) = unat b" by (simp add: unat_ucast_up)
  then have y: "unat ?y = 2 * unat b"
    using unat_byte_less [of b] by (simp add: unat_word_ariths push_bit_eq_mult)
  moreover have "0x1ff = (mask 9 :: uint32)" by (simp add: mask_eq_exp_minus_1)
  ultimately have "unat (?y XOR 0x1ff) = 511 - 2 * unat b"
    using xor_mask_unat [of ?y 9] unat_byte_less [of b] by simp
  then show ?thesis by (simp only: kUnsignedVarIntSize_def builtin_clz_def)
qed

lemma first_byte_class:
  fixes x y u :: nat
  assumes "y = 2 * x" "y \<le> 256" "256 - y \<le> u" "u < 256 - x"
  shows "y \<le> 511 - 2 * u" "511 - 2 * u < 2 * y"
  using assms by linarith+

lemma first_byte_bounds:
  fixes x y q :: nat
  assumes "y = 2 * x" "y \<le> 256" "q < x"
  shows "256 - y \<le> 256 - y + q" "256 - y + q < 256 - x"
  using assms by linarith+

lemma kUnsignedVarIntSize_eq:
  assumes "1 \<le> n" "n \<le> 8" "2 ^ 8 - 2 ^ (9 - n) \<le> unat b" "unat b < 2 ^ 8 - 2 ^ (8 - n)"
  shows "kUnsignedVarIntSize b = n"
proof -
  have "Suc (8 - n) = 9 - n" "Suc (9 - n) = 10 - n" using assms(2) by simp_all
  then have p: "(2 :: nat) ^ (9 - n) = 2 * 2 ^ (8 - n)" "(2 :: nat) ^ (10 - n) = 2 * 2 ^ (9 - n)"
    by (metis power_Suc)+
  have "(2 :: nat) ^ (9 - n) \<le> 2 ^ 8" using assms(1) by (intro power_increasing) simp_all
  then have "2 ^ (9 - n) \<le> 511 - 2 * unat b" "511 - 2 * unat b < 2 ^ Suc (9 - n)"
    using first_byte_class [OF p(1), of "unat b"] assms(3,4) by simp_all
  then have "bit_length (511 - 2 * unat b) = Suc (9 - n)" by (rule bit_length_eq)
  then show ?thesis using assms(1,2) by (simp add: kUnsignedVarIntSize_clz)
qed

lemma kUnsignedVarIntSize_255: "kUnsignedVarIntSize 255 = 9"
  by (simp add: kUnsignedVarIntSize_clz bit_length.simps)

lemma unat_and_mask_byte: "unat (b AND (push_bit k 1 - 1)) = unat b mod 2 ^ k" for b :: byte
proof -
  have "push_bit k 1 - 1 = (mask k :: byte)" by (simp add: mask_eq_exp_minus_1 push_bit_eq_mult)
  then show ?thesis by (simp only: take_bit_eq_mask [symmetric] unat_take_bit_mod)
qed

lemma unsigned_short_first:
  assumes "1 \<le> n" "n \<le> 8" "u < 2 ^ (7 * n)"
  defines "b \<equiv> of_nat (2 ^ 8 - 2 ^ (9 - n) + u div 256 ^ (n - 1)) :: byte"
  shows "kUnsignedVarIntSize b = n" "unat b mod 2 ^ (8 - n) = u div 256 ^ (n - 1)"
proof -
  let ?q = "u div 256 ^ (n - 1)"
  have "7 * n = (8 - n) + 8 * (n - 1)" using assms(1,2) by simp
  then have "(2 :: nat) ^ (7 * n) = 2 ^ (8 - n) * 256 ^ (n - 1)"
    by (simp only: power_add power_mult) simp
  then have "u < 2 ^ (8 - n) * 256 ^ (n - 1)" using assms(3) by (simp only:)
  then have q: "?q < 2 ^ (8 - n)" by (simp add: div_less_iff_less_mult)
  have "Suc (8 - n) = 9 - n" using assms(2) by simp
  then have p: "(2 :: nat) ^ (9 - n) = 2 * 2 ^ (8 - n)" by (metis power_Suc)
  have le: "(2 :: nat) ^ (9 - n) \<le> 2 ^ 8" using assms(1) by (intro power_increasing) simp_all
  have "2 ^ 8 - 2 ^ (9 - n) + ?q < 256" using le p q by simp
  then have b: "unat b = 2 ^ 8 - 2 ^ (9 - n) + ?q"
    by (simp only: b_def unat_of_nat_byte mod_less)
  with p q le show "kUnsignedVarIntSize b = n"
    using first_byte_bounds [OF p _ q] by (intro kUnsignedVarIntSize_eq [OF assms(1,2)]) simp_all
  have "2 ^ 8 - 2 ^ (9 - n) = (2 ^ n - 2) * (2 :: nat) ^ (8 - n)"
    using assms(2) p by (simp add: diff_mult_distrib flip: power_add)
  then have "unat b = (2 ^ n - 2) * 2 ^ (8 - n) + ?q" using b by (simp only:)
  then show "unat b mod 2 ^ (8 - n) = ?q" using q by (simp only: mod_mult_self3 mod_less)
qed

lemma FastDecodeUnsignedVarInt_encode:
  "FastDecodeUnsignedVarInt (FastEncodeUnsignedVarInt v @ rest) =
     Inr (v, length (FastEncodeUnsignedVarInt v))"
proof -
  let ?n = "UnsignedVarIntLength v" let ?u = "unat v"
  note b = ulen.length_bounds [of v]
  have u64: "?u < 2 ^ 64" using unsigned_less [of v] by simp
  have enc: "FastEncodeUnsignedVarInt v = be_bytes ?n (varint_code 0 ?n ?u)"
    by (simp add: FastEncodeUnsignedVarInt_layout ulen.layout_bytes_def)
  have len: "length (FastEncodeUnsignedVarInt v) = ?n" by (simp add: enc)
  consider "?n = 10" | "?n = 9" | "?n = 1" | "2 \<le> ?n" "?n \<le> 8" using b(1,2) by linarith
  then show ?thesis
  proof cases
    case 1
    then have e: "FastEncodeUnsignedVarInt v = 0xff # 0x80 # be_bytes 8 ?u"
      using enc layout_long_unsigned(2) [OF u64] by simp
    show ?thesis
      unfolding e using u64
      by (simp add: FastDecodeUnsignedVarInt_def kUnsignedVarIntSize_255 foldl_load_be be_val_be_bytes)
  next
    case 2
    with b(3) have "?u < 2 ^ 63" by simp
    then have e: "FastEncodeUnsignedVarInt v = 0xff # of_nat (?u div 256 ^ 7) # be_bytes 7 ?u"
      using 2 enc layout_long_unsigned(1) by simp
    have q: "?u div 256 ^ 7 < 128" using \<open>?u < 2 ^ 63\<close> by (simp add: div_less_iff_less_mult)
    have "(of_nat (?u div 256 ^ 7) :: byte) AND 0x80 = 0"
      using and_exp_zero [of "of_nat (?u div 256 ^ 7) :: byte" 7] q by (simp add: unat_of_nat_byte)
    moreover have "be_val (FastEncodeUnsignedVarInt v) = 255 * 2 ^ 64 + ?u"
      using 2 \<open>?u < 2 ^ 63\<close> by (simp add: enc be_val_be_bytes varint_code_def)
    ultimately show ?thesis
      using e len 2
      by (simp add: FastDecodeUnsignedVarInt_def kUnsignedVarIntSize_255 foldl_load_be del: be_val_Cons)
  next
    case 3
    then have "?u < 2 ^ (7 * 1)" using b(3) by simp
    from unsigned_short_first [OF _ _ this] have k: "kUnsignedVarIntSize (of_nat ?u) = 1" by simp
    have "unat ((of_nat ?u :: byte) AND (push_bit 7 1 - 1)) = ?u mod 2 ^ 7"
      using \<open>?u < 2 ^ (7 * 1)\<close> by (simp only: unat_and_mask_byte unat_of_nat_byte) simp
    then have "ucast ((of_nat ?u :: byte) AND 0x7f) = v"
      using \<open>?u < 2 ^ (7 * 1)\<close> by (simp add: word_unat_eq_iff unat_ucast_up)
    with k 3 show ?thesis
      by (simp add: enc varint_code_def FastDecodeUnsignedVarInt_def)
  next
    case 4
    note short = ulen.layout_short(1) [OF b(1) 4(2) b(3)]
    define f :: byte where "f = of_nat (2 ^ 8 - 2 ^ (9 - ?n) + ?u div 256 ^ (?n - 1))"
    have e: "FastEncodeUnsignedVarInt v = f # be_bytes (?n - 1) ?u"
      using enc short by (simp only: f_def diff_zero)
    note first = unsigned_short_first [OF b(1) 4(2), of ?u, folded f_def]
    have f: "kUnsignedVarIntSize f = ?n" "unat f mod 2 ^ (8 - ?n) = ?u div 256 ^ (?n - 1)"
      using first b(3) by simp_all
    have "(ucast (f AND (push_bit (8 - ?n) 1 - 1)) :: uint64) = of_nat (?u div 256 ^ (?n - 1))"
      using f(2) unat_and_mask_byte [of f "8 - ?n"] by (metis of_nat_unat)
    moreover have "of_nat (?u div 256 ^ (?n - 1)) * 256 ^ (?n - 1) + of_nat (?u mod 256 ^ (?n - 1)) = v"
    proof -
      have "(of_nat (?u div 256 ^ (?n - 1) * 256 ^ (?n - 1) + ?u mod 256 ^ (?n - 1)) :: uint64) = of_nat ?u"
        by (simp only: div_mult_mod_eq)
      then show ?thesis by simp
    qed
    ultimately show ?thesis
      unfolding e using 4 f(1)
      by (cases ?n) (simp_all add: FastDecodeUnsignedVarInt_def foldl_load_be be_val_be_bytes Let_def)
  qed
qed

section \<open>The encodings as parts of keys\<close>

text \<open>
  The descending form negates the value first. \<open>INT64_MIN\<close> has no negation in 64 bits, so it is
  outside the contract of the descending encoding.
\<close>

definition negatable :: "uint64 \<Rightarrow> bool" where
  "negatable v \<longleftrightarrow> sint v \<noteq> - (2 ^ 63)"

lemma sint_range: "- (2 ^ 63) \<le> sint (v :: uint64)" "sint (v :: uint64) < 2 ^ 63"
  using sint_greater_eq [of v] sint_less [of v] by simp_all

lemma sint_uminus: "negatable v \<Longrightarrow> sint (- v) = - sint v"
  using sint_range [of v] sint_range [of "- v"]
  by (simp add: negatable_def sint_word_ariths signed_take_bit_int_eq_self)

lemma sint_inj: "sint v = sint w \<Longrightarrow> v = w" for v w :: uint64
  by (simp add: signed_word_eqI)

lemma FastDecodeSignedVarInt_encode:
  "FastDecodeSignedVarInt (FastEncodeSignedVarInt v @ rest) =
     Inr (v, length (FastEncodeSignedVarInt v))"
  unfolding FastDecodeSignedVarInt_def by (rule decode_encode_with) (rule fetches_sanitizer)

interpretation signed_key: key_encoding
  FastEncodeSignedVarInt FastDecodeSignedVarInt_slice "\<lambda>_. True" "\<lambda>v w. sint v < sint w"
proof
  fix x rest
  show "FastDecodeSignedVarInt_slice (FastEncodeSignedVarInt x @ rest) = Inr (x, rest)"
    by (simp add: FastDecodeSignedVarInt_slice_def FastDecodeSignedVarInt_encode)
next
  fix x y :: uint64
  show "sint x < sint y \<or> sint y < sint x" if "x \<noteq> y"
    using that sint_inj [of x y] by linarith
qed (rule FastEncodeSignedVarInt_less)

interpretation descending_key: key_encoding
  FastEncodeDescendingSignedVarInt FastDecodeDescendingSignedVarInt negatable "\<lambda>v w. sint w < sint v"
proof
  fix x rest
  show "FastDecodeDescendingSignedVarInt (FastEncodeDescendingSignedVarInt x @ rest) = Inr (x, rest)"
    by (simp add: FastDecodeDescendingSignedVarInt_def FastEncodeDescendingSignedVarInt_def
        FastDecodeSignedVarInt_encode)
next
  fix x y :: uint64 assume "negatable x" "negatable y"
  then show "bytes_less (FastEncodeDescendingSignedVarInt x) (FastEncodeDescendingSignedVarInt y)"
    if "sint y < sint x"
    using that by (simp add: FastEncodeDescendingSignedVarInt_def sint_uminus FastEncodeSignedVarInt_less)
  show "sint y < sint x \<or> sint x < sint y" if "x \<noteq> y"
    using that sint_inj [of x y] by linarith
qed

interpretation unsigned_key: key_encoding
  FastEncodeUnsignedVarInt FastDecodeUnsignedVarInt_slice "\<lambda>_. True" "(<)"
proof
  fix x rest
  show "FastDecodeUnsignedVarInt_slice (FastEncodeUnsignedVarInt x @ rest) = Inr (x, rest)"
    by (simp add: FastDecodeUnsignedVarInt_slice_def FastDecodeUnsignedVarInt_encode)
next
  fix x y :: uint64
  show "bytes_less (FastEncodeUnsignedVarInt x) (FastEncodeUnsignedVarInt y)" if "x < y"
    using that by (simp add: FastEncodeUnsignedVarInt_layout ulen.layout_bytes_less word_less_nat_alt)
qed auto

section \<open>Bounds\<close>

definition decodes_within :: "slice \<Rightarrow> ('a \<times> nat) result \<Rightarrow> bool" where
  "decodes_within src r \<longleftrightarrow>
     (case r of Inl e \<Rightarrow> e = Corruption | Inr (_, n) \<Rightarrow> 1 \<le> n \<and> n \<le> 10 \<and> n \<le> length src)"

lemma decode_signed_with_within: "decodes_within src (decode_signed_with fetch src)"
  using header_size_range
  by (simp add: decodes_within_def decode_signed_with_def Let_def not_less)

lemma kUnsignedVarIntSize_range: "1 \<le> kUnsignedVarIntSize b" "kUnsignedVarIntSize b \<le> 9"
proof -
  have "1 < bit_length (511 - 2 * unat b) + 1"
    using bit_length_greater [of 0 "511 - 2 * unat b"] unat_byte_less [of b] by simp
  then show "1 \<le> kUnsignedVarIntSize b" "kUnsignedVarIntSize b \<le> 9"
    by (simp_all add: kUnsignedVarIntSize_clz)
qed

lemma FastDecodeUnsignedVarInt_within: "decodes_within src (FastDecodeUnsignedVarInt src)"
  using kUnsignedVarIntSize_range [of "src ! 0"]
  by (auto simp: decodes_within_def FastDecodeUnsignedVarInt_def Let_def Suc_le_eq)

lemma length_encodings: "length (FastEncodeSignedVarInt v) \<le> 10" "length (FastEncodeUnsignedVarInt v) \<le> 10"
  using slen.length_bounds(2) [of "magnitude v"] ulen.length_bounds(2) [of v]
  by (simp_all add: FastEncodeSignedVarInt_layout FastEncodeUnsignedVarInt_layout ulen.layout_bytes_def)

section \<open>Properties\<close>

text \<open>
  C13. The signed encoding is a key part: decoding after encoding gives the value and leaves exactly
  the rest of the slice, and two keys that start with encoded integers compare with
  \<^verbatim>\<open>memcmp\<close> as the integers do, by what follows them when the integers are equal.
\<close>

theorem signed_varint_is_key_part:
  "FastDecodeSignedVarInt_slice (FastEncodeSignedVarInt v @ rest) = Inr (v, rest) \<and>
   (bytes_less (FastEncodeSignedVarInt v @ r) (FastEncodeSignedVarInt w @ s) \<longleftrightarrow>
      sint v < sint w \<or> (v = w \<and> bytes_less r s))"
  by (simp add: signed_key.round_trip signed_key.append_less_iff)

text \<open>
  C17. The release build of the signed decoder, which loads eight bytes ending at the last byte of
  the encoding and so reads memory in front of the slice, returns on every input what the
  byte-by-byte loop of the sanitizer build returns, whatever that memory holds.
\<close>

theorem signed_decoder_builds_agree:
  assumes "length before = 8"
  shows "FastDecodeSignedVarInt_release before src = FastDecodeSignedVarInt src"
  unfolding FastDecodeSignedVarInt_release_def FastDecodeSignedVarInt_def
  by (rule decode_signed_with_cong [OF fetches_release [OF assms] fetches_sanitizer])

theorem signed_decoder_builds_agree_witness:
  "length [1, 2, 3, 4, 5, 6, 7, 8 :: byte] = 8 \<and>
   FastDecodeSignedVarInt_release [1, 2, 3, 4, 5, 6, 7, 8] [0xc1, 0x00] = FastDecodeSignedVarInt [0xc1, 0x00]"
  using signed_decoder_builds_agree [of "[1, 2, 3, 4, 5, 6, 7, 8]" "[0xc1, 0x00]"] by simp

text \<open>
  C18. The descending form, used for times and write ids, reverses the order and still decodes to
  the same value, for every value but \<open>INT64_MIN\<close>.
\<close>

theorem descending_varint_is_key_part:
  assumes "negatable v" "negatable w"
  shows "FastDecodeDescendingSignedVarInt (FastEncodeDescendingSignedVarInt v @ rest) = Inr (v, rest) \<and>
    (bytes_less (FastEncodeDescendingSignedVarInt v @ r) (FastEncodeDescendingSignedVarInt w @ s) \<longleftrightarrow>
       sint w < sint v \<or> (v = w \<and> bytes_less r s))"
  using assms by (simp add: descending_key.round_trip descending_key.append_less_iff)

theorem descending_varint_is_key_part_witness:
  "negatable 5 \<and> negatable 3 \<and>
   bytes_less (FastEncodeDescendingSignedVarInt 5 @ []) (FastEncodeDescendingSignedVarInt 3 @ [])"
  using descending_varint_is_key_part [of 5 3 "[]" "[]" "[]"] by (simp add: negatable_def)

text \<open>
  C19. The unsigned encoding is a key part as well, and decoding a slice as exactly one integer fails
  if and only if bytes are left over.
\<close>

theorem unsigned_varint_is_key_part:
  "FastDecodeUnsignedVarInt_slice (FastEncodeUnsignedVarInt v @ rest) = Inr (v, rest) \<and>
   FastDecodeUnsignedVarInt_full (FastEncodeUnsignedVarInt v @ rest) =
     (if rest = [] then Inr v else Inl Corruption) \<and>
   (bytes_less (FastEncodeUnsignedVarInt v @ r) (FastEncodeUnsignedVarInt w @ s) \<longleftrightarrow>
      v < w \<or> (v = w \<and> bytes_less r s))"
  by (simp add: unsigned_key.round_trip unsigned_key.append_less_iff FastDecodeUnsignedVarInt_full_def)

text \<open>
  C20. On arbitrary bytes the decoders either fail with \<^verbatim>\<open>Corruption\<close> or consume between one and ten
  bytes, never more than the slice has; the encoders fit the ten bytes of a varint buffer.
\<close>

theorem varint_bounds:
  "decodes_within src (FastDecodeSignedVarInt src) \<and>
   decodes_within src (FastDecodeUnsignedVarInt src) \<and>
   length (FastEncodeSignedVarInt v) \<le> 10 \<and> length (FastEncodeUnsignedVarInt v) \<le> 10"
  by (simp add: FastDecodeSignedVarInt_def decode_signed_with_within FastDecodeUnsignedVarInt_within
      length_encodings)

end
