(* ===== verification/MemcmpableVarint.thy ===== *)
theory MemcmpableVarint
  imports KeyEncoding
begin

text \<open>
  The memcmp-comparable unsigned integers of \<^verbatim>\<open>src/yb/util/memcmpable_varint.cc\<close>, whose first
  byte tells the length. A buffer that is written becomes the list of the bytes written; the
  reader returns \<^const>\<open>None\<close> where the code returns length 0.
\<close>

section \<open>Operations\<close>

definition varintWrite32 :: "uint32 \<Rightarrow> slice" where
  "varintWrite32 y = [ucast (drop_bit 24 y), ucast (drop_bit 16 y), ucast (drop_bit 8 y), ucast y]"

definition sqlite4PutVarint64 :: "uint64 \<Rightarrow> slice" where
  "sqlite4PutVarint64 x =
     (if x \<le> 240 then [ucast x]
      else if x \<le> 2287 then
        let y = x - 240 in [ucast (y div 256 + 241), ucast (y mod 256)]
      else if x \<le> 67823 then
        let y = x - 2288 in [249, ucast (y div 256), ucast (y mod 256)]
      else
        let y = x; w = drop_bit 32 x
        in if w = 0 then
             if y \<le> 16777215 then [250, ucast (drop_bit 16 y), ucast (drop_bit 8 y), ucast y]
             else 251 # varintWrite32 (ucast y)
           else if w \<le> 255 then 252 # ucast w # varintWrite32 (ucast y)
           else if w \<le> 65535 then 253 # ucast (drop_bit 8 w) # ucast w # varintWrite32 (ucast y)
           else if w \<le> 16777215 then
             254 # ucast (drop_bit 16 w) # ucast (drop_bit 8 w) # ucast w # varintWrite32 (ucast y)
           else 255 # varintWrite32 (ucast w) @ varintWrite32 (ucast y))"

definition sqlite4GetVarint64 :: "slice \<Rightarrow> (uint64 \<times> nat) option" where
  "sqlite4GetVarint64 z =
     (if length z < 1 then None
      else if z ! 0 \<le> 240 then Some (ucast (z ! 0), 1)
      else if z ! 0 \<le> 248 then
        if length z < 2 then None
        else Some ((ucast (z ! 0) - 241) * 256 + ucast (z ! 1) + 240, 2)
      else if length z < unat (z ! 0) - 246 then None
      else if z ! 0 = 249 then Some (2288 + 256 * ucast (z ! 1) + ucast (z ! 2), 3)
      else if z ! 0 = 250 then
        Some (push_bit 16 (ucast (z ! 1)) + push_bit 8 (ucast (z ! 2)) + ucast (z ! 3), 4)
      else
        let x = push_bit 24 (ucast (z ! 1)) + push_bit 16 (ucast (z ! 2)) + push_bit 8 (ucast (z ! 3)) +
                ucast (z ! 4) :: uint32
        in if z ! 0 = 251 then Some (ucast x, 5)
           else if z ! 0 = 252 then Some (push_bit 8 (ucast x) + ucast (z ! 5), 6)
           else if z ! 0 = 253 then
             Some (push_bit 16 (ucast x) + push_bit 8 (ucast (z ! 5)) + ucast (z ! 6), 7)
           else if z ! 0 = 254 then
             Some (push_bit 24 (ucast x) + push_bit 16 (ucast (z ! 5)) + push_bit 8 (ucast (z ! 6)) +
                   ucast (z ! 7), 8)
           else
             Some (push_bit 32 (ucast x) +
                   ucast (0xffffffff AND
                     (push_bit 24 (ucast (z ! 5)) + push_bit 16 (ucast (z ! 6)) +
                      push_bit 8 (ucast (z ! 7)) + ucast (z ! 8)) :: uint32), 9))"

definition PutMemcmpableVarint64 :: "slice \<Rightarrow> uint64 \<Rightarrow> slice" where
  "PutMemcmpableVarint64 dst v = dst @ sqlite4PutVarint64 v"

definition GetMemcmpableVarint64 :: "slice \<Rightarrow> (uint64 \<times> slice) result" where
  "GetMemcmpableVarint64 input =
     (case sqlite4GetVarint64 input of
        None \<Rightarrow> Inl InvalidArgument
      | Some (v, used) \<Rightarrow> Inr (v, drop used input))"

section \<open>What is written\<close>

text \<open>The number of bytes after the first one.\<close>

definition payload_size :: "nat \<Rightarrow> nat" where
  "payload_size N =
     (if N \<le> 240 then 0 else if N \<le> 2287 then 1 else if N \<le> 67823 then 2
      else if N < 256 ^ 3 then 3 else if N < 256 ^ 4 then 4 else if N < 256 ^ 5 then 5
      else if N < 256 ^ 6 then 6 else if N < 256 ^ 7 then 7 else 8)"

lemma be_bytes_numeral:
  "be_bytes (numeral v) N = of_nat (N div 256 ^ pred_numeral v) # be_bytes (pred_numeral v) N"
  by (subst numeral_eq_Suc) (rule be_bytes.simps)

lemma be_bytes_upto:
  "be_bytes (Suc 0) N = [of_nat N]"
  "be_bytes 2 N = [of_nat (N div 256), of_nat N]"
  "be_bytes 3 N = [of_nat (N div 256 ^ 2), of_nat (N div 256), of_nat N]"
  "be_bytes 4 N = [of_nat (N div 256 ^ 3), of_nat (N div 256 ^ 2), of_nat (N div 256), of_nat N]"
  by (simp_all add: be_bytes_numeral)

lemma varintWrite32_be_bytes: "varintWrite32 y = be_bytes 4 (unat y)"
  using ucast_drop_bit_byte [of 3 y] ucast_drop_bit_byte [of 2 y] ucast_drop_bit_byte [of 1 y]
    ucast_drop_bit_byte [of 0 y]
  by (simp add: varintWrite32_def be_bytes_upto)

lemma be_bytes_append: "be_bytes (j + k) N = be_bytes j (N div 256 ^ k) @ be_bytes k N"
  using be_bytes_take [of j "j + k" N] be_bytes_drop [of j "j + k" N]
  by (metis add_diff_cancel_left' append_take_drop_id le_add1)

lemma be_bytes_headed: "N < 256 ^ k \<Longrightarrow> be_bytes (Suc k) (c * 256 ^ k + N) = of_nat c # be_bytes k N"
  using be_bytes_mod [of k k "c * 256 ^ k + N"] by simp

lemma unat_shift32: "unat (drop_bit 32 (x :: uint64)) = unat x div 256 ^ 4"
  by (simp add: unat_drop_bit_div)

lemma be_bytes_ucast32: "be_bytes 4 (unat (ucast (w :: uint64) :: uint32)) = be_bytes 4 (unat w)"
  using be_bytes_mod [of 4 4 "unat w"] by (simp add: unsigned_ucast_eq take_bit_eq_mod)

lemma ucast_bytes64:
  fixes w :: uint64
  shows "(ucast w :: byte) = of_nat (unat w)"
    "(ucast (drop_bit 8 w) :: byte) = of_nat (unat w div 256)"
    "(ucast (drop_bit 16 w) :: byte) = of_nat (unat w div 256 ^ 2)"
  using ucast_drop_bit_byte [of 0 w] ucast_drop_bit_byte [of 1 w] ucast_drop_bit_byte [of 2 w]
  by simp_all

lemma div_le_iff_less_Suc_mult: "0 < m \<Longrightarrow> N div m \<le> k \<longleftrightarrow> N < Suc k * m" for N m k :: nat
  by (simp only: less_Suc_eq_le [symmetric] div_less_iff_less_mult)

lemma nat_less_le_pred: "N < 16777216 \<longleftrightarrow> N \<le> 16777215" for N :: nat
  by arith

lemma written_heads:
  fixes w :: uint64
  shows "[ucast w] = be_bytes 1 (unat w)"
    "[ucast (drop_bit 8 w), ucast w] = be_bytes 2 (unat w)"
    "[ucast (drop_bit 16 w), ucast (drop_bit 8 w), ucast w] = be_bytes 3 (unat w)"
    "varintWrite32 (ucast w) = be_bytes 4 (unat w)"
  unfolding varintWrite32_be_bytes be_bytes_ucast32 ucast_bytes64(2,3) by (simp_all add: be_bytes_upto)

lemma written_tails:
  fixes x :: uint64
  shows "ucast (drop_bit 32 x) # varintWrite32 (ucast x) = be_bytes 5 (unat x)"
    "ucast (drop_bit 8 (drop_bit 32 x)) # ucast (drop_bit 32 x) # varintWrite32 (ucast x) =
       be_bytes 6 (unat x)"
    "ucast (drop_bit 16 (drop_bit 32 x)) # ucast (drop_bit 8 (drop_bit 32 x)) # ucast (drop_bit 32 x) #
       varintWrite32 (ucast x) = be_bytes 7 (unat x)"
    "varintWrite32 (ucast (drop_bit 32 x)) @ varintWrite32 (ucast x) = be_bytes 8 (unat x)"
  using written_heads [of "drop_bit 32 x"] be_bytes_append [of 1 4 "unat x"]
    be_bytes_append [of 2 4 "unat x"] be_bytes_append [of 3 4 "unat x"] be_bytes_append [of 4 4 "unat x"]
  unfolding unat_shift32 written_heads(4) [of x]
  by (simp_all flip: append_Cons)

lemma put_classes:
  "sqlite4PutVarint64 x =
     (if unat x \<le> 240 then [of_nat (unat x)]
      else if unat x \<le> 2287 then [of_nat ((unat x - 240) div 256 + 241), of_nat (unat x - 240)]
      else if unat x \<le> 67823 then 249 # be_bytes 2 (unat x - 2288)
      else if unat x < 256 ^ 3 then 250 # be_bytes 3 (unat x)
      else if unat x < 256 ^ 4 then 251 # be_bytes 4 (unat x)
      else if unat x < 256 ^ 5 then 252 # be_bytes 5 (unat x)
      else if unat x < 256 ^ 6 then 253 # be_bytes 6 (unat x)
      else if unat x < 256 ^ 7 then 254 # be_bytes 7 (unat x)
      else 255 # be_bytes 8 (unat x))"
proof -
  define N where "N = unat x"
  have shift: "N div 256 ^ 4 \<le> k \<longleftrightarrow> N < Suc k * 256 ^ 4" for k
    by (rule div_le_iff_less_Suc_mult) simp
  have w: "drop_bit 32 x = 0 \<longleftrightarrow> N < 256 ^ 4" "drop_bit 32 x \<le> 255 \<longleftrightarrow> N < 256 ^ 5"
    "drop_bit 32 x \<le> 65535 \<longleftrightarrow> N < 256 ^ 6" "drop_bit 32 x \<le> 16777215 \<longleftrightarrow> N < 256 ^ 7"
    "x \<le> 16777215 \<longleftrightarrow> N < 256 ^ 3"
    unfolding word_le_nat_alt unat_shift32 unat_eq_0 [symmetric] N_def [symmetric]
    using shift [of 0] shift [of 255] shift [of 65535] shift [of 16777215]
    by (simp, simp, simp, simp, simp add: nat_less_le_pred)
  have small: "x \<le> 240 \<longleftrightarrow> N \<le> 240" "x \<le> 2287 \<longleftrightarrow> N \<le> 2287" "x \<le> 67823 \<longleftrightarrow> N \<le> 67823"
    by (simp_all add: word_le_nat_alt N_def)
  have one: "[ucast x] = [of_nat N :: byte]" by (simp only: N_def ucast_byte_of_nat)
  have two: "[ucast ((x - 240) div 256 + 241), ucast ((x - 240) mod 256)] =
      [of_nat ((N - 240) div 256 + 241), of_nat (N - 240) :: byte]" if "\<not> N \<le> 240" "N \<le> 2287"
  proof -
    have y: "unat (x - 240) = N - 240" using that by (simp add: unat_sub word_le_nat_alt N_def)
    then have "unat ((x - 240) div 256 + 241) = (N - 240) div 256 + 241" "unat ((x - 240) mod 256) = (N - 240) mod 256"
      using that by (simp_all add: unat_word_ariths unat_div unat_mod)
    then show ?thesis by (simp only: ucast_byte_of_nat of_nat_byte_eq list.inject) simp
  qed
  have three: "[249, ucast ((x - 2288) div 256), ucast ((x - 2288) mod 256)] = 249 # be_bytes 2 (N - 2288)"
    if "\<not> N \<le> 2287" "N \<le> 67823"
  proof -
    have y: "unat (x - 2288) = N - 2288" using that by (simp add: unat_sub word_le_nat_alt N_def)
    then have "unat ((x - 2288) div 256) = (N - 2288) div 256" "unat ((x - 2288) mod 256) = (N - 2288) mod 256"
      by (simp_all add: unat_div unat_mod)
    then show ?thesis by (simp only: ucast_byte_of_nat of_nat_byte_eq be_bytes_upto list.inject) simp
  qed
  show ?thesis
    unfolding sqlite4PutVarint64_def Let_def
    unfolding written_tails(3) unfolding written_tails(2) unfolding written_tails small w N_def [symmetric]
    using one two three written_heads(3,4) [of x] unfolding N_def [symmetric] by auto
qed

lemma payload_size_long: "67823 < N \<Longrightarrow> 3 \<le> payload_size N" "payload_size N \<le> 8"
  by (simp_all add: payload_size_def)

lemma payload_size_mono: "M \<le> N \<Longrightarrow> payload_size M \<le> payload_size N"
  by (simp add: payload_size_def)

lemma payload_fits: "67823 < N \<Longrightarrow> N < 256 ^ 8 \<Longrightarrow> N < 256 ^ payload_size N"
  by (simp add: payload_size_def)

lemma put_long:
  "67823 < unat x \<Longrightarrow>
   sqlite4PutVarint64 x = of_nat (247 + payload_size (unat x)) # be_bytes (payload_size (unat x)) (unat x)"
  unfolding put_classes by (simp add: payload_size_def)

lemma put_short:
  "unat x \<le> 240 \<Longrightarrow> sqlite4PutVarint64 x = [of_nat (unat x)]"
  "240 < unat x \<Longrightarrow> unat x \<le> 2287 \<Longrightarrow>
     sqlite4PutVarint64 x = [of_nat ((unat x - 240) div 256 + 241), of_nat (unat x - 240)]"
  "2287 < unat x \<Longrightarrow> unat x \<le> 67823 \<Longrightarrow> sqlite4PutVarint64 x = 249 # be_bytes 2 (unat x - 2288)"
  unfolding put_classes by simp_all

lemma mod_less_same_div:
  fixes a b k :: nat
  assumes "a < b" "a div k = b div k"
  shows "a mod k < b mod k"
  using assms div_mult_mod_eq [of a k] div_mult_mod_eq [of b k]
  by (metis nat_add_left_cancel_less)

lemma put_less_short:
  assumes "unat x < unat y" "unat y \<le> 67823"
  shows "bytes_less (sqlite4PutVarint64 x) (sqlite4PutVarint64 y)"
proof -
  define M N where "M = unat x" and "N = unat y"
  have d: "(M - 240) div 256 \<le> (N - 240) div 256" using assms by (intro div_le_mono) (simp add: M_def N_def)
  have b: "(m - 240) div 256 < 8" if "m \<le> 2287" for m :: nat
    using that by (simp add: div_less_iff_less_mult)
  have e: "(M - 240) mod 256 < (N - 240) mod 256"
    if "240 < M" "\<not> (M - 240) div 256 < (N - 240) div 256"
    using that d assms by (intro mod_less_same_div) (simp_all add: M_def N_def)
  have c: "bytes_less (be_bytes 2 (M - 2288)) (be_bytes 2 (N - 2288))" if "2287 < M"
    by (rule be_bytes_less) (use that assms in \<open>simp_all add: M_def N_def\<close>)
  consider "N \<le> 240" | "240 < N" "N \<le> 2287" "M \<le> 240" | "N \<le> 2287" "240 < M"
    | "2287 < N" "M \<le> 240" | "2287 < N" "240 < M" "M \<le> 2287" | "2287 < M"
    by linarith
  then show ?thesis
  proof cases
    case 1
    then show ?thesis using assms(1) by (simp add: put_short of_nat_byte_less flip: M_def N_def del: of_nat_add of_nat_diff)
  next
    case 2
    then show ?thesis using b [of N] by (simp add: put_short of_nat_byte_less flip: M_def N_def del: of_nat_add of_nat_diff)
  next
    case 3
    with assms(1) have "M \<le> 2287" "240 < N" by (simp_all add: M_def N_def)
    with 3 show ?thesis
      using b [of N] b [of M] d e
      by (auto simp: put_short of_nat_byte_less of_nat_byte_eq simp flip: M_def N_def simp del: of_nat_add of_nat_diff)
  next
    case 4
    then show ?thesis using assms(2) by (simp add: put_short word_less_nat_alt unat_of_nat_byte flip: M_def N_def del: of_nat_add of_nat_diff)
  next
    case 5
    then show ?thesis using assms(2) b [of M] by (simp add: put_short word_less_nat_alt unat_of_nat_byte flip: M_def N_def del: of_nat_add of_nat_diff)
  next
    case 6
    with assms have "M \<le> 67823" "2287 < N" by (simp_all add: M_def N_def)
    with 6 c show ?thesis using assms(2) by (simp add: put_short flip: M_def N_def del: of_nat_add of_nat_diff)
  qed
qed

lemma put_hd_short: "unat x \<le> 67823 \<Longrightarrow> unat (hd (sqlite4PutVarint64 x)) \<le> 249"
proof -
  assume x: "unat x \<le> 67823"
  have b: "(unat x - 240) div 256 < 8" if "unat x \<le> 2287"
    using that by (simp add: div_less_iff_less_mult)
  consider "unat x \<le> 240" | "240 < unat x" "unat x \<le> 2287" | "2287 < unat x" by linarith
  then show ?thesis
    by cases (use x b in \<open>simp_all add: put_short unat_of_nat_byte del: of_nat_add of_nat_diff of_nat_unat\<close>)
qed

lemma put_less:
  assumes "x < y"
  shows "bytes_less (sqlite4PutVarint64 x) (sqlite4PutVarint64 y)"
proof -
  let ?k = "payload_size (unat x)" and ?l = "payload_size (unat y)"
  have lt: "unat x < unat y" using assms by (simp add: word_less_nat_alt)
  have bound: "unat y < 256 ^ 8" using unsigned_less [of y] by simp
  consider "unat y \<le> 67823" | "67823 < unat y" "unat x \<le> 67823" | "67823 < unat x" by linarith
  then show ?thesis
  proof cases
    case 1
    with lt show ?thesis by (rule put_less_short)
  next
    case 2
    obtain b bs where x: "sqlite4PutVarint64 x = b # bs"
      using 2(2) put_short [of x] by (metis not_le)
    have "unat (of_nat (247 + ?l) :: byte) = 247 + ?l"
      using payload_size_long(2) [of "unat y"] by (simp only: unat_of_nat_byte) simp
    then show ?thesis
      using put_hd_short [OF 2(2)] payload_size_long(1) [OF 2(1)] x put_long [OF 2(1)]
      by (simp add: word_less_nat_alt del: of_nat_add)
  next
    case 3
    with lt have y: "67823 < unat y" by simp
    have kl: "?k \<le> ?l" "?l \<le> 8" using lt payload_size_mono payload_size_long by simp_all
    show ?thesis
    proof (cases "?k = ?l")
      case True
      with 3 y lt payload_fits [OF y bound] show ?thesis by (simp add: put_long be_bytes_less)
    next
      case False
      with kl have "(of_nat (247 + ?k) :: byte) < of_nat (247 + ?l)"
        by (simp only: of_nat_byte_less) simp
      with 3 y show ?thesis by (simp only: put_long bytes_less.simps) simp
    qed
  qed
qed

section \<open>What is read\<close>

lemma ucast_as_nat: "(ucast (b :: byte) :: 'a::len word) = of_nat (unat b)"
  by simp

lemma read32:
  "push_bit 24 (ucast a) + push_bit 16 (ucast b) + push_bit 8 (ucast c) + ucast d =
     (of_nat (be_val [a, b, c, d]) :: uint32)" for a b c d :: byte
  unfolding ucast_as_nat by (simp add: push_bit_eq_mult del: of_nat_unat)

lemma ucast_read32:
  "ucast (of_nat (be_val [a, b, c, d]) :: uint32) = (of_nat (be_val [a, b, c, d]) :: uint64)"
proof -
  have "unat (of_nat (be_val [a, b, c, d]) :: uint32) = be_val [a, b, c, d]"
    using be_val_less [of "[a, b, c, d]"] by (simp add: unat_of_nat del: be_val_Cons)
  then show ?thesis by (metis of_nat_unat)
qed

lemma split_slice: "n \<le> length bs \<Longrightarrow> \<exists>as r. bs = as @ r \<and> length as = n"
  by (intro exI [of _ "take n bs"] exI [of _ "drop n bs"]) simp

lemma read_tail:
  fixes e f g :: byte
  shows "push_bit 8 (of_nat N) + ucast e = (of_nat (N * 256 + be_val [e]) :: uint64)"
    "push_bit 16 (of_nat N) + push_bit 8 (ucast e) + ucast f = (of_nat (N * 256 ^ 2 + be_val [e, f]) :: uint64)"
    "push_bit 24 (of_nat N) + push_bit 16 (ucast e) + push_bit 8 (ucast f) + ucast g =
       (of_nat (N * 256 ^ 3 + be_val [e, f, g]) :: uint64)"
    "push_bit 32 (of_nat N) + of_nat M = (of_nat (N * 256 ^ 4 + M) :: uint64)"
  unfolding ucast_as_nat by (simp_all add: push_bit_eq_mult del: of_nat_unat)

lemma read24:
  "push_bit 16 (ucast a) + push_bit 8 (ucast b) + ucast c = (of_nat (be_val [a, b, c]) :: uint64)"
  for a b c :: byte
  unfolding ucast_as_nat by (simp add: push_bit_eq_mult del: of_nat_unat)

lemma be_val_split4:
  "be_val (a # b # c # d # e # t) = be_val [a, b, c, d] * 256 ^ length (e # t) + be_val (e # t)"
  using be_val_append [of "[a, b, c, d]" "e # t"] by (simp del: be_val_Cons)

lemma list_of_length:
  "length as = 3 \<Longrightarrow> \<exists>a b c. as = [a, b, c]"
  "4 \<le> length as \<Longrightarrow> \<exists>a b c d t. as = a # b # c # d # t \<and> length t = length as - 4"
  by (cases as; cases "tl as"; cases "tl (tl as)"; cases "tl (tl (tl as))"; force)+

lemma full_mask32: "0xffffffff AND w = w" for w :: uint32
proof -
  have "(0xffffffff :: uint32) = - 1" by simp
  then show ?thesis by (simp only: and.left_neutral)
qed

lemma get_long:
  assumes "3 \<le> k" "k \<le> 8" "length as = k"
  shows "sqlite4GetVarint64 (of_nat (247 + k) # as @ rest) = Some (of_nat (be_val as), Suc k)"
proof (cases "k = 3")
  case True
  with assms(3) obtain a b c where "as = [a, b, c]" using list_of_length(1) [of as] by auto
  with True show ?thesis
    by (simp add: sqlite4GetVarint64_def read24 del: be_val_Cons)
next
  case False
  with assms obtain a b c d t where as: "as = a # b # c # d # t" and t: "length t = k - 4"
  proof -
    have "4 \<le> length as" using assms False by linarith
    then show ?thesis using that list_of_length(2) [of as] assms(3) by blast
  qed
  have "k - 4 \<in> {0, 1, 2, 3, 4}" using assms(2) by (simp; presburger)
  then consider "k = 4" "t = []" | e where "k = 5" "t = [e]" | e f where "k = 6" "t = [e, f]"
    | e f g where "k = 7" "t = [e, f, g]" | e f g h where "k = 8" "t = [e, f, g, h]"
    using t False assms(1) list_of_length(1) [of t] list_of_length(2) [of t]
    by (auto simp: length_Suc_conv numeral_2_eq_2)
  then show ?thesis
    by cases (simp_all add: sqlite4GetVarint64_def as read32 ucast_read32 read_tail be_val_split4 full_mask32
        del: be_val_Cons)
qed

lemma get_put: "sqlite4GetVarint64 (sqlite4PutVarint64 x @ rest) = Some (x, length (sqlite4PutVarint64 x))"
proof -
  define N where "N = unat x"
  have x: "(of_nat N :: uint64) = x" by (simp add: N_def)
  consider "N \<le> 240" | "240 < N" "N \<le> 2287" | "2287 < N" "N \<le> 67823" | "67823 < N" by linarith
  then show ?thesis
  proof cases
    case 1
    then have "unat (of_nat N :: byte) = N" by (simp add: unat_of_nat_byte)
    with 1 x show ?thesis
      by (simp add: put_short sqlite4GetVarint64_def word_le_nat_alt ucast_as_nat flip: N_def del: of_nat_unat)
  next
    case 2
    define q r where "q = (N - 240) div 256" and "r = (N - 240) mod 256"
    have qr: "q < 8" "r < 256" "N = q * 256 + r + 240"
      using 2 by (simp_all add: q_def r_def div_less_iff_less_mult)
    have enc: "sqlite4PutVarint64 x = [of_nat (q + 241), of_nat r]"
      using 2 by (simp add: put_short of_nat_byte_eq q_def r_def flip: N_def del: of_nat_add of_nat_diff)
    have u: "unat (of_nat (q + 241) :: byte) = q + 241" "unat (of_nat r :: byte) = r"
      using qr by (simp_all only: unat_of_nat_byte mod_less)
    show ?thesis
      unfolding enc using u qr x
      by (simp add: sqlite4GetVarint64_def word_le_nat_alt ucast_as_nat flip: x del: of_nat_unat)
  next
    case 3
    have v: "be_val (be_bytes 2 (N - 2288)) = N - 2288" using 3 by (simp add: be_val_be_bytes)
    obtain a b where ab: "be_bytes 2 (N - 2288) = [a, b]" by (simp add: be_bytes_upto)
    have "N = 2288 + 256 * unat a + unat b" using v 3 unfolding ab by simp
    then have "2288 + 256 * ucast a + ucast b = x" using x by simp
    moreover have enc: "sqlite4PutVarint64 x = [249, a, b]"
      using 3 ab put_short(3) [of x] by (simp only: N_def)
    ultimately show ?thesis
      unfolding enc by (simp add: sqlite4GetVarint64_def)
  next
    case 4
    let ?k = "payload_size N"
    have "N < 256 ^ 8" using unsigned_less [of x] by (simp add: N_def)
    with 4 have "be_val (be_bytes ?k N) = N" by (simp add: be_val_be_bytes payload_fits)
    with 4 x show ?thesis
      using get_long [OF payload_size_long(1) [OF 4] payload_size_long(2), of "be_bytes ?k N" rest]
      by (simp add: put_long flip: N_def)
  qed
qed

interpretation memcmpable_key: key_encoding
  sqlite4PutVarint64 GetMemcmpableVarint64 "\<lambda>_. True" "(<)"
  by unfold_locales (auto simp: GetMemcmpableVarint64_def get_put put_less)

lemma length_put: "length (sqlite4PutVarint64 x) \<le> 9"
  unfolding put_classes by simp

section \<open>Properties\<close>

text \<open>
  C21. The memcmp-comparable encoding of a 64-bit integer decodes to the integer and the rest of the
  slice, takes at most nine bytes, and compares as the integers do whatever is appended.
\<close>

theorem memcmpable_varint_is_key_part:
  "GetMemcmpableVarint64 (PutMemcmpableVarint64 [] x @ rest) = Inr (x, rest) \<and>
   length (PutMemcmpableVarint64 [] x) \<le> 9 \<and>
   (bytes_less (PutMemcmpableVarint64 [] x @ r) (PutMemcmpableVarint64 [] y @ s) \<longleftrightarrow>
      x < y \<or> (x = y \<and> bytes_less r s))"
  by (simp add: PutMemcmpableVarint64_def memcmpable_key.round_trip memcmpable_key.append_less_iff length_put)

end
