(* ===== verification/HybridTime.thy ===== *)
theory HybridTime
  imports MemcmpableVarint
begin

text \<open>
  Hybrid times, \<^verbatim>\<open>src/yb/common/hybrid_time.h\<close> and \<^verbatim>\<open>hybrid_time.cc\<close>: a 64-bit word whose low
  twelve bits are the logical component and whose other bits are microseconds. The class has the
  one field \<open>v\<close>, so a hybrid time is that word; \<^verbatim>\<open>operator<\<close> and its kin go through \<open>CompareTo\<close>.
\<close>

section \<open>Operations\<close>

type_synonym hybrid_time = uint64

definition kMinHybridTimeValue :: hybrid_time where "kMinHybridTimeValue = 0"
definition kMaxHybridTimeValue :: hybrid_time where "kMaxHybridTimeValue = 0xffffffffffffffff"
definition kInitialHybridTimeValue :: hybrid_time where "kInitialHybridTimeValue = kMinHybridTimeValue + 1"
definition kInvalidHybridTimeValue :: hybrid_time where "kInvalidHybridTimeValue = kMaxHybridTimeValue - 1"

definition kLogicalBitMask :: uint64 where "kLogicalBitMask = push_bit 12 1 - 1"

lemmas ht_consts = kMinHybridTimeValue_def kMaxHybridTimeValue_def kInitialHybridTimeValue_def
  kInvalidHybridTimeValue_def kLogicalBitMask_def

definition ht_of :: "uint64 \<Rightarrow> uint32 \<Rightarrow> hybrid_time" where
  "ht_of micros logical_value = push_bit 12 micros + ucast logical_value"

definition FromMicros :: "uint64 \<Rightarrow> hybrid_time" where
  "FromMicros micros = ht_of micros 0"

definition Decremented :: "hybrid_time \<Rightarrow> hybrid_time" where
  "Decremented v = (if v = 0 then v else v - 1)"

definition Incremented :: "hybrid_time \<Rightarrow> hybrid_time" where
  "Incremented v = (if v \<ge> kInvalidHybridTimeValue then v else v + 1)"

definition is_special :: "hybrid_time \<Rightarrow> bool" where
  "is_special v \<longleftrightarrow> v = kMinHybridTimeValue \<or> v = kMaxHybridTimeValue \<or> v = kInvalidHybridTimeValue"

definition AddMicroseconds :: "hybrid_time \<Rightarrow> uint64 \<Rightarrow> hybrid_time" where
  "AddMicroseconds v micros = (if is_special v then v else v + push_bit 12 micros)"

definition AddMilliseconds :: "hybrid_time \<Rightarrow> uint64 \<Rightarrow> hybrid_time" where
  "AddMilliseconds v millis = AddMicroseconds v (millis * 1000)"

definition AddSeconds :: "hybrid_time \<Rightarrow> uint64 \<Rightarrow> hybrid_time" where
  "AddSeconds v seconds = AddMicroseconds v (seconds * 1000000)"

definition FromPB :: "uint64 \<Rightarrow> hybrid_time" where
  "FromPB v = (if v \<noteq> 0 then v else kInvalidHybridTimeValue)"

definition CompareTo :: "hybrid_time \<Rightarrow> hybrid_time \<Rightarrow> int" where
  "CompareTo v w = (if v < w then - 1 else if v > w then 1 else 0)"

definition GetPhysicalValueMicros :: "hybrid_time \<Rightarrow> uint64" where
  "GetPhysicalValueMicros v = drop_bit 12 v"

definition GetLogicalValue :: "hybrid_time \<Rightarrow> uint32" where
  "GetLogicalValue v = ucast (v AND kLogicalBitMask)"

definition CeilPhysicalValueMicros :: "hybrid_time \<Rightarrow> uint64" where
  "CeilPhysicalValueMicros v =
     (if v = kMinHybridTimeValue then 0
      else let result = GetPhysicalValueMicros v in if GetLogicalValue v \<noteq> 0 then result + 1 else result)"

definition PhysicalDiff :: "hybrid_time \<Rightarrow> hybrid_time \<Rightarrow> int" where
  "PhysicalDiff v w = sint (GetPhysicalValueMicros v - GetPhysicalValueMicros w)"

definition is_valid :: "hybrid_time \<Rightarrow> bool" where
  "is_valid v \<longleftrightarrow> v \<noteq> kInvalidHybridTimeValue"

definition MakeAtLeast :: "hybrid_time \<Rightarrow> hybrid_time \<Rightarrow> hybrid_time" where
  "MakeAtLeast v rhs = (if is_valid rhs then if is_valid v then max v rhs else rhs else v)"

definition MakeAtMost :: "hybrid_time \<Rightarrow> hybrid_time \<Rightarrow> hybrid_time" where
  "MakeAtMost v rhs = (if is_valid rhs then if is_valid v then min v rhs else rhs else v)"

definition AppendAsUint64To :: "hybrid_time \<Rightarrow> slice \<Rightarrow> slice" where
  "AppendAsUint64To v dst = PutMemcmpableVarint64 dst v"

definition DecodeFrom :: "slice \<Rightarrow> (hybrid_time \<times> slice) option" where
  "DecodeFrom input = (case GetMemcmpableVarint64 input of Inl _ \<Rightarrow> None | Inr r \<Rightarrow> Some r)"

section \<open>Reading the word as microseconds and logical component\<close>

lemma unat_physical: "unat (GetPhysicalValueMicros v) = unat v div 4096"
  by (simp add: GetPhysicalValueMicros_def unat_drop_bit_div)

lemma logical_mask: "v AND kLogicalBitMask = take_bit 12 v"
proof -
  have "kLogicalBitMask = mask 12" by (simp add: kLogicalBitMask_def mask_eq_exp_minus_1)
  then show ?thesis by (simp only: take_bit_eq_mask)
qed

lemma unat_logical: "unat (GetLogicalValue v) = unat v mod 4096"
proof -
  have "unat (GetLogicalValue v) = unat (take_bit 12 v) mod 2 ^ 32"
    by (simp add: GetLogicalValue_def logical_mask unsigned_ucast_eq take_bit_eq_mod)
  also have "\<dots> = unat v mod 4096" by (simp add: unat_take_bit_mod)
  finally show ?thesis .
qed

lemma unat_ht_of:
  assumes "unat micros * 4096 + unat l < 2 ^ 64"
  shows "unat (ht_of micros l) = unat micros * 4096 + unat l"
proof -
  have "unat (ucast l :: uint64) = unat l" by (simp add: unat_ucast_up)
  then show ?thesis
    using assms by (simp add: ht_of_def push_bit_eq_mult unat_word_ariths)
qed

lemma unat_Decremented: "unat (Decremented v) = unat v - 1"
  by (simp add: Decremented_def unat_minus_one)

lemma ht_of_parts: "ht_of (GetPhysicalValueMicros v) (GetLogicalValue v) = v"
proof -
  have "unat v < 2 ^ 64" using unsigned_less [of v] by simp
  then have "unat (ht_of (GetPhysicalValueMicros v) (GetLogicalValue v)) = unat v"
    by (subst unat_ht_of) (simp_all only: unat_physical unat_logical div_mult_mod_eq)
  then show ?thesis by (simp add: word_unat_eq_iff)
qed

lemma physical_ht_of:
  assumes "unat micros < 2 ^ 52" "unat l < 4096"
  shows "GetPhysicalValueMicros (ht_of micros l) = micros" "GetLogicalValue (ht_of micros l) = l"
proof -
  have "unat (ht_of micros l) = unat micros * 4096 + unat l"
    using assms by (intro unat_ht_of) simp
  then have "unat (GetPhysicalValueMicros (ht_of micros l)) = unat micros"
    "unat (GetLogicalValue (ht_of micros l)) = unat l"
    using assms by (simp_all add: unat_physical unat_logical)
  then show "GetPhysicalValueMicros (ht_of micros l) = micros" "GetLogicalValue (ht_of micros l) = l"
    by (simp_all add: word_unat_eq_iff)
qed

lemma CompareTo_parts:
  "CompareTo v w < 0 \<longleftrightarrow>
     GetPhysicalValueMicros v < GetPhysicalValueMicros w \<or>
     (GetPhysicalValueMicros v = GetPhysicalValueMicros w \<and> GetLogicalValue v < GetLogicalValue w)"
proof -
  have eq: "unat v = unat v div 4096 * 4096 + unat v mod 4096"
    "unat w = unat w div 4096 * 4096 + unat w mod 4096"
    by (simp_all only: div_mult_mod_eq)
  have "unat v < unat w \<longleftrightarrow> unat v div 4096 < unat w div 4096 \<or>
      (unat v div 4096 = unat w div 4096 \<and> unat v mod 4096 < unat w mod 4096)"
    (is "?l \<longleftrightarrow> ?r")
  proof
    assume ?l
    then have "unat v div 4096 \<le> unat w div 4096" by (intro div_le_mono) simp
    with \<open>?l\<close> mod_less_same_div show ?r by (cases "unat v div 4096 = unat w div 4096") auto
  next
    have lt: "unat v mod 4096 < 4096" by simp
    assume ?r
    then show ?l using eq lt by (elim disjE) linarith+
  qed
  then show ?thesis
    by (simp add: CompareTo_def word_less_nat_alt word_unat_eq_iff unat_physical unat_logical)
qed

lemma Ceil_bounds:
  "unat v \<le> unat (CeilPhysicalValueMicros v) * 4096 \<and>
   unat (CeilPhysicalValueMicros v) * 4096 < unat v + 4096"
proof (cases "v = kMinHybridTimeValue")
  case True
  then show ?thesis by (simp add: CeilPhysicalValueMicros_def kMinHybridTimeValue_def)
next
  case False
  have "unat v < 2 ^ 64" using unsigned_less [of v] by simp
  then have d: "unat v div 4096 < 2 ^ 52" by (simp add: div_less_iff_less_mult)
  have eq: "unat v = unat v div 4096 * 4096 + unat v mod 4096" by (simp only: div_mult_mod_eq)
  define q r where "q = unat v div 4096" and "r = unat v mod 4096"
  have "unat (CeilPhysicalValueMicros v) = unat v div 4096 + (if unat v mod 4096 \<noteq> 0 then 1 else 0)"
    using False d
    by (simp add: CeilPhysicalValueMicros_def Let_def word_unat_eq_iff unat_logical unat_word_ariths
        unat_physical)
  then have "unat (CeilPhysicalValueMicros v) = q + (if r \<noteq> 0 then 1 else 0)"
    unfolding q_def r_def .
  moreover have "unat v = q * 4096 + r" "r < 4096"
    using eq unfolding q_def r_def by simp_all
  ultimately show ?thesis by (cases "r = 0") simp_all
qed

section \<open>Properties\<close>

text \<open>
  A hybrid time is a pair of microseconds and a logical component: composing and taking apart are
  inverse within 52 and 12 bits, every value is the composition of its parts, and the comparison
  of hybrid times is the lexicographic one on the parts.
\<close>

theorem hybrid_time_layout:
  assumes "unat micros < 2 ^ 52" "unat l < 4096"
  shows "GetPhysicalValueMicros (ht_of micros l) = micros \<and> GetLogicalValue (ht_of micros l) = l \<and>
    ht_of (GetPhysicalValueMicros v) (GetLogicalValue v) = v \<and>
    (CompareTo v w < 0 \<longleftrightarrow>
       GetPhysicalValueMicros v < GetPhysicalValueMicros w \<or>
       (GetPhysicalValueMicros v = GetPhysicalValueMicros w \<and> GetLogicalValue v < GetLogicalValue w))"
  using physical_ht_of [OF assms] ht_of_parts CompareTo_parts by simp

theorem hybrid_time_layout_witness:
  "unat (5 :: uint64) < 2 ^ 52 \<and> unat (7 :: uint32) < 4096 \<and>
   GetPhysicalValueMicros (ht_of 5 7) = 5 \<and> GetLogicalValue (ht_of 5 7) = 7"
  using hybrid_time_layout [of 5 7 0 0] by simp

text \<open>
  The arithmetic of hybrid times: the ceiling is the least number of microseconds not below the
  time, incrementing an ordinary time and decrementing it again gives it back, and
  \<open>MakeAtLeast\<close> and \<open>MakeAtMost\<close> are commutative and associative with the invalid time as
  neutral element, so folding either over any arrangement of times gives the same bound.
\<close>

theorem hybrid_time_arithmetic:
  "unat v \<le> unat (CeilPhysicalValueMicros v) * 4096 \<and>
   unat (CeilPhysicalValueMicros v) * 4096 < unat v + 4096 \<and>
   (v < kInvalidHybridTimeValue \<longleftrightarrow> v < Incremented v) \<and>
   Decremented (Incremented v) = (if v < kInvalidHybridTimeValue then v else v - 1) \<and>
   MakeAtLeast u v = MakeAtLeast v u \<and> MakeAtLeast (MakeAtLeast u v) w = MakeAtLeast u (MakeAtLeast v w) \<and>
   MakeAtLeast kInvalidHybridTimeValue v = v \<and>
   MakeAtMost u v = MakeAtMost v u \<and> MakeAtMost (MakeAtMost u v) w = MakeAtMost u (MakeAtMost v w) \<and>
   MakeAtMost kInvalidHybridTimeValue v = v"
proof -
  have "v < kInvalidHybridTimeValue \<longleftrightarrow> v < Incremented v"
    by (auto simp: Incremented_def ht_consts word_less_nat_alt word_le_nat_alt unat_word_ariths)
  moreover have "Decremented (Incremented v) = (if v < kInvalidHybridTimeValue then v else v - 1)"
    by (auto simp: Incremented_def Decremented_def ht_consts word_less_nat_alt word_le_nat_alt
        word_unat_eq_iff unat_word_ariths)
  moreover have "MakeAtLeast u v = MakeAtLeast v u" "MakeAtMost u v = MakeAtMost v u"
    by (auto simp: MakeAtLeast_def MakeAtMost_def is_valid_def max.commute min.commute)
  moreover have "MakeAtLeast (MakeAtLeast u v) w = MakeAtLeast u (MakeAtLeast v w)"
    "MakeAtMost (MakeAtMost u v) w = MakeAtMost u (MakeAtMost v w)"
    by (auto simp: MakeAtLeast_def MakeAtMost_def is_valid_def max_def min_def)
  ultimately show ?thesis using Ceil_bounds by (simp add: MakeAtLeast_def MakeAtMost_def is_valid_def)
qed

end
