(* ===== verification/HybridClock.thy ===== *)
theory HybridClock
  imports HybridTime
begin

text \<open>
  The clocks that assign hybrid times: the contract of \<^verbatim>\<open>src/yb/server/clock.h\<close>, the lock-free
  \<^verbatim>\<open>hybrid_clock.cc\<close> and the \<^verbatim>\<open>logical_clock.cc\<close> used in tests.

  \<open>HybridClock\<close> is shared by threads that read and compare-and-swap one atomic pair of components.
  A call is modelled by its control point before each compare-and-swap, with the local variables
  that are live there, and the system by the shared components and the control point of every
  thread. \<^verbatim>\<open>compare_exchange_weak\<close> may fail spuriously. The reading of the physical clock is an
  argument: any value, or an error.
\<close>

section \<open>The contract of a clock\<close>

datatype clock_event = Issued hybrid_time | Updated hybrid_time

fun event_time :: "clock_event \<Rightarrow> hybrid_time" where
  "event_time (Issued t) = t"
| "event_time (Updated t) = t"

fun clock_before :: "clock_event \<Rightarrow> clock_event \<Rightarrow> bool" where
  "clock_before e (Issued t) = (unat (event_time e) < unat t)"
| "clock_before e (Updated t) = True"

text \<open>Every issued time is above all times issued and all times merged in before it.\<close>

definition clock_ordered :: "clock_event list \<Rightarrow> bool" where
  "clock_ordered es = sorted_wrt clock_before es"

inductive clock_run ::
  "('s \<Rightarrow> clock_event option \<Rightarrow> 's \<Rightarrow> bool) \<Rightarrow> 's \<Rightarrow> clock_event list \<Rightarrow> 's \<Rightarrow> bool"
  for step where
  start: "clock_run step s [] s"
| step: "clock_run step s es s' \<Longrightarrow> step s' e s'' \<Longrightarrow> clock_run step s (es @ (case e of None \<Rightarrow> [] | Some x \<Rightarrow> [x])) s''"

locale clock =
  fixes ok :: "'s \<Rightarrow> bool"
    and next_time :: "'s \<Rightarrow> nat"
    and step :: "'s \<Rightarrow> clock_event option \<Rightarrow> 's \<Rightarrow> bool"
  assumes keeps_ok: "ok s \<Longrightarrow> step s e s' \<Longrightarrow> ok s'"
    and never_backwards: "ok s \<Longrightarrow> step s e s' \<Longrightarrow> next_time s \<le> next_time s'"
    and issues_next: "ok s \<Longrightarrow> step s (Some (Issued t)) s' \<Longrightarrow> next_time s \<le> unat t"
    and passes: "ok s \<Longrightarrow> step s (Some x) s' \<Longrightarrow> unat (event_time x) < next_time s'"
begin

lemma run_ordered:
  assumes "clock_run step s es s'" "ok s"
  shows "ok s' \<and> clock_ordered es \<and> (\<forall>e\<in>set es. unat (event_time e) < next_time s')"
  using assms
proof (induction rule: clock_run.induct)
  case (start s)
  then show ?case by (simp add: clock_ordered_def)
next
  case (step s es s' e s'')
  then have IH: "ok s'" "clock_ordered es" "\<forall>e\<in>set es. unat (event_time e) < next_time s'" by simp_all
  have old: "\<forall>e\<in>set es. unat (event_time e) < next_time s''"
    using IH(3) never_backwards [OF IH(1) step.hyps(2)] by force
  show ?case
  proof (cases e)
    case None
    then show ?thesis using IH old keeps_ok [OF IH(1) step.hyps(2)] by simp
  next
    case (Some x)
    have "clock_before y x" if "y \<in> set es" for y
      using that IH(3) issues_next [OF IH(1)] step.hyps(2) Some by (cases x) force+
    then show ?thesis
      using IH old keeps_ok [OF IH(1) step.hyps(2)] passes [OF IH(1)] step.hyps(2) Some
      by (simp add: clock_ordered_def sorted_wrt_append)
  qed
qed

end

section \<open>The hybrid clock\<close>

record components =
  last_usec :: uint64
  logical :: uint32

record physical_time =
  time_point :: uint64
  max_error :: uint64

record clock_flags =
  max_clock_skew_usec :: uint64
  fail_on_out_of_range_clock_skew :: bool
  clock_skew_control_enabled :: bool

definition components_less :: "components \<Rightarrow> components \<Rightarrow> bool" where
  "components_less c o' \<longleftrightarrow>
     last_usec c < last_usec o' \<or> (last_usec c = last_usec o' \<and> logical c < logical o')"

definition HandleLogicalComponentOverflow :: "components \<Rightarrow> components result" where
  "HandleLogicalComponentOverflow c =
     (if ucast (logical c) > kLogicalBitMask then
        if ucast (logical c) > (push_bit 12 1 :: uint64) then Inl Fatal
        else Inr \<lparr>last_usec = last_usec c + ucast (drop_bit 12 (logical c)),
                  logical = logical c AND ucast kLogicalBitMask\<rparr>
      else Inr c)"

datatype clock_pc =
    Idle
  | NowAdvance components physical_time
  | NowIncrement components physical_time
  | UpdateTo components components hybrid_time

datatype clock_outcome =
    Running clock_pc
  | NowReturns hybrid_time uint64
  | UpdateReturns hybrid_time

text \<open>The condition of the first loop of \<^verbatim>\<open>NowWithError\<close>; the second loop follows it.\<close>

definition now_first_loop :: "components \<Rightarrow> physical_time \<Rightarrow> clock_pc" where
  "now_first_loop current now =
     (if time_point now > last_usec current then NowAdvance current now else NowIncrement current now)"

definition NowWithError_start ::
  "clock_flags \<Rightarrow> components \<Rightarrow> physical_time result \<Rightarrow> clock_outcome result" where
  "NowWithError_start flags current reading =
     (case reading of
        Inl _ \<Rightarrow> Inl Fatal
      | Inr now \<Rightarrow>
          if time_point now < last_usec current then
            if last_usec current - time_point now > max_clock_skew_usec flags \<and>
               fail_on_out_of_range_clock_skew flags \<and> clock_skew_control_enabled flags
            then Inl Fatal
            else Inr (Running (NowIncrement current now))
          else Inr (Running (now_first_loop current now)))"

definition update_loop :: "components \<Rightarrow> components \<Rightarrow> hybrid_time \<Rightarrow> clock_outcome" where
  "update_loop current new to_update =
     (if components_less current new then Running (UpdateTo current new to_update)
      else UpdateReturns to_update)"

definition Update_start :: "components \<Rightarrow> hybrid_time \<Rightarrow> clock_outcome result" where
  "Update_start current to_update =
     (if \<not> is_valid to_update then Inr (UpdateReturns to_update)
      else
        bind_result
          (HandleLogicalComponentOverflow
             \<lparr>last_usec = GetPhysicalValueMicros to_update, logical = GetLogicalValue to_update + 1\<rparr>)
          (\<lambda>new. Inr (update_loop current new to_update)))"

text \<open>One \<^verbatim>\<open>compare_exchange_weak\<close> on the shared components and the code up to the next one.\<close>

fun clock_cas :: "bool \<Rightarrow> components \<Rightarrow> clock_pc \<Rightarrow> (components \<times> clock_outcome) result" where
  "clock_cas spurious shared Idle = Inl Undefined"
| "clock_cas spurious shared (NowAdvance current now) =
     (if shared = current \<and> \<not> spurious
      then Inr (\<lparr>last_usec = time_point now, logical = 1\<rparr>, NowReturns (FromMicros (time_point now)) (max_error now))
      else Inr (shared, Running (now_first_loop shared now)))"
| "clock_cas spurious shared (NowIncrement current now) =
     bind_result
       (HandleLogicalComponentOverflow \<lparr>last_usec = last_usec current, logical = logical current + 1\<rparr>)
       (\<lambda>new.
         if shared = current \<and> \<not> spurious
         then Inr (new, NowReturns (Decremented (ht_of (last_usec new) (logical new)))
                          (last_usec new - (time_point now - max_error now)))
         else Inr (shared, Running (NowIncrement shared now)))"
| "clock_cas spurious shared (UpdateTo current new to_update) =
     (if shared = current \<and> \<not> spurious then Inr (new, UpdateReturns to_update)
      else Inr (shared, update_loop shared new to_update))"

record clock_system =
  shared :: components
  pcs :: "nat \<Rightarrow> clock_pc"

definition clock_init :: clock_system where
  "clock_init = \<lparr>shared = \<lparr>last_usec = 0, logical = 0\<rparr>, pcs = (\<lambda>_. Idle)\<rparr>"

fun outcome_pc :: "clock_outcome \<Rightarrow> clock_pc" where
  "outcome_pc (Running pc) = pc"
| "outcome_pc _ = Idle"

fun outcome_event :: "clock_outcome \<Rightarrow> clock_event option" where
  "outcome_event (Running _) = None"
| "outcome_event (NowReturns t _) = Some (Issued t)"
| "outcome_event (UpdateReturns t) = (if is_valid t then Some (Updated t) else None)"

definition move :: "nat \<Rightarrow> components \<Rightarrow> clock_outcome \<Rightarrow> clock_system \<Rightarrow> clock_system" where
  "move t sh out s = s\<lparr>shared := sh, pcs := (pcs s)(t := outcome_pc out)\<rparr>"

inductive clock_step ::
  "clock_flags \<Rightarrow> clock_system \<Rightarrow> clock_event option \<Rightarrow> clock_system \<Rightarrow> bool" for flags where
  begin_now:
    "pcs s t = Idle \<Longrightarrow> NowWithError_start flags (shared s) reading = Inr out \<Longrightarrow>
     clock_step flags s (outcome_event out) (move t (shared s) out s)"
| begin_update:
    "pcs s t = Idle \<Longrightarrow> Update_start (shared s) ht = Inr out \<Longrightarrow>
     clock_step flags s (outcome_event out) (move t (shared s) out s)"
| cas:
    "clock_cas spurious (shared s) (pcs s t) = Inr (sh, out) \<Longrightarrow>
     clock_step flags s (outcome_event out) (move t sh out s)"

section \<open>Order of the issued times\<close>

text \<open>
  The components as one number: the next hybrid time to hand out. A run is considered while that
  number fits the 64 bits of a hybrid time.
\<close>

definition clock_value :: "components \<Rightarrow> nat" where
  "clock_value c = unat (last_usec c) * 4096 + unat (logical c)"

definition clock_in_range :: "clock_flags \<Rightarrow> clock_system \<Rightarrow> clock_event option \<Rightarrow> clock_system \<Rightarrow> bool" where
  "clock_in_range flags s e s' \<longleftrightarrow> clock_step flags s e s' \<and> clock_value (shared s') < 2 ^ 64"

definition pc_ok :: "clock_pc \<Rightarrow> bool" where
  "pc_ok pc \<longleftrightarrow>
     (case pc of
        Idle \<Rightarrow> True
      | NowAdvance current now \<Rightarrow> last_usec current < time_point now
      | NowIncrement current now \<Rightarrow> True
      | UpdateTo current new t \<Rightarrow>
          components_less current new \<and> unat (logical new) < 4096 \<and> clock_value new = unat t + 1 \<and> is_valid t)"

definition system_ok :: "clock_system \<Rightarrow> bool" where
  "system_ok s \<longleftrightarrow>
     unat (logical (shared s)) < 4096 \<and> clock_value (shared s) < 2 ^ 64 \<and> (\<forall>t. pc_ok (pcs s t))"

lemma unat_mask_consts: "unat kLogicalBitMask = 4095" "ucast kLogicalBitMask = (mask 12 :: uint32)"
  by (simp_all add: kLogicalBitMask_def mask_eq_exp_minus_1)

lemma overflow_cases:
  assumes "unat (logical c) \<le> 4096" "unat (last_usec c) < 2 ^ 63"
  shows "\<exists>c'. HandleLogicalComponentOverflow c = Inr c' \<and> unat (logical c') < 4096 \<and> clock_value c' = clock_value c"
proof (cases "unat (logical c) < 4096")
  case True
  then show ?thesis
    by (simp add: HandleLogicalComponentOverflow_def word_less_nat_alt unat_ucast_up unat_mask_consts)
next
  case False
  with assms(1) have l: "unat (logical c) = 4096" by simp
  have "logical c AND mask 12 = take_bit 12 (logical c)" by (simp add: take_bit_eq_mask)
  then have m: "unat (logical c AND mask 12) = 0" by (simp only: unat_take_bit_mod l) simp
  have d: "unat (ucast (drop_bit 12 (logical c)) :: uint64) = 1"
    by (simp add: unat_ucast_up unat_drop_bit_div l)
  have "unat (last_usec c + ucast (drop_bit 12 (logical c))) = unat (last_usec c) + 1"
    using assms(2) d by (simp add: unat_word_ariths)
  with l m show ?thesis
    by (simp add: HandleLogicalComponentOverflow_def word_less_nat_alt unat_ucast_up unat_mask_consts clock_value_def)
qed

lemma overflow_value:
  assumes "HandleLogicalComponentOverflow c = Inr c'" "unat (logical c) \<le> 4096" "unat (last_usec c) < 2 ^ 63"
  shows "unat (logical c') < 4096" "clock_value c' = clock_value c"
  using overflow_cases [OF assms(2,3)] assms(1) by auto

lemma components_less_value:
  assumes "unat (logical c) < 4096" "unat (logical d) < 4096"
  shows "components_less c d \<longleftrightarrow> clock_value c < clock_value d"
proof -
  have "unat (last_usec c) < unat (last_usec d) \<Longrightarrow> clock_value c < clock_value d"
    using assms(1) unfolding clock_value_def by linarith
  moreover have "unat (last_usec d) < unat (last_usec c) \<Longrightarrow> clock_value d < clock_value c"
    using assms(2) unfolding clock_value_def by linarith
  ultimately show ?thesis
    unfolding components_less_def word_less_nat_alt word_unat_eq_iff
    by (cases "unat (last_usec c)" "unat (last_usec d)" rule: linorder_cases) (auto simp: clock_value_def)
qed

text \<open>What one atomic action of a thread guarantees about the components and its outcome.\<close>

definition action_ok :: "components \<Rightarrow> components \<Rightarrow> clock_outcome \<Rightarrow> bool" where
  "action_ok sh sh' out \<longleftrightarrow>
     unat (logical sh') < 4096 \<and> clock_value sh \<le> clock_value sh' \<and> pc_ok (outcome_pc out) \<and>
     (\<forall>t. outcome_event out = Some (Issued t) \<longrightarrow> clock_value sh \<le> unat t) \<and>
     (\<forall>x. outcome_event out = Some x \<longrightarrow> unat (event_time x) < clock_value sh')"

lemma value_usec_bound: "clock_value c < 2 ^ 64 \<Longrightarrow> unat (last_usec c) < 2 ^ 52"
  by (simp add: clock_value_def)

lemma update_loop_ok:
  assumes "unat (logical sh) < 4096" "unat (logical new) < 4096" "clock_value new = unat t + 1" "is_valid t"
  shows "action_ok sh sh (update_loop sh new t)"
  using assms components_less_value [OF assms(1,2)]
  by (auto simp: action_ok_def update_loop_def pc_ok_def)

lemma now_loop_ok: "unat (logical sh) < 4096 \<Longrightarrow> action_ok sh sh (Running (now_first_loop sh now))"
  by (simp add: action_ok_def now_first_loop_def pc_ok_def)

lemma cas_ok:
  assumes sh: "unat (logical sh) < 4096" "clock_value sh < 2 ^ 64" and pc: "pc_ok pc"
    and cas: "clock_cas spurious sh pc = Inr (sh', out)" and sh': "clock_value sh' < 2 ^ 64"
  shows "action_ok sh sh' out"
proof (cases pc)
  case Idle
  then show ?thesis using cas by simp
next
  case (NowAdvance current now)
  show ?thesis
  proof (cases "sh = current \<and> \<not> spurious")
    case True
    with NowAdvance cas have r: "sh' = \<lparr>last_usec = time_point now, logical = 1\<rparr>"
      "out = NowReturns (FromMicros (time_point now)) (max_error now)" by simp_all
    have tp: "unat (last_usec sh) < unat (time_point now)"
      using pc True NowAdvance by (simp add: pc_ok_def word_less_nat_alt)
    have "unat (FromMicros (time_point now)) = unat (time_point now) * 4096"
      unfolding FromMicros_def using sh' r(1) by (subst unat_ht_of) (simp_all add: clock_value_def)
    moreover have "clock_value sh < unat (time_point now) * 4096"
      using tp sh(1) unfolding clock_value_def by linarith
    ultimately show ?thesis using r by (simp add: action_ok_def pc_ok_def clock_value_def)
  next
    case False
    with NowAdvance cas sh(1) show ?thesis by (auto intro: now_loop_ok)
  qed
next
  case (NowIncrement current now)
  from cas obtain new where new:
      "HandleLogicalComponentOverflow \<lparr>last_usec = last_usec current, logical = logical current + 1\<rparr> = Inr new"
    using NowIncrement by (auto simp: bind_result_eq_Inr)
  show ?thesis
  proof (cases "sh = current \<and> \<not> spurious")
    case True
    with NowIncrement cas new have r: "sh' = new"
      "out = NowReturns (Decremented (ht_of (last_usec new) (logical new)))
               (last_usec new - (time_point now - max_error now))" by auto
    have l: "unat (logical current + 1) = unat (logical current) + 1"
      using sh(1) True by (simp add: unat_word_ariths)
    have v: "unat (logical new) < 4096" "clock_value new = clock_value sh + 1"
      using overflow_value [OF new] l sh value_usec_bound [OF sh(2)] True
      by (simp_all add: clock_value_def)
    then have "unat (ht_of (last_usec new) (logical new)) = clock_value sh + 1"
      using sh' r(1) unat_ht_of [of "last_usec new" "logical new"] by (simp add: clock_value_def)
    then show ?thesis using r v by (simp add: action_ok_def pc_ok_def unat_Decremented)
  next
    case False
    with NowIncrement cas new sh(1) show ?thesis by (auto simp: action_ok_def pc_ok_def)
  qed
next
  case (UpdateTo current new t)
  with pc have u: "components_less current new" "unat (logical new) < 4096"
      "clock_value new = unat t + 1" "is_valid t" by (simp_all add: pc_ok_def)
  show ?thesis
  proof (cases "sh = current \<and> \<not> spurious")
    case True
    with UpdateTo cas have "sh' = new" "out = UpdateReturns t" by simp_all
    with True u sh(1) show ?thesis by (simp add: action_ok_def pc_ok_def components_less_value)
  next
    case False
    with UpdateTo cas u sh(1) show ?thesis by (auto intro: update_loop_ok)
  qed
qed

lemma start_now_ok:
  assumes "unat (logical sh) < 4096" "NowWithError_start flags sh reading = Inr out"
  shows "action_ok sh sh out"
  using assms now_loop_ok [OF assms(1)]
  by (auto simp: NowWithError_start_def action_ok_def pc_ok_def split: sum.splits if_splits)

lemma start_update_ok:
  assumes "unat (logical sh) < 4096" "Update_start sh ht = Inr out"
  shows "action_ok sh sh out"
proof (cases "is_valid ht")
  case False
  with assms show ?thesis by (auto simp: Update_start_def action_ok_def pc_ok_def)
next
  case True
  let ?c = "\<lparr>last_usec = GetPhysicalValueMicros ht, logical = GetLogicalValue ht + 1\<rparr>"
  from assms(2) True obtain new where new: "HandleLogicalComponentOverflow ?c = Inr new"
      "out = update_loop sh new ht"
    by (auto simp: Update_start_def bind_result_eq_Inr)
  have l: "unat (GetLogicalValue ht + 1) = unat ht mod 4096 + 1" "unat ht mod 4096 < 4096"
    by (simp_all add: unat_word_ariths unat_logical)
  have "unat ht < 2 ^ 64" using unsigned_less [of ht] by simp
  then have p: "unat (GetPhysicalValueMicros ht) < 2 ^ 63"
    by (simp add: unat_physical div_less_iff_less_mult)
  have "clock_value ?c = unat ht + 1"
    by (simp add: clock_value_def l unat_physical)
  moreover have "unat (logical ?c) \<le> 4096" using l by simp
  ultimately show ?thesis
    using overflow_value [OF new(1)] p assms(1) True new(2) by (simp add: update_loop_ok)
qed

lemma clock_step_ok:
  assumes ok: "system_ok s" and step: "clock_in_range flags s e s'"
  shows "system_ok s' \<and> (\<exists>out. action_ok (shared s) (shared s') out \<and> e = outcome_event out)"
proof -
  have s': "clock_value (shared s') < 2 ^ 64" using step by (simp add: clock_in_range_def)
  from step have "clock_step flags s e s'" by (simp add: clock_in_range_def)
  then obtain t sh out where m: "s' = move t sh out s" "e = outcome_event out" "action_ok (shared s) sh out"
  proof cases
    case (begin_now t reading out)
    then show ?thesis using that [of t "shared s" out] start_now_ok ok by (auto simp: system_ok_def)
  next
    case (begin_update t ht out)
    then show ?thesis using that [of t "shared s" out] start_update_ok ok by (auto simp: system_ok_def)
  next
    case (cas spurious t sh out)
    then show ?thesis
      using that [of t sh out] cas_ok [OF _ _ _ cas(3)] ok s' by (auto simp: system_ok_def move_def)
  qed
  then show ?thesis using ok s' by (auto simp: system_ok_def action_ok_def move_def)
qed

interpretation hybrid: clock system_ok "clock_value \<circ> shared" "clock_in_range flags" for flags
proof
  fix s e s' assume s: "system_ok s" "clock_in_range flags s e s'"
  show "system_ok s'" "(clock_value \<circ> shared) s \<le> (clock_value \<circ> shared) s'"
    using clock_step_ok [OF s] by (auto simp: action_ok_def)
next
  fix s t s' assume s: "system_ok s" "clock_in_range flags s (Some (Issued t)) s'"
  show "(clock_value \<circ> shared) s \<le> unat t"
    using clock_step_ok [OF s] by (auto simp: action_ok_def)
next
  fix s x s' assume s: "system_ok s" "clock_in_range flags s (Some x) s'"
  show "unat (event_time x) < (clock_value \<circ> shared) s'"
    using clock_step_ok [OF s] by (auto simp: action_ok_def)
qed

lemma clock_init_ok: "system_ok clock_init"
  by (simp add: system_ok_def clock_init_def clock_value_def pc_ok_def)

section \<open>One call without contention\<close>

definition NowWithError ::
  "clock_flags \<Rightarrow> components \<Rightarrow> physical_time result \<Rightarrow> (components \<times> hybrid_time \<times> uint64) result" where
  "NowWithError flags c reading =
     bind_result (NowWithError_start flags c reading) (\<lambda>out.
     bind_result (clock_cas False c (outcome_pc out)) (\<lambda>(c', out').
       case out' of NowReturns t err \<Rightarrow> Inr (c', t, err) | _ \<Rightarrow> Inl Undefined))"

definition Update :: "components \<Rightarrow> hybrid_time \<Rightarrow> components result" where
  "Update c to_update =
     bind_result (Update_start c to_update) (\<lambda>out.
       case out of
         Running pc \<Rightarrow> bind_result (clock_cas False c pc) (\<lambda>(c', _). Inr c')
       | _ \<Rightarrow> Inr c)"

text \<open>\<^verbatim>\<open>PhysicalClock::MaxGlobalTime\<close> is virtual: the method of the clock in use is an argument.\<close>

definition NowRange ::
  "(physical_time \<Rightarrow> uint64) \<Rightarrow> clock_flags \<Rightarrow> components \<Rightarrow> physical_time result \<Rightarrow>
   (components \<times> hybrid_time \<times> hybrid_time) result" where
  "NowRange MaxGlobalTime flags c reading =
     bind_result (NowWithError flags c reading) (\<lambda>(c', now, error).
       Inr (c', now, FromMicros (MaxGlobalTime \<lparr>time_point = GetPhysicalValueMicros now, max_error = error\<rparr>)))"

definition SkewForMetrics :: "components \<Rightarrow> physical_time result \<Rightarrow> int" where
  "SkewForMetrics c reading =
     (case reading of
        Inl _ \<Rightarrow> 0
      | Inr now \<Rightarrow> max 0 (sint (last_usec c - time_point now)))"

definition GetPhysicalValueNanos :: "hybrid_time \<Rightarrow> uint64 result" where
  "GetPhysicalValueNanos ht =
     (let micros = drop_bit 12 ht
      in if micros \<le> 0xffffffffffffffff div 1000 then Inr (micros * 1000) else Inl Fatal)"

definition AddPhysicalTimeToHybridTime :: "hybrid_time \<Rightarrow> uint64 \<Rightarrow> hybrid_time" where
  "AddPhysicalTimeToHybridTime original to_add_micros =
     ht_of (GetPhysicalValueMicros original + to_add_micros) (GetLogicalValue original)"

definition CompareHybridClocksToDelta :: "hybrid_time \<Rightarrow> hybrid_time \<Rightarrow> uint64 \<Rightarrow> int result" where
  "CompareHybridClocksToDelta begin' end' delta_nanos =
     (if end' < begin' then Inr (- 1)
      else
        bind_result (GetPhysicalValueNanos begin') (\<lambda>begin_nanos.
        bind_result (GetPhysicalValueNanos end') (\<lambda>end_nanos.
          if end_nanos - begin_nanos > delta_nanos then Inr 1
          else if end_nanos - begin_nanos = delta_nanos then
            (let begin_logical = GetLogicalValue begin'; end_logical = GetLogicalValue end'
             in if end_logical > begin_logical then Inr 1
                else if end_logical < begin_logical then Inr (- 1) else Inr 0)
          else Inr (- 1))))"

lemma NowWithError_result:
  assumes c: "unat (logical c) < 4096" "clock_value c < 2 ^ 64 - 1"
    and now: "unat (time_point now) < 2 ^ 52"
    and skew: "unat (last_usec c) \<le> unat (time_point now) + unat (max_clock_skew_usec flags)"
  shows "\<exists>c' t err. NowWithError flags c (Inr now) = Inr (c', t, err) \<and>
    unat t = max (unat (time_point now) * 4096) (clock_value c) \<and>
    clock_value c' = unat t + 1 \<and> unat (logical c') < 4096"
proof (cases "time_point now > last_usec c")
  case True
  then have "unat (FromMicros (time_point now)) = unat (time_point now) * 4096"
    unfolding FromMicros_def using now by (subst unat_ht_of) simp_all
  moreover have "clock_value c < unat (time_point now) * 4096"
    using True c(1) unfolding clock_value_def word_less_nat_alt by linarith
  moreover have "\<not> time_point now < last_usec c" using True by (rule less_not_sym)
  ultimately show ?thesis
    using True by (simp add: NowWithError_def NowWithError_start_def now_first_loop_def clock_value_def)
next
  case False
  let ?c = "\<lparr>last_usec = last_usec c, logical = logical c + 1\<rparr>"
  have le: "unat (time_point now) \<le> unat (last_usec c)" using False by (simp add: word_less_nat_alt)
  have "unat (last_usec c - time_point now) \<le> unat (max_clock_skew_usec flags)"
    using le skew by (simp add: unat_sub word_le_nat_alt)
  then have start: "NowWithError_start flags c (Inr now) = Inr (Running (NowIncrement c now))"
    using False by (auto simp: NowWithError_start_def now_first_loop_def word_less_nat_alt)
  have l: "unat (logical ?c) = unat (logical c) + 1" using c(1) by (simp add: unat_word_ariths)
  moreover have "unat (last_usec ?c) < 2 ^ 63" using value_usec_bound [of c] c(2) by simp
  ultimately obtain new where new: "HandleLogicalComponentOverflow ?c = Inr new"
      "unat (logical new) < 4096" "clock_value new = clock_value c + 1"
    using overflow_cases [of ?c] c(1) by (auto simp: clock_value_def)
  have "unat (ht_of (last_usec new) (logical new)) = clock_value c + 1"
    using new(3) c(2) unat_ht_of [of "last_usec new" "logical new"] by (simp add: clock_value_def)
  moreover have "unat (time_point now) * 4096 \<le> clock_value c" using le by (simp add: clock_value_def)
  ultimately show ?thesis
    using new by (simp add: NowWithError_def start unat_Decremented)
qed

lemma Update_result:
  assumes "unat (logical c) < 4096" "is_valid ht"
  shows "\<exists>c'. Update c ht = Inr c' \<and> clock_value c' = max (clock_value c) (unat ht + 1) \<and> unat (logical c') < 4096"
proof -
  let ?c = "\<lparr>last_usec = GetPhysicalValueMicros ht, logical = GetLogicalValue ht + 1\<rparr>"
  have l: "unat (logical ?c) = unat ht mod 4096 + 1" "unat ht mod 4096 < 4096"
    by (simp_all add: unat_word_ariths unat_logical)
  have "unat ht < 2 ^ 64" using unsigned_less [of ht] by simp
  then have p: "unat (last_usec ?c) < 2 ^ 63"
    by (simp add: unat_physical div_less_iff_less_mult)
  have v: "clock_value ?c = unat ht + 1" using l(1) by (simp add: clock_value_def unat_physical)
  obtain new where new: "HandleLogicalComponentOverflow ?c = Inr new"
      "unat (logical new) < 4096" "clock_value new = unat ht + 1"
    using overflow_cases [of ?c] l p v by fastforce
  then show ?thesis
    using assms components_less_value [OF assms(1) new(2)]
    by (auto simp: Update_def Update_start_def update_loop_def)
qed

lemma nanos_never_overflow: "GetPhysicalValueNanos ht = Inr (GetPhysicalValueMicros ht * 1000)"
proof -
  have "unat ht < 2 ^ 64" using unsigned_less [of ht] by simp
  then have "unat (drop_bit 12 ht) < 2 ^ 52"
    by (simp add: unat_drop_bit_div div_less_iff_less_mult)
  then show ?thesis
    by (simp add: GetPhysicalValueNanos_def GetPhysicalValueMicros_def word_le_nat_alt unat_div)
qed

section \<open>The logical clock\<close>

definition UpdateAtomicMax :: "uint64 \<Rightarrow> uint64 \<Rightarrow> uint64" where
  "UpdateAtomicMax current_max new_value = (if new_value > current_max then new_value else current_max)"

definition LogicalClock_NowRange :: "uint64 \<Rightarrow> uint64 \<times> hybrid_time \<times> hybrid_time" where
  "LogicalClock_NowRange now = (let result = now + 1 in (result, result, result))"

definition LogicalClock_Update :: "uint64 \<Rightarrow> hybrid_time \<Rightarrow> uint64" where
  "LogicalClock_Update now to_update = (if is_valid to_update then UpdateAtomicMax now to_update else now)"

definition CreateStartingAt :: "hybrid_time \<Rightarrow> uint64" where
  "CreateStartingAt ht = ht - 1"

inductive logical_step :: "uint64 \<Rightarrow> clock_event option \<Rightarrow> uint64 \<Rightarrow> bool" where
  now: "LogicalClock_NowRange n = (n', t, t) \<Longrightarrow> n < n' \<Longrightarrow> logical_step n (Some (Issued t)) n'"
| update: "is_valid t \<Longrightarrow> logical_step n (Some (Updated t)) (LogicalClock_Update n t)"

lemma logical_step_ok:
  assumes "logical_step n e n'"
  shows "unat n \<le> unat n'" "\<And>t. e = Some (Issued t) \<Longrightarrow> unat n < unat t"
    "\<And>x. e = Some x \<Longrightarrow> unat (event_time x) \<le> unat n'"
  using assms
  by (auto elim!: logical_step.cases simp: LogicalClock_NowRange_def Let_def LogicalClock_Update_def
      UpdateAtomicMax_def word_less_nat_alt split: if_splits)

interpretation logical_clock: clock "\<lambda>_. True" "\<lambda>n. unat n + 1" logical_step
  using logical_step_ok by unfold_locales (auto simp: Suc_le_eq less_Suc_eq_le)

section \<open>Properties\<close>

text \<open>Two threads read the clock at once; the second one loses the race and takes the slow path.\<close>

definition sample_flags :: clock_flags where
  "sample_flags = \<lparr>max_clock_skew_usec = 50000, fail_on_out_of_range_clock_skew = True,
                   clock_skew_control_enabled = True\<rparr>"

definition sample_now :: physical_time where
  "sample_now = \<lparr>time_point = 5, max_error = 1\<rparr>"

lemma sample_race:
  "\<exists>s. clock_run (clock_in_range sample_flags) clock_init [Issued (ht_of 5 0), Issued (ht_of 5 1)] s"
proof -
  let ?c0 = "\<lparr>last_usec = 0, logical = 0\<rparr>" and ?c1 = "\<lparr>last_usec = 5, logical = 1\<rparr>"
    and ?c2 = "\<lparr>last_usec = 5, logical = 2\<rparr>"
  let ?o1 = "Running (NowAdvance ?c0 sample_now)" and ?o3 = "NowReturns (ht_of 5 0) 1"
    and ?o4 = "Running (NowIncrement ?c1 sample_now)" and ?o5 = "NowReturns (ht_of 5 1) 1"
  define s1 s2 s3 s4 s5 where "s1 = move 0 ?c0 ?o1 clock_init" and "s2 = move 1 ?c0 ?o1 s1"
    and "s3 = move 1 ?c1 ?o3 s2" and "s4 = move 0 ?c1 ?o4 s3" and "s5 = move 0 ?c2 ?o5 s4"
  note defs = clock_in_range_def clock_init_def move_def clock_value_def s1_def s2_def s3_def s4_def s5_def
    NowWithError_start_def now_first_loop_def sample_now_def sample_flags_def
  have "clock_in_range sample_flags clock_init None s1"
    using clock_step.begin_now [of clock_init 0 sample_flags "Inr sample_now" ?o1] by (simp add: defs)
  moreover have "clock_in_range sample_flags s1 None s2"
    using clock_step.begin_now [of s1 1 sample_flags "Inr sample_now" ?o1] by (simp add: defs)
  moreover have "clock_in_range sample_flags s2 (Some (Issued (ht_of 5 0))) s3"
    using clock_step.cas [of False s2 1 ?c1 ?o3 sample_flags] by (simp add: defs FromMicros_def)
  moreover have "clock_in_range sample_flags s3 None s4"
    using clock_step.cas [of False s3 0 ?c1 ?o4 sample_flags] by (simp add: defs)
  moreover have "clock_in_range sample_flags s4 (Some (Issued (ht_of 5 1))) s5"
    using clock_step.cas [of False s4 0 ?c2 ?o5 sample_flags]
    by (simp add: defs HandleLogicalComponentOverflow_def kLogicalBitMask_def Decremented_def ht_of_def)
  moreover note run = clock_run.start [of "clock_in_range sample_flags" clock_init]
  ultimately show ?thesis
    using clock_run.step [OF clock_run.step [OF clock_run.step [OF clock_run.step [OF clock_run.step [OF run]]]],
        of None s1 None s2 "Some (Issued (ht_of 5 0))" s3 None s4 "Some (Issued (ht_of 5 1))" s5]
    by auto
qed

text \<open>
  C12. However the threads that use one \<open>HybridClock\<close> interleave, and however often their
  compare-and-swap fails, every hybrid time the clock hands out is larger than all times handed out
  and all times passed to \<open>Update\<close> before it, as long as the clock stays within 64 bits.
\<close>

theorem hybrid_clock_issues_in_order:
  assumes "clock_run (clock_in_range flags) clock_init es s"
  shows "clock_ordered es \<and> (\<forall>e\<in>set es. unat (event_time e) < clock_value (shared s))"
  using hybrid.run_ordered [OF assms clock_init_ok] by simp

theorem hybrid_clock_issues_in_order_witness:
  "(\<exists>s. clock_run (clock_in_range sample_flags) clock_init [Issued (ht_of 5 0), Issued (ht_of 5 1)] s) \<and>
   clock_ordered [Issued (ht_of 5 0), Issued (ht_of 5 1)]"
  using sample_race hybrid_clock_issues_in_order by blast

text \<open>
  C22. A call of \<open>NowWithError\<close> that meets no contention and a clock skew within the configured maximum
  returns the larger of the physical time and the next value of the clock, and moves the clock to
  the value after it.
\<close>

theorem now_with_error_returns_maximum:
  assumes "unat (logical c) < 4096" "clock_value c < 2 ^ 64 - 1" "unat (time_point now) < 2 ^ 52"
    and "unat (last_usec c) \<le> unat (time_point now) + unat (max_clock_skew_usec flags)"
  shows "\<exists>c' t err. NowWithError flags c (Inr now) = Inr (c', t, err) \<and>
    unat t = max (unat (time_point now) * 4096) (clock_value c) \<and>
    clock_value c' = unat t + 1 \<and> unat (logical c') < 4096"
  by (rule NowWithError_result [OF assms])

theorem now_with_error_returns_maximum_witness:
  "\<exists>c' t err. NowWithError sample_flags \<lparr>last_usec = 7, logical = 3\<rparr> (Inr sample_now) = Inr (c', t, err) \<and>
     unat t = 7 * 4096 + 3"
  using now_with_error_returns_maximum [of "\<lparr>last_usec = 7, logical = 3\<rparr>" sample_now sample_flags]
  by (auto simp: clock_value_def sample_now_def sample_flags_def)

text \<open>
  C15. \<open>Update\<close> with a valid time always succeeds and moves the clock forward exactly to the value
  after that time, or leaves it where it is when it is already past; so the next time handed out
  is larger. With the invalid time it does nothing.
\<close>

theorem update_moves_past:
  assumes "unat (logical c) < 4096"
  shows "(is_valid ht \<longrightarrow>
      (\<exists>c'. Update c ht = Inr c' \<and> clock_value c' = max (clock_value c) (unat ht + 1) \<and>
            unat (logical c') < 4096)) \<and>
    (\<not> is_valid ht \<longrightarrow> Update c ht = Inr c)"
  using Update_result [OF assms] by (simp add: Update_def Update_start_def)

theorem update_moves_past_witness:
  "\<exists>c'. Update \<lparr>last_usec = 0, logical = 0\<rparr> 4095 = Inr c' \<and> clock_value c' = 4096"
  using update_moves_past [of "\<lparr>last_usec = 0, logical = 0\<rparr>" 4095]
  by (auto simp: is_valid_def ht_consts clock_value_def)

text \<open>
  C24. The conversion to nanoseconds never fails its overflow check, and comparing two hybrid times
  to a zero delta agrees with comparing the hybrid times.
\<close>

theorem compare_to_zero_delta:
  "GetPhysicalValueNanos a = Inr (GetPhysicalValueMicros a * 1000) \<and>
   CompareHybridClocksToDelta a b 0 = Inr (CompareTo b a)"
proof -
  have "unat ht < 2 ^ 64" for ht :: hybrid_time using unsigned_less [of ht] by simp
  then have p: "unat (GetPhysicalValueMicros ht) < 2 ^ 52" for ht
    by (simp add: unat_physical div_less_iff_less_mult)
  have eq: "GetPhysicalValueMicros b * 1000 = GetPhysicalValueMicros a * 1000 \<longleftrightarrow>
      GetPhysicalValueMicros b = GetPhysicalValueMicros a"
    using p [of a] p [of b] by (simp add: word_unat_eq_iff unat_word_ariths)
  have "CompareHybridClocksToDelta a b 0 = Inr (CompareTo b a)"
  proof (cases a b rule: linorder_cases)
    case less
    then have "CompareTo a b < 0" "\<not> b < a" by (simp_all add: CompareTo_def)
    with less eq show ?thesis
      unfolding CompareTo_parts
      by (auto simp: nanos_never_overflow CompareHybridClocksToDelta_def CompareTo_def Let_def word_neq_0_conv [symmetric])
  next
    case equal
    then show ?thesis
      by (simp add: nanos_never_overflow CompareHybridClocksToDelta_def CompareTo_def Let_def)
  next
    case greater
    then show ?thesis by (simp add: CompareHybridClocksToDelta_def CompareTo_def)
  qed
  then show ?thesis by (simp add: nanos_never_overflow)
qed

text \<open>
  C23. The logical clock keeps the same contract: issued times are larger than all times issued or
  merged in before, as long as its counter does not wrap.
\<close>

theorem logical_clock_issues_in_order:
  assumes "clock_run logical_step (CreateStartingAt t) es n"
  shows "clock_ordered es \<and> (\<forall>e\<in>set es. unat (event_time e) \<le> unat n)"
  using logical_clock.run_ordered [OF assms] by (simp add: less_Suc_eq_le)

theorem logical_clock_issues_in_order_witness:
  "clock_run logical_step (CreateStartingAt 10) [Issued 10] 10 \<and> clock_ordered [Issued 10]"
proof -
  have "logical_step 9 (Some (Issued 10)) 10"
    by (rule logical_step.now) (simp_all add: LogicalClock_NowRange_def)
  then have "clock_run logical_step (CreateStartingAt 10) [Issued 10] 10"
    using clock_run.step [OF clock_run.start, of logical_step 9 "Some (Issued 10)" 10]
    by (simp add: CreateStartingAt_def)
  then show ?thesis using logical_clock_issues_in_order by blast
qed

end
