(* ===== verification/DocHybridTime.thy ===== *)
theory DocHybridTime
  imports FastVarInt HybridTime
begin

text \<open>
  The hybrid time with a write id that ends every document key,
  \<^verbatim>\<open>src/yb/common/doc_hybrid_time.cc\<close> and \<^verbatim>\<open>doc_hybrid_time.h\<close>: four descending varints, newest
  first in \<^verbatim>\<open>memcmp\<close> order, with the size of the whole encoding patched into the low bits of the
  last byte so that it can also be decoded from the end of a key.
\<close>

section \<open>Operations\<close>

record doc_hybrid_time =
  doc_time :: hybrid_time
  write_id :: uint32

definition kZNbaseMicrosecondEpoch :: uint64 where
  "kZNbaseMicrosecondEpoch = 1500000000 * 1000000"

definition kMaxBytesPerEncodedHybridTime :: nat where "kMaxBytesPerEncodedHybridTime = 30"

definition kHybridTimeSizeMask :: byte where "kHybridTimeSizeMask = push_bit 5 1 - 1"

definition doc_ht_CompareTo :: "doc_hybrid_time \<Rightarrow> doc_hybrid_time \<Rightarrow> int" where
  "doc_ht_CompareTo d e =
     (let ht_cmp = CompareTo (doc_time d) (doc_time e)
      in if ht_cmp \<noteq> 0 then ht_cmp
         else if write_id d < write_id e then - 1 else if write_id e < write_id d then 1 else 0)"

definition EncodedInDocDbFormat :: "doc_hybrid_time \<Rightarrow> slice" where
  "EncodedInDocDbFormat d =
     (let out =
            FastEncodeDescendingSignedVarInt 0 @
            FastEncodeDescendingSignedVarInt (GetPhysicalValueMicros (doc_time d) - kZNbaseMicrosecondEpoch) @
            FastEncodeDescendingSignedVarInt (ucast (GetLogicalValue (doc_time d))) @
            FastEncodeDescendingSignedVarInt (push_bit 5 (ucast (write_id d) + 1));
          last_byte = last out;
          encoded_size = of_nat (length out)
      in out[length out - 1 := (last_byte AND NOT kHybridTimeSizeMask) OR encoded_size])"

definition doc_ht_DecodeFrom :: "slice \<Rightarrow> (doc_hybrid_time \<times> slice) result" where
  "doc_ht_DecodeFrom s =
     bind_result (FastDecodeDescendingSignedVarInt s) (\<lambda>(_, s1).
     bind_result (FastDecodeDescendingSignedVarInt s1) (\<lambda>(micros, s2).
     bind_result (FastDecodeDescendingSignedVarInt s2) (\<lambda>(decoded_logical, s3).
     bind_result (FastDecodeDescendingSignedVarInt s3) (\<lambda>(decoded_shifted_write_id, s4).
       if sint decoded_shifted_write_id < 0 then Inl Corruption
       else
         let bytes_decoded = length s - length s4;
             size_at_the_end = unat (s ! (bytes_decoded - 1) AND kHybridTimeSizeMask)
         in if size_at_the_end \<noteq> bytes_decoded then Inl Corruption
            else Inr (\<lparr>doc_time = ht_of (kZNbaseMicrosecondEpoch + micros) (ucast decoded_logical),
                       write_id = ucast (drop_bit 5 decoded_shifted_write_id - 1)\<rparr>, s4)))))"

definition doc_ht_FullyDecodeFrom :: "slice \<Rightarrow> doc_hybrid_time result" where
  "doc_ht_FullyDecodeFrom encoded =
     bind_result (doc_ht_DecodeFrom encoded) (\<lambda>(d, s). if s \<noteq> [] then Inl Corruption else Inr d)"

definition CheckEncodedSize :: "nat \<Rightarrow> nat \<Rightarrow> unit result" where
  "CheckEncodedSize encoded_ht_size encoded_key_size =
     (if encoded_key_size = 0 then Inl RuntimeError
      else if \<not> encoded_ht_size \<ge> 1 then Inl Corruption
      else if \<not> encoded_ht_size \<le> kMaxBytesPerEncodedHybridTime then Inl Corruption
      else if \<not> encoded_ht_size < encoded_key_size then Inl Corruption
      else Inr ())"

definition GetEncodedSize :: "slice \<Rightarrow> nat" where
  "GetEncodedSize encoded_key =
     (if encoded_key = [] then 0 else unat (last encoded_key AND kHybridTimeSizeMask))"

definition CheckAndGetEncodedSize :: "slice \<Rightarrow> nat result" where
  "CheckAndGetEncodedSize encoded_key =
     (let encoded_ht_size = GetEncodedSize encoded_key
      in bind_result (CheckEncodedSize encoded_ht_size (length encoded_key)) (\<lambda>_. Inr encoded_ht_size))"

definition DecodeFromEnd :: "slice \<Rightarrow> (doc_hybrid_time \<times> slice) result" where
  "DecodeFromEnd key =
     bind_result (CheckAndGetEncodedSize key) (\<lambda>encoded_size.
     bind_result (doc_ht_FullyDecodeFrom (drop (length key - encoded_size) key)) (\<lambda>result.
       Inr (result, take (length key - encoded_size) key)))"

section \<open>The size in the last byte\<close>

lemma be_bytes_snoc: "be_bytes (Suc n) N = be_bytes n (N div 256) @ [of_nat N]"
  by (induction n) (simp_all add: div_mult2_eq mult.commute)

lemma be_bytes_low:
  assumes "N mod 256 + k < 256"
  shows "be_bytes n ((N + k) div 256) = be_bytes n (N div 256)"
proof -
  have "(N div 256 * 256 + (N mod 256 + k)) div 256 = N div 256"
    using assms div_mult_self3 [of 256 "N div 256" "N mod 256 + k"] by (simp only: div_less)
  also have "N div 256 * 256 + (N mod 256 + k) = N + k"
    by (simp only: add.assoc [symmetric] div_mult_mod_eq)
  finally show ?thesis by (simp only:)
qed

lemma patched_byte:
  assumes "N mod 32 = 0" "s \<le> 31"
  shows "(NOT (of_nat N) AND NOT kHybridTimeSizeMask) OR of_nat s = (NOT (of_nat (N + (31 - s))) :: byte)"
proof -
  define q where "q = N mod 256 div 32"
  have N: "N mod 256 = 32 * q" "q < 8"
  proof -
    have "N mod 256 mod 32 = 0" using assms(1) by (simp add: mod_mod_cancel)
    then show "N mod 256 = 32 * q" unfolding q_def using mult_div_mod_eq [of 32 "N mod 256"] by linarith
    show "q < 8" unfolding q_def by (simp add: div_less_iff_less_mult)
  qed
  let ?b = "of_nat N :: byte"
  have b: "unat ?b = 32 * q" using N by (simp only: unat_of_nat_byte)
  have m: "kHybridTimeSizeMask = mask 5" by (simp add: kHybridTimeSizeMask_def mask_eq_exp_minus_1)
  have "NOT ?b AND NOT (mask 5) = push_bit 5 (drop_bit 5 (NOT ?b))"
    by (rule bit_word_eqI) (auto simp: bit_simps)
  moreover have d: "unat (drop_bit 5 (NOT ?b)) = 7 - q"
  proof -
    have "255 - 32 * q = (7 - q) * 32 + 31" using N(2) by simp
    then show ?thesis by (simp only: unat_drop_bit_div unat_not_byte b) simp
  qed
  ultimately have "(NOT ?b AND NOT kHybridTimeSizeMask) OR of_nat s = push_bit 5 (drop_bit 5 (NOT ?b)) + of_nat s"
    unfolding m using assms(2) push_or_add [of "of_nat s :: byte" 5 "drop_bit 5 (NOT ?b)"]
    by (simp add: unat_of_nat_byte)
  moreover have "unat (push_bit 5 (drop_bit 5 (NOT ?b)) + of_nat s) = 224 - 32 * q + s"
    using d assms(2) N(2) by (simp add: push_bit_eq_mult unat_word_ariths unat_of_nat_byte)
  moreover have "unat (NOT (of_nat (N + (31 - s))) :: byte) = 224 - 32 * q + s"
  proof -
    have "(N + (31 - s)) mod 256 = (N mod 256 + (31 - s)) mod 256" by (simp add: mod_simps)
    then have "(N + (31 - s)) mod 256 = 32 * q + (31 - s)" using N by simp
    then show ?thesis using assms(2) N(2) by (simp only: unat_not_byte unat_of_nat_byte; simp)
  qed
  ultimately show ?thesis by (simp add: word_unat_eq_iff)
qed

lemma room_for_size: "x mod 32 = 0 \<Longrightarrow> x < 256 \<Longrightarrow> r \<le> 31 \<Longrightarrow> x + r < 256" for x r :: nat
  by presburger

lemma signed_length_same:
  assumes "unat w = 32 * q" "unat w' = 32 * q + k" "k < 32"
  shows "SignedPositiveVarIntLength w' = SignedPositiveVarIntLength w"
proof (rule antisym)
  let ?n = "SignedPositiveVarIntLength w" and ?m = "SignedPositiveVarIntLength w'"
  show "?n \<le> ?m" using assms by (intro slen.length_mono) simp
  show "?m \<le> ?n"
  proof (rule ccontr)
    assume "\<not> ?m \<le> ?n"
    then have m: "?n < ?m" "2 \<le> ?m" using slen.length_bounds(1) [of w] by simp_all
    define e where "e = 7 * (?m - 1) - 6"
    have e: "7 * (?m - 1) - 1 = 5 + e" using m(2) by (simp add: e_def)
    have "(2 :: nat) ^ (7 * (?m - 1) - 1) = 32 * 2 ^ e" unfolding e by (simp add: power_add)
    then have "32 * 2 ^ e \<le> 32 * q + k" using slen.length_bounds(4) [of w'] m(2) assms(2) by simp
    moreover have "32 * a \<le> 32 * q + k \<Longrightarrow> a \<le> q" for a using assms(3) by presburger
    ultimately have "32 * 2 ^ e \<le> 32 * q" by simp
    moreover have "32 * q < 2 ^ (7 * ?n - 1)" using slen.length_bounds(3) [of w] assms(1) by simp
    moreover have "(2 :: nat) ^ (7 * ?n - 1) \<le> 2 ^ (7 * (?m - 1) - 1)"
      using m(1) by (intro power_increasing) auto
    ultimately show False using \<open>2 ^ (7 * (?m - 1) - 1) = 32 * 2 ^ e\<close> by linarith
  qed
qed

lemma signed_code_mod32: "1 \<le> n \<Longrightarrow> u mod 32 = 0 \<Longrightarrow> varint_code (Suc 0) n u mod 32 = 0"
proof -
  assume n: "1 \<le> n" and u: "u mod 32 = 0"
  then have "7 * n + 1 - Suc 0 = 5 + (7 * n - 5)" by simp
  then have "2 ^ (7 * n + 1 - Suc 0) = 32 * (2 :: nat) ^ (7 * n - 5)" by (simp only: power_add; simp)
  then show ?thesis using u by (simp add: varint_code_def mod_add_eq mult.left_commute [of _ 32])
qed

lemma descending_positive:
  assumes "0 < unat w" "unat w < 2 ^ 63"
  shows "FastEncodeDescendingSignedVarInt w = map (\<lambda>b. NOT b) (slen.layout_bytes w)"
proof -
  have "int (unat w) < 2 ^ 63" using assms(2) by (metis of_nat_less_iff of_nat_numeral of_nat_power)
  have s: "sint w = int (unat w)"
  proof (cases "sint w < 0")
    case True
    with sint_conv_unat [of w] have "sint w = int (unat w) - 2 ^ 64" by (simp only: if_True)
    with \<open>int (unat w) < 2 ^ 63\<close> sint_range(1) [of w] show ?thesis by simp
  next
    case False
    with sint_conv_unat [of w] show ?thesis by (simp only: if_False diff_zero)
  qed
  have "0 < sint w" using assms(1) unfolding s by (simp only: of_nat_0_less_iff)
  then have "negatable w" by (simp add: negatable_def)
  with \<open>0 < sint w\<close> have "sint (- w) < 0" by (simp add: sint_uminus)
  then show ?thesis
    by (simp add: FastEncodeDescendingSignedVarInt_def FastEncodeSignedVarInt_layout magnitude_def)
qed

lemma patch_last_varint:
  fixes w :: uint64
  assumes w: "unat w = 32 * q" "0 < q" "unat w < 2 ^ 60" and s: "s \<le> 31"
  defines "bs \<equiv> FastEncodeDescendingSignedVarInt w"
  shows "butlast bs @ [(last bs AND NOT kHybridTimeSizeMask) OR of_nat s] =
    FastEncodeDescendingSignedVarInt (w + of_nat (31 - s))" "bs \<noteq> []"
    "length (FastEncodeDescendingSignedVarInt (w + of_nat (31 - s))) = length bs"
proof -
  let ?w' = "w + of_nat (31 - s)" and ?n = "SignedPositiveVarIntLength w"
  have "unat (of_nat (31 - s) :: uint64) = 31 - s" by (simp only: unat_of_nat; simp)
  then have w': "unat ?w' = 32 * q + (31 - s)" using w s by (simp add: unat_word_ariths)
  have n: "SignedPositiveVarIntLength ?w' = ?n" by (rule signed_length_same [OF w(1) w']) simp
  obtain m where m: "?n = Suc m" using slen.length_bounds(1) [of w] by (cases ?n) simp_all
  define C where "C = varint_code (Suc 0) ?n (unat w)"
  have C32: "C mod 32 = 0" unfolding C_def using w(1) slen.length_bounds(1) [of w] by (intro signed_code_mod32) simp_all
  have C': "varint_code (Suc 0) ?n (unat ?w') = C + (31 - s)" by (simp only: C_def varint_code_def w(1) w' add.assoc)
  have bs: "bs = map (\<lambda>b. NOT b) (be_bytes m (C div 256) @ [of_nat C])"
    unfolding bs_def C_def using w descending_positive [of w] m
    by (simp add: slen.layout_bytes_def be_bytes_snoc del: be_bytes.simps)
  have "C mod 256 mod 32 = 0" using C32 by (simp add: mod_mod_cancel)
  then have "C mod 256 + (31 - s) < 256"
    by (rule room_for_size) simp_all
  then have "FastEncodeDescendingSignedVarInt ?w' = map (\<lambda>b. NOT b) (be_bytes m (C div 256) @ [of_nat (C + (31 - s))])"
    using w w' descending_positive [of ?w'] m n C'
    by (simp add: slen.layout_bytes_def be_bytes_snoc be_bytes_low del: be_bytes.simps of_nat_add of_nat_diff)
  then show "butlast bs @ [(last bs AND NOT kHybridTimeSizeMask) OR of_nat s] = FastEncodeDescendingSignedVarInt ?w'"
    "length (FastEncodeDescendingSignedVarInt ?w') = length bs"
    using patched_byte [OF C32 s] by (simp_all add: bs butlast_append del: of_nat_add of_nat_diff)
  show "bs \<noteq> []" by (simp add: bs)
qed

section \<open>The four parts\<close>

definition micros_part :: "doc_hybrid_time \<Rightarrow> uint64" where
  "micros_part d = GetPhysicalValueMicros (doc_time d) - kZNbaseMicrosecondEpoch"

definition logical_part :: "doc_hybrid_time \<Rightarrow> uint64" where
  "logical_part d = ucast (GetLogicalValue (doc_time d))"

definition write_part :: "doc_hybrid_time \<Rightarrow> uint64" where
  "write_part d = push_bit 5 (ucast (write_id d) + 1)"

definition prefix_parts :: "doc_hybrid_time \<Rightarrow> slice" where
  "prefix_parts d = FastEncodeDescendingSignedVarInt 0 @ FastEncodeDescendingSignedVarInt (micros_part d) @
     FastEncodeDescendingSignedVarInt (logical_part d)"

lemma sint_small: "unat a < 2 ^ 63 \<Longrightarrow> sint a = int (unat a)" for a :: uint64
proof -
  assume "unat a < 2 ^ 63"
  then have "int (unat a) < 2 ^ 63" by (metis of_nat_less_iff of_nat_numeral of_nat_power)
  show ?thesis
  proof (cases "sint a < 0")
    case True
    with sint_conv_unat [of a] have "sint a = int (unat a) - 2 ^ 64" by (simp only: if_True)
    with \<open>int (unat a) < 2 ^ 63\<close> sint_range(1) [of a] show ?thesis by simp
  next
    case False
    with sint_conv_unat [of a] show ?thesis by (simp only: if_False diff_zero)
  qed
qed

lemma physical_range: "unat (GetPhysicalValueMicros v) < 2 ^ 52"
proof -
  have "unat v < 2 ^ 64" using unsigned_less [of v] by simp
  then show ?thesis by (simp add: unat_physical div_less_iff_less_mult)
qed

lemma sint_micros_part:
  "sint (micros_part d) = int (unat (GetPhysicalValueMicros (doc_time d))) - 1500000000000000"
proof -
  have "sint (GetPhysicalValueMicros (doc_time d)) = int (unat (GetPhysicalValueMicros (doc_time d)))"
    using physical_range [of "doc_time d"] by (intro sint_small) simp
  moreover have "sint kZNbaseMicrosecondEpoch = 1500000000000000" by (simp add: kZNbaseMicrosecondEpoch_def)
  moreover have "int (unat (GetPhysicalValueMicros (doc_time d))) < 2 ^ 52"
    using physical_range [of "doc_time d"] by (metis of_nat_less_iff of_nat_numeral of_nat_power)
  ultimately show ?thesis
    unfolding micros_part_def sint_word_ariths
    by (intro signed_take_bit_int_eq_self [THEN trans]) simp_all
qed

lemma sint_micros_range: "- 1500000000000000 \<le> sint (micros_part d)" "sint (micros_part d) < 2 ^ 52"
proof -
  define p where "p = int (unat (GetPhysicalValueMicros (doc_time d)))"
  have "0 \<le> p" "p < 2 ^ 52"
    using physical_range [of "doc_time d"] unfolding p_def
    by (metis of_nat_0_le_iff, metis of_nat_less_iff of_nat_numeral of_nat_power)
  then show "- 1500000000000000 \<le> sint (micros_part d)" "sint (micros_part d) < 2 ^ 52"
    unfolding sint_micros_part p_def [symmetric] by simp_all
qed

lemma unat_logical_part: "unat (logical_part d) = unat (doc_time d) mod 4096"
  by (simp add: logical_part_def unat_ucast_up unat_logical)

lemma unat_write_part: "unat (write_part d) = 32 * (unat (write_id d) + 1)"
proof -
  have w: "unat (write_id d) < 2 ^ 32" using unsigned_less [of "write_id d"] by simp
  have "unat (ucast (write_id d) :: uint64) = unat (write_id d)" by (simp add: unat_ucast_up)
  then show ?thesis using w by (simp add: write_part_def push_bit_eq_mult unat_word_ariths)
qed

lemma length_descending:
  assumes "\<bar>sint v\<bar> < 2 ^ (7 * n - 1)" "1 \<le> n" "negatable v"
  shows "1 \<le> length (FastEncodeDescendingSignedVarInt v)" "length (FastEncodeDescendingSignedVarInt v) \<le> n"
proof -
  let ?u = "magnitude (- v)"
  have len: "length (FastEncodeDescendingSignedVarInt v) = SignedPositiveVarIntLength ?u"
    by (simp add: FastEncodeDescendingSignedVarInt_def FastEncodeSignedVarInt_layout)
  have "int (unat ?u) < 2 ^ (7 * n - 1)" unfolding int_magnitude using assms by (simp add: sint_uminus)
  then have u: "unat ?u < 2 ^ (7 * n - 1)" by (metis of_nat_less_iff of_nat_numeral of_nat_power)
  show "1 \<le> length (FastEncodeDescendingSignedVarInt v)" using slen.length_bounds(1) len by simp
  show "length (FastEncodeDescendingSignedVarInt v) \<le> n"
  proof (rule ccontr)
    assume "\<not> ?thesis"
    then have gt: "n < SignedPositiveVarIntLength ?u" using len by simp
    then have "(2 :: nat) ^ (7 * n - 1) \<le> 2 ^ (7 * (SignedPositiveVarIntLength ?u - 1) - 1)"
      by (intro power_increasing) auto
    moreover have "2 ^ (7 * (SignedPositiveVarIntLength ?u - 1) - 1) \<le> unat ?u"
      using slen.length_bounds(4) [of ?u] gt assms(2) by simp
    ultimately show False using u by linarith
  qed
qed

lemma parts_negatable: "negatable 0" "negatable (micros_part d)" "negatable (logical_part d)"
proof -
  show "negatable 0" by (simp add: negatable_def)
  show "negatable (micros_part d)" using sint_micros_range [of d] by (simp add: negatable_def)
  have l: "unat (logical_part d) < 4096" by (simp add: unat_logical_part)
  then have "sint (logical_part d) = int (unat (logical_part d))" by (intro sint_small) simp
  then have "0 \<le> sint (logical_part d)" by (simp only: of_nat_0_le_iff)
  then show "negatable (logical_part d)" by (simp add: negatable_def)
qed

lemma sint_logical_part: "sint (logical_part d) = int (unat (doc_time d) mod 4096)"
proof -
  have "unat (logical_part d) < 2 ^ 63" by (simp add: unat_logical_part less_trans [OF mod_less_divisor])
  then show ?thesis using sint_small [of "logical_part d"] by (simp only: unat_logical_part)
qed

lemma length_parts:
  "length (FastEncodeDescendingSignedVarInt 0) = 1"
  "length (prefix_parts d) \<le> 11"
proof -
  show z: "length (FastEncodeDescendingSignedVarInt 0) = 1"
    using length_descending [of 0 1] parts_negatable(1) by simp
  have "\<bar>sint (micros_part d)\<bar> < 2 ^ (7 * 8 - 1)" using sint_micros_range [of d] by simp
  from length_descending(2) [OF this _ parts_negatable(2)]
  have m: "length (FastEncodeDescendingSignedVarInt (micros_part d)) \<le> 8" by simp
  define l where "l = unat (doc_time d) mod 4096"
  have "l < 4096" by (simp add: l_def)
  then have "\<bar>sint (logical_part d)\<bar> < 2 ^ (7 * 2 - 1)"
    unfolding sint_logical_part l_def [symmetric] by simp
  from length_descending(2) [OF this _ parts_negatable(3)]
  have "length (FastEncodeDescendingSignedVarInt (logical_part d)) \<le> 2" by simp
  with z m show "length (prefix_parts d) \<le> 11" by (simp add: prefix_parts_def)
qed

section \<open>Layout of the encoding\<close>

lemma list_update_last: "xs \<noteq> [] \<Longrightarrow> xs[length xs - 1 := y] = butlast xs @ [y]"
  by (induction xs rule: rev_induct) simp_all

lemma encoded_layout:
  defines "n d \<equiv> length (EncodedInDocDbFormat d)"
  shows "EncodedInDocDbFormat d = prefix_parts d @ FastEncodeDescendingSignedVarInt (write_part d + of_nat (31 - n d))"
    "n d \<le> 17" "1 \<le> n d" "unat (last (EncodedInDocDbFormat d) AND kHybridTimeSizeMask) = n d"
proof -
  let ?w = "write_part d" let ?last = "FastEncodeDescendingSignedVarInt ?w"
  let ?out = "prefix_parts d @ ?last"
  have wid: "unat (write_id d) < 2 ^ 32" using unsigned_less [of "write_id d"] by simp
  have w: "unat ?w = 32 * (unat (write_id d) + 1)" "0 < unat (write_id d) + 1" "unat ?w < 2 ^ 60"
    using wid by (simp_all add: unat_write_part)
  then have "sint ?w = int (unat ?w)" by (intro sint_small) simp
  moreover have "unat ?w < 2 ^ 40" using w(1) wid by simp
  moreover have "int (unat ?w) < 2 ^ 40" using \<open>unat ?w < 2 ^ 40\<close> by (metis of_nat_less_iff of_nat_numeral of_nat_power)
  ultimately have s: "0 \<le> sint ?w" "sint ?w < 2 ^ 40" by simp_all
  then have "length ?last \<le> 6" by (intro length_descending(2)) (simp_all add: negatable_def)
  then have len: "length ?out \<le> 17" using length_parts(2) [of d] by simp
  note patch = patch_last_varint [OF w, of "length ?out"]
  have ne: "?last \<noteq> []" using patch(2) len by simp
  have enc: "EncodedInDocDbFormat d =
      butlast ?out @ [(last ?out AND NOT kHybridTimeSizeMask) OR of_nat (length ?out)]"
  proof -
    have "EncodedInDocDbFormat d =
        ?out[length ?out - 1 := (last ?out AND NOT kHybridTimeSizeMask) OR of_nat (length ?out)]"
      by (simp only: EncodedInDocDbFormat_def Let_def prefix_parts_def micros_part_def logical_part_def
          write_part_def append_assoc)
    then show ?thesis using list_update_last [of ?out] ne by simp
  qed
  then have n: "n d = length ?out" using ne unfolding n_def by simp
  show "EncodedInDocDbFormat d = prefix_parts d @ FastEncodeDescendingSignedVarInt (?w + of_nat (31 - n d))"
    unfolding enc n using patch(1) len ne by (simp add: butlast_append)
  show "n d \<le> 17" "1 \<le> n d" using n len ne by (simp_all add: Suc_le_eq)
  have m: "kHybridTimeSizeMask = mask 5" by (simp add: kHybridTimeSizeMask_def mask_eq_exp_minus_1)
  have "((b AND NOT (mask 5)) OR c) AND mask 5 = take_bit 5 c" for b c :: byte
    by (rule bit_word_eqI) (auto simp: bit_simps)
  then have "last (EncodedInDocDbFormat d) AND kHybridTimeSizeMask = take_bit 5 (of_nat (length ?out))"
    unfolding enc m by simp
  then show "unat (last (EncodedInDocDbFormat d) AND kHybridTimeSizeMask) = n d"
    using len n by (simp only: unat_take_bit_mod unat_of_nat_byte) simp
qed

definition last_part :: "doc_hybrid_time \<Rightarrow> uint64" where
  "last_part d = write_part d + of_nat (31 - length (EncodedInDocDbFormat d))"

lemma last_part_value:
  "unat (last_part d) = 32 * (unat (write_id d) + 1) + (31 - length (EncodedInDocDbFormat d))"
  "sint (last_part d) = int (unat (last_part d))" "negatable (last_part d)"
proof -
  let ?r = "31 - length (EncodedInDocDbFormat d)"
  have wid: "unat (write_id d) < 2 ^ 32" using unsigned_less [of "write_id d"] by simp
  have "unat (of_nat ?r :: uint64) = ?r" by (simp only: unat_of_nat; simp)
  then show v: "unat (last_part d) = 32 * (unat (write_id d) + 1) + ?r"
    using wid by (simp add: last_part_def unat_word_ariths unat_write_part)
  then have "unat (last_part d) < 2 ^ 63" using wid by simp
  then show s: "sint (last_part d) = int (unat (last_part d))" by (rule sint_small)
  then have "0 \<le> sint (last_part d)" by (simp only: of_nat_0_le_iff)
  then show "negatable (last_part d)" by (simp add: negatable_def)
qed

lemma decoded_write_id: "ucast (drop_bit 5 (last_part d) - 1) = write_id d"
proof -
  let ?r = "31 - length (EncodedInDocDbFormat d)"
  have "unat (drop_bit 5 (last_part d)) = unat (write_id d) + 1"
    by (simp add: unat_drop_bit_div last_part_value(1))
  then have u: "unat (drop_bit 5 (last_part d) - 1) = unat (write_id d)"
    by (simp add: unat_sub word_le_nat_alt)
  have "unat (ucast (drop_bit 5 (last_part d) - 1) :: uint32) = unat (write_id d) mod 2 ^ 32"
    by (simp add: unsigned_ucast_eq take_bit_eq_mod u)
  moreover have "unat (write_id d) < 2 ^ 32" using unsigned_less [of "write_id d"] by simp
  ultimately show ?thesis by (simp add: word_unat_eq_iff)
qed

lemma decoded_time:
  "ht_of (kZNbaseMicrosecondEpoch + micros_part d) (ucast (logical_part d)) = doc_time d"
proof -
  have "(ucast (logical_part d) :: uint32) = GetLogicalValue (doc_time d)"
    unfolding logical_part_def by (rule bit_word_eqI) (simp add: bit_simps)
  then show ?thesis by (simp add: micros_part_def ht_of_parts)
qed

lemma encoded_parts:
  "EncodedInDocDbFormat d =
     FastEncodeDescendingSignedVarInt 0 @ FastEncodeDescendingSignedVarInt (micros_part d) @
     FastEncodeDescendingSignedVarInt (logical_part d) @ FastEncodeDescendingSignedVarInt (last_part d)"
  using encoded_layout(1) [of d] by (simp add: prefix_parts_def last_part_def)

lemma doc_ht_DecodeFrom_encoded: "doc_ht_DecodeFrom (EncodedInDocDbFormat d @ rest) = Inr (d, rest)"
proof -
  let ?e = "EncodedInDocDbFormat d"
  have "?e \<noteq> []" using encoded_layout(3) [of d] by auto
  then have "(?e @ rest) ! (length ?e - 1) = last ?e" by (simp add: nth_append last_conv_nth)
  moreover have "\<not> sint (last_part d) < 0" by (simp only: last_part_value(2) of_nat_less_0_iff; simp)
  moreover note descending_key.round_trip [OF parts_negatable(1)] descending_key.round_trip [OF parts_negatable(2)]
    descending_key.round_trip [OF parts_negatable(3)] descending_key.round_trip [OF last_part_value(3)]
  ultimately show ?thesis
    using encoded_layout(4) [of d] decoded_time [of d] decoded_write_id [of d]
    by (simp add: doc_ht_DecodeFrom_def encoded_parts Let_def)
qed

lemma doc_time_parts_less:
  "CompareTo (doc_time e) (doc_time d) < 0 \<longleftrightarrow>
     sint (micros_part e) < sint (micros_part d) \<or>
     (micros_part e = micros_part d \<and> sint (logical_part e) < sint (logical_part d))"
  "micros_part e = micros_part d \<Longrightarrow> logical_part e = logical_part d \<Longrightarrow> doc_time e = doc_time d"
proof -
  have m: "micros_part e = micros_part d \<longleftrightarrow> GetPhysicalValueMicros (doc_time e) = GetPhysicalValueMicros (doc_time d)"
    by (simp add: micros_part_def)
  have l: "sint (logical_part e) < sint (logical_part d) \<longleftrightarrow> GetLogicalValue (doc_time e) < GetLogicalValue (doc_time d)"
    by (simp only: sint_logical_part word_less_nat_alt unat_logical of_nat_less_iff)
  show "CompareTo (doc_time e) (doc_time d) < 0 \<longleftrightarrow>
     sint (micros_part e) < sint (micros_part d) \<or>
     (micros_part e = micros_part d \<and> sint (logical_part e) < sint (logical_part d))"
    unfolding CompareTo_parts m l sint_micros_part by (simp add: word_less_def)
  show "micros_part e = micros_part d \<Longrightarrow> logical_part e = logical_part d \<Longrightarrow> doc_time e = doc_time d"
    using decoded_time [of d] decoded_time [of e] by simp
qed

lemma high_bits_less:
  "a \<noteq> b \<Longrightarrow> s < 32 \<Longrightarrow> r < 32 \<Longrightarrow> 32 * (a + 1) + r < 32 * (b + 1) + s \<longleftrightarrow> a < b" for a b r s :: nat
  by (cases a b rule: linorder_cases) simp_all

lemma last_part_less:
  "write_id e \<noteq> write_id d \<Longrightarrow> sint (last_part e) < sint (last_part d) \<longleftrightarrow> write_id e < write_id d"
proof -
  assume ne: "write_id e \<noteq> write_id d"
  have r: "31 - length (EncodedInDocDbFormat d) < 32" "31 - length (EncodedInDocDbFormat e) < 32" by simp_all
  have "sint (last_part e) < sint (last_part d) \<longleftrightarrow> unat (last_part e) < unat (last_part d)"
    by (simp only: last_part_value(2) of_nat_less_iff)
  also have "\<dots> \<longleftrightarrow> unat (write_id e) < unat (write_id d)"
    using ne r unfolding last_part_value(1) word_unat_eq_iff by (intro high_bits_less)
  finally show ?thesis by (simp only: word_less_nat_alt)
qed

lemma doc_ht_CompareTo_less:
  "doc_ht_CompareTo e d < 0 \<longleftrightarrow>
     CompareTo (doc_time e) (doc_time d) < 0 \<or> (doc_time e = doc_time d \<and> write_id e < write_id d)"
  by (auto simp: doc_ht_CompareTo_def CompareTo_def Let_def)

lemma encoded_less:
  assumes "doc_ht_CompareTo e d < 0"
  shows "bytes_less (EncodedInDocDbFormat d) (EncodedInDocDbFormat e)"
proof -
  note n = parts_negatable last_part_value(3)
  note less = descending_key.append_less_iff [OF n(1) n(1)] descending_key.append_less_iff [OF n(2) n(2)]
    descending_key.append_less_iff [OF n(3) n(3)] descending_key.enc_less_iff [OF n(4) n(4)]
  consider "sint (micros_part e) < sint (micros_part d)"
    | "micros_part e = micros_part d" "sint (logical_part e) < sint (logical_part d)"
    | "doc_time e = doc_time d" "write_id e < write_id d"
    using assms unfolding doc_ht_CompareTo_less doc_time_parts_less(1) by blast
  then show ?thesis
  proof cases
    case 3
    then have "micros_part e = micros_part d" "logical_part e = logical_part d" "sint (last_part e) < sint (last_part d)"
      using last_part_less [of e d] by (auto simp: micros_part_def logical_part_def)
    then show ?thesis unfolding encoded_parts less by simp
  qed (simp_all add: encoded_parts less)
qed

interpretation doc_ht_key: key_encoding
  EncodedInDocDbFormat doc_ht_DecodeFrom "\<lambda>_. True" "\<lambda>d e. doc_ht_CompareTo e d < 0"
proof
  fix x y :: doc_hybrid_time
  show "doc_ht_CompareTo y x < 0 \<or> doc_ht_CompareTo x y < 0" if "x \<noteq> y"
    using that by (cases x; cases y) (auto simp: doc_ht_CompareTo_less CompareTo_def)
qed (simp_all add: doc_ht_DecodeFrom_encoded encoded_less)

lemma DecodeFromEnd_encoded:
  "DecodeFromEnd (key @ EncodedInDocDbFormat d) =
     (if key = [] then Inl Corruption else Inr (d, key))"
proof -
  let ?e = "EncodedInDocDbFormat d"
  note e = encoded_layout [of d]
  have ne: "?e \<noteq> []" using e(3) by auto
  then have size: "GetEncodedSize (key @ ?e) = length ?e" by (simp add: GetEncodedSize_def e(4))
  have "doc_ht_FullyDecodeFrom ?e = Inr d"
    using doc_ht_key.round_trip [of d "[]"] by (simp add: doc_ht_FullyDecodeFrom_def)
  then show ?thesis
    using ne e(2,3)
    by (simp add: DecodeFromEnd_def CheckAndGetEncodedSize_def CheckEncodedSize_def size
        kMaxBytesPerEncodedHybridTime_def Let_def)
qed

section \<open>Properties\<close>

text \<open>
  C25. Encoded document hybrid times are key parts in descending order: decoding from the front gives
  the time and the rest, and in \<^verbatim>\<open>memcmp\<close> order later times (and larger write ids) come first,
  whatever follows them.
\<close>

theorem doc_hybrid_time_is_key_part:
  "doc_ht_DecodeFrom (EncodedInDocDbFormat d @ rest) = Inr (d, rest) \<and>
   (bytes_less (EncodedInDocDbFormat d @ r) (EncodedInDocDbFormat e @ s) \<longleftrightarrow>
      doc_ht_CompareTo e d < 0 \<or> (d = e \<and> bytes_less r s))"
  by (simp add: doc_ht_key.round_trip doc_ht_key.append_less_iff)

text \<open>
  C14. The size stored in the last byte lets a time be decoded from the end of any key: it is returned
  with the key in front of it, unless there is none. The encoding takes at most 17 bytes, well
  below the declared bound of 30.
\<close>

theorem doc_hybrid_time_from_end:
  "DecodeFromEnd (key @ EncodedInDocDbFormat d) = (if key = [] then Inl Corruption else Inr (d, key)) \<and>
   GetEncodedSize (key @ EncodedInDocDbFormat d) = length (EncodedInDocDbFormat d) \<and>
   length (EncodedInDocDbFormat d) \<le> 17"
  using encoded_layout(2-4) [of d] DecodeFromEnd_encoded [of key d]
  by (cases "EncodedInDocDbFormat d = []") (simp_all add: GetEncodedSize_def)

end
