(* ===== verification/DocKvUtil.thy ===== *)
theory DocKvUtil
  imports DocHybridTime
begin

text \<open>
  Strings and times inside document keys, \<^verbatim>\<open>src/yb/docdb/doc_kv_util.cc\<close> and \<^verbatim>\<open>doc_kv_util.h\<close>.
  The template parameter \<open>END_OF_STRING\<close> is an argument: 0 for the ascending encoding, 255 for the
  descending one. A key buffer that is appended to is passed and returned.
\<close>

section \<open>Operations\<close>

definition AppendEncodedStrToKey :: "byte \<Rightarrow> slice \<Rightarrow> slice \<Rightarrow> slice" where
  "AppendEncodedStrToKey END_OF_STRING s dest =
     (if END_OF_STRING = 0 \<and> 0 \<notin> set s then dest @ s
      else dest @ concat (map (\<lambda>c. if c = 0 then [END_OF_STRING, END_OF_STRING XOR 1]
                                   else [END_OF_STRING XOR c]) s))"

definition TerminateEncodedKeyStr :: "byte \<Rightarrow> slice \<Rightarrow> slice" where
  "TerminateEncodedKeyStr A dest = dest @ [A, A]"

definition ZeroEncodeAndAppendStrToKey :: "slice \<Rightarrow> slice \<Rightarrow> slice" where
  "ZeroEncodeAndAppendStrToKey s dest = TerminateEncodedKeyStr 0 (AppendEncodedStrToKey 0 s dest)"

definition ComplementZeroEncodeAndAppendStrToKey :: "slice \<Rightarrow> slice \<Rightarrow> slice" where
  "ComplementZeroEncodeAndAppendStrToKey s dest =
     TerminateEncodedKeyStr 0xff (AppendEncodedStrToKey 0xff s dest)"

fun DecodeEncodedStr :: "byte \<Rightarrow> slice \<Rightarrow> slice \<Rightarrow> (slice \<times> slice) result" where
  "DecodeEncodedStr END_OF_STRING [] result = Inr (result, [])"
| "DecodeEncodedStr END_OF_STRING (c # p) result =
     (if c = END_OF_STRING then
        case p of
          [] \<Rightarrow> Inl Corruption
        | d # p' \<Rightarrow>
            if d = END_OF_STRING then Inr (result, p')
            else if d = END_OF_STRING XOR 1 then DecodeEncodedStr END_OF_STRING p' (result @ [0])
            else Inl Corruption
      else DecodeEncodedStr END_OF_STRING p (result @ [c XOR END_OF_STRING]))"

definition DecodeZeroEncodedStr :: "slice \<Rightarrow> (slice \<times> slice) result" where
  "DecodeZeroEncodedStr s = DecodeEncodedStr 0 s []"

definition DecodeComplementZeroEncodedStr :: "slice \<Rightarrow> (slice \<times> slice) result" where
  "DecodeComplementZeroEncodedStr s = DecodeEncodedStr 0xff s []"

definition DecodeZeroEncodedStr_full :: "slice \<Rightarrow> slice result" where
  "DecodeZeroEncodedStr_full encoded_str =
     (case DecodeZeroEncodedStr encoded_str of
        Inl _ \<Rightarrow> Inl Fatal
      | Inr (result, rest) \<Rightarrow> if rest \<noteq> [] then Inl Fatal else Inr result)"

definition AppendUInt16ToKey :: "uint16 \<Rightarrow> slice \<Rightarrow> slice" where
  "AppendUInt16ToKey val dest = dest @ be_bytes 2 (unat val)"

definition AppendUInt32ToKey :: "uint32 \<Rightarrow> slice \<Rightarrow> slice" where
  "AppendUInt32ToKey val dest = dest @ be_bytes 4 (unat val)"

definition AppendUInt64ToKey :: "uint64 \<Rightarrow> slice \<Rightarrow> slice" where
  "AppendUInt64ToKey val dest = dest @ be_bytes 8 (unat val)"

definition kHybridTime :: byte where "kHybridTime = 35"

definition CheckHybridTimeSizeAndValueType :: "slice \<Rightarrow> nat result" where
  "CheckHybridTimeSizeAndValueType key =
     bind_result (CheckAndGetEncodedSize key) (\<lambda>ht_byte_size.
       let hybrid_time_value_type_offset = length key - ht_byte_size - 1
       in if key ! hybrid_time_value_type_offset \<noteq> kHybridTime then Inl Corruption else Inr ht_byte_size)"

definition DecodeInvertedDocHt :: "slice \<Rightarrow> doc_hybrid_time result" where
  "DecodeInvertedDocHt key_slice =
     (if key_slice = [] \<or> length key_slice > kMaxBytesPerEncodedHybridTime + 1 then Inl Corruption
      else
        let key_slice = map (\<lambda>b. NOT b) key_slice
        in if hd key_slice \<noteq> kHybridTime then Inl Corruption
           else bind_result (doc_ht_DecodeFrom (tl key_slice)) (\<lambda>(doc_ht, _). Inr doc_ht))"

section \<open>Strings\<close>

text \<open>\<^verbatim>\<open>std::string\<close> comparison: a proper prefix is smaller.\<close>

fun str_less :: "slice \<Rightarrow> slice \<Rightarrow> bool" where
  "str_less [] (y # ys) = True"
| "str_less (x # xs) (y # ys) = (x < y \<or> (x = y \<and> str_less xs ys))"
| "str_less _ [] = False"

lemma str_less_total: "s \<noteq> t \<Longrightarrow> str_less s t \<or> str_less t s"
proof (induction s t rule: str_less.induct)
  case (3 s)
  then show ?case by (cases s) simp_all
qed auto

definition escape :: "byte \<Rightarrow> slice \<Rightarrow> slice" where
  "escape e s = concat (map (\<lambda>c. if c = 0 then [e, e XOR 1] else [e XOR c]) s)"

lemma escape_simps [simp]:
  "escape e [] = []"
  "escape e (c # s) = (if c = 0 then [e, e XOR 1] else [e XOR c]) @ escape e s"
  by (simp_all add: escape_def)

lemma escape_plain: "0 \<notin> set s \<Longrightarrow> escape 0 s = s"
  by (induction s) auto

lemma append_encoded: "AppendEncodedStrToKey e s dest = dest @ escape e s"
  by (simp add: AppendEncodedStrToKey_def escape_plain flip: escape_def)

lemma xor_cancel: "(e XOR c = e) = (c = 0)" "(e XOR c) XOR e = c" for e c :: byte
proof -
  have c: "e XOR (e XOR c) = c" by (simp flip: xor.assoc)
  show "(e XOR c = e) = (c = 0)"
  proof
    assume "e XOR c = e"
    with c show "c = 0" by (simp only: xor_self_eq)
  qed simp
  show "(e XOR c) XOR e = c" using c by (simp only: xor.commute)
qed

lemma decode_escape: "DecodeEncodedStr e (escape e s @ e # e # rest) acc = Inr (acc @ s, rest)"
proof (induction s arbitrary: acc)
  case (Cons c s)
  have "e XOR 1 \<noteq> e" by (simp add: xor_cancel)
  with Cons show ?case by (simp add: xor_cancel)
qed simp

lemma escape_less: "str_less s t \<Longrightarrow> bytes_less (escape 0 s @ [0, 0]) (escape 0 t @ [0, 0])"
  by (induction s t rule: str_less.induct) (auto simp: word_gt_0)

lemma ff_xor: "0xff XOR c = NOT c" for c :: byte
proof -
  have "(0xff :: byte) = mask 8" by (simp add: mask_eq_exp_minus_1)
  moreover have "mask 8 XOR c = NOT c" by (rule bit_word_eqI) (simp add: bit_simps del: mask_numeral)
  ultimately show ?thesis by (simp only:)
qed

lemma escape_complement: "escape 0xff s @ [0xff, 0xff] = map (\<lambda>b. NOT b) (escape 0 s @ [0, 0])"
  by (induction s) (auto simp: ff_xor)

interpretation string_key: key_encoding
  "\<lambda>s. ZeroEncodeAndAppendStrToKey s []" DecodeZeroEncodedStr "\<lambda>_. True" str_less
proof
  fix x rest
  show "DecodeZeroEncodedStr (ZeroEncodeAndAppendStrToKey x [] @ rest) = Inr (x, rest)"
    using decode_escape [of 0 x rest "[]"]
    by (simp add: DecodeZeroEncodedStr_def ZeroEncodeAndAppendStrToKey_def TerminateEncodedKeyStr_def append_encoded)
qed (simp_all add: ZeroEncodeAndAppendStrToKey_def TerminateEncodedKeyStr_def append_encoded escape_less str_less_total)

interpretation descending_string_key: key_encoding
  "\<lambda>s. ComplementZeroEncodeAndAppendStrToKey s []" DecodeComplementZeroEncodedStr "\<lambda>_. True" "\<lambda>s t. str_less t s"
proof
  fix x y :: slice and rest
  note def = ComplementZeroEncodeAndAppendStrToKey_def TerminateEncodedKeyStr_def append_encoded append_Nil
  show "DecodeComplementZeroEncodedStr (ComplementZeroEncodeAndAppendStrToKey x [] @ rest) = Inr (x, rest)"
    using decode_escape [of "0xff" x rest "[]"] by (simp add: DecodeComplementZeroEncodedStr_def def)
  show "bytes_less (ComplementZeroEncodeAndAppendStrToKey x []) (ComplementZeroEncodeAndAppendStrToKey y [])"
    if "str_less y x"
    unfolding def escape_complement bytes_less_map_not by (rule escape_less [OF that])
qed (use str_less_total in blast)

section \<open>Times in keys\<close>

lemma check_key_with_time:
  "CheckHybridTimeSizeAndValueType (key @ [t] @ EncodedInDocDbFormat d) =
     (if t = kHybridTime then Inr (length (EncodedInDocDbFormat d)) else Inl Corruption)"
proof -
  let ?e = "EncodedInDocDbFormat d"
  have "?e \<noteq> []" using encoded_layout(3) [of d] by auto
  then have "CheckAndGetEncodedSize ((key @ [t]) @ ?e) = Inr (length ?e)"
    using encoded_layout [of d]
    by (simp add: CheckAndGetEncodedSize_def CheckEncodedSize_def GetEncodedSize_def Let_def
        kMaxBytesPerEncodedHybridTime_def del: append_assoc)
  then show ?thesis
    by (simp add: CheckHybridTimeSizeAndValueType_def Let_def nth_append)
qed

section \<open>Properties\<close>

text \<open>
  C26. Any byte string, zero bytes included, can be a part of a key: decoding gives it back with the
  rest of the slice, and keys compare as the strings do, then by what follows.
\<close>

theorem zero_encoded_string_is_key_part:
  "DecodeZeroEncodedStr (ZeroEncodeAndAppendStrToKey s [] @ rest) = Inr (s, rest) \<and>
   DecodeZeroEncodedStr_full (ZeroEncodeAndAppendStrToKey s [] @ rest) = (if rest = [] then Inr s else Inl Fatal) \<and>
   (bytes_less (ZeroEncodeAndAppendStrToKey s [] @ p) (ZeroEncodeAndAppendStrToKey t [] @ q) \<longleftrightarrow>
      str_less s t \<or> (s = t \<and> bytes_less p q))"
  by (simp add: string_key.round_trip string_key.append_less_iff DecodeZeroEncodedStr_full_def)

text \<open>
  C27. The complemented encoding does the same with the order of strings reversed.
\<close>

theorem complement_string_is_key_part:
  "DecodeComplementZeroEncodedStr (ComplementZeroEncodeAndAppendStrToKey s [] @ rest) = Inr (s, rest) \<and>
   (bytes_less (ComplementZeroEncodeAndAppendStrToKey s [] @ p) (ComplementZeroEncodeAndAppendStrToKey t [] @ q) \<longleftrightarrow>
      str_less t s \<or> (s = t \<and> bytes_less p q))"
  by (simp add: descending_string_key.round_trip descending_string_key.append_less_iff)

text \<open>
  C28. A key that ends with the marker byte and an encoded time passes the check of its tail, with the
  size of the time; any other byte in place of the marker is reported as corruption. The
  bitwise inverted suffix of a reverse intent record decodes to the time it was made from.
\<close>

theorem time_suffix_of_keys:
  "CheckHybridTimeSizeAndValueType (key @ [t] @ EncodedInDocDbFormat d) =
     (if t = kHybridTime then Inr (length (EncodedInDocDbFormat d)) else Inl Corruption) \<and>
   DecodeInvertedDocHt (map (\<lambda>b. NOT b) (kHybridTime # EncodedInDocDbFormat d)) = Inr d"
proof -
  have "doc_ht_DecodeFrom (EncodedInDocDbFormat d) = Inr (d, [])"
    using doc_ht_key.round_trip [of d "[]"] by simp
  then have "DecodeInvertedDocHt (map (\<lambda>b. NOT b) (kHybridTime # EncodedInDocDbFormat d)) = Inr d"
    using encoded_layout(2) [of d]
    by (simp add: DecodeInvertedDocHt_def kMaxBytesPerEncodedHybridTime_def Let_def o_def)
  then show ?thesis using check_key_with_time by simp
qed

end
