(* ===== verification/Intents.thy ===== *)
theory Intents
  imports DocKvUtil
begin

text \<open>
  Intents, the provisional records of transactions: their types and sets of types
  (\<^verbatim>\<open>src/yb/docdb/value_type.h\<close>, \<^verbatim>\<open>src/yb/util/enums.h\<close>), row marks
  (\<^verbatim>\<open>src/yb/common/row_mark.cc\<close>), and the keys and values they are stored under
  (\<^verbatim>\<open>src/yb/docdb/intent.cc\<close>). An \<open>EnumBitSet\<close> over the four intent types is a word of four bits.
\<close>

section \<open>Operations\<close>

datatype intent_type = kWeakRead | kWeakWrite | kStrongRead | kStrongWrite

fun to_underlying :: "intent_type \<Rightarrow> nat" where
  "to_underlying kWeakRead = 0"
| "to_underlying kWeakWrite = 1"
| "to_underlying kStrongRead = 2"
| "to_underlying kStrongWrite = 3"

definition kIntentTypeList :: "intent_type list" where
  "kIntentTypeList = [kWeakRead, kWeakWrite, kStrongRead, kStrongWrite]"

type_synonym intent_type_set = "4 word"

definition Test :: "intent_type_set \<Rightarrow> intent_type \<Rightarrow> bool" where
  "Test s t = bit s (to_underlying t)"

definition Set :: "intent_type \<Rightarrow> intent_type_set \<Rightarrow> intent_type_set" where
  "Set t s = s OR push_bit (to_underlying t) 1"

definition IntentTypeSet :: "intent_type list \<Rightarrow> intent_type_set" where
  "IntentTypeSet ts = fold Set ts 0"

definition types_of :: "intent_type_set \<Rightarrow> intent_type list" where
  "types_of s = filter (Test s) kIntentTypeList"

datatype isolation_level = NON_TRANSACTIONAL | SNAPSHOT_ISOLATION | SERIALIZABLE_ISOLATION
datatype operation_kind = kRead | kWrite
datatype row_mark_type =
    ROW_MARK_EXCLUSIVE | ROW_MARK_NOKEYEXCLUSIVE | ROW_MARK_SHARE | ROW_MARK_KEYSHARE
  | ROW_MARK_REFERENCE | ROW_MARK_COPY | ROW_MARK_ABSENT

fun row_mark_value :: "row_mark_type \<Rightarrow> nat" where
  "row_mark_value ROW_MARK_EXCLUSIVE = 0"
| "row_mark_value ROW_MARK_NOKEYEXCLUSIVE = 1"
| "row_mark_value ROW_MARK_SHARE = 2"
| "row_mark_value ROW_MARK_KEYSHARE = 3"
| "row_mark_value ROW_MARK_REFERENCE = 4"
| "row_mark_value ROW_MARK_COPY = 5"
| "row_mark_value ROW_MARK_ABSENT = 15"

definition AreConflictingRowMarkTypes :: "row_mark_type \<Rightarrow> row_mark_type \<Rightarrow> bool" where
  "AreConflictingRowMarkTypes a b \<longleftrightarrow>
     (if (a = ROW_MARK_NOKEYEXCLUSIVE \<and> b = ROW_MARK_KEYSHARE) \<or>
         (a = ROW_MARK_KEYSHARE \<and> b = ROW_MARK_NOKEYEXCLUSIVE) then True
      else row_mark_value a + row_mark_value b < 4)"

definition GetStrongestRowMarkType :: "row_mark_type list \<Rightarrow> row_mark_type" where
  "GetStrongestRowMarkType marks =
     foldl (\<lambda>strongest m. if row_mark_value strongest < row_mark_value m then strongest else m)
       ROW_MARK_ABSENT marks"

definition IsValidRowMarkType :: "row_mark_type \<Rightarrow> bool" where
  "IsValidRowMarkType m \<longleftrightarrow>
     (case m of
        ROW_MARK_EXCLUSIVE \<Rightarrow> True | ROW_MARK_NOKEYEXCLUSIVE \<Rightarrow> True
      | ROW_MARK_SHARE \<Rightarrow> True | ROW_MARK_KEYSHARE \<Rightarrow> True | _ \<Rightarrow> False)"

definition RowMarkNeedsPessimisticLock :: "row_mark_type \<Rightarrow> bool" where
  "RowMarkNeedsPessimisticLock m \<longleftrightarrow> IsValidRowMarkType m \<and> m \<noteq> ROW_MARK_KEYSHARE"

definition AllStrongIntents :: intent_type_set where
  "AllStrongIntents = IntentTypeSet [kStrongRead, kStrongWrite]"

definition GetStrongIntentTypeSet ::
  "isolation_level \<Rightarrow> operation_kind \<Rightarrow> row_mark_type \<Rightarrow> intent_type_set" where
  "GetStrongIntentTypeSet level operation_kind row_mark =
     (if row_mark = ROW_MARK_EXCLUSIVE \<or> row_mark = ROW_MARK_NOKEYEXCLUSIVE
      then IntentTypeSet [kStrongRead, kStrongWrite]
      else if row_mark = ROW_MARK_SHARE \<or> row_mark = ROW_MARK_KEYSHARE
      then IntentTypeSet [kStrongRead]
      else case level of
          SNAPSHOT_ISOLATION \<Rightarrow> IntentTypeSet [kStrongRead, kStrongWrite]
        | SERIALIZABLE_ISOLATION \<Rightarrow>
            (case operation_kind of kRead \<Rightarrow> IntentTypeSet [kStrongRead] | kWrite \<Rightarrow> IntentTypeSet [kStrongWrite])
        | NON_TRANSACTIONAL \<Rightarrow> IntentTypeSet [])"

definition StrongToWeak :: "intent_type_set \<Rightarrow> intent_type_set" where
  "StrongToWeak inp = drop_bit 2 inp"

definition WeakToStrong :: "intent_type_set \<Rightarrow> intent_type_set" where
  "WeakToStrong inp = push_bit 2 inp"

definition HasStrong :: "intent_type_set \<Rightarrow> bool" where
  "HasStrong inp \<longleftrightarrow> inp AND AllStrongIntents \<noteq> 0"

definition ObsoleteIntentTypeToSet :: "byte \<Rightarrow> intent_type_set" where
  "ObsoleteIntentTypeToSet t =
     (if t = 1 OR 2 OR 4 then IntentTypeSet [kStrongRead, kStrongWrite]
      else if t = 0 OR 2 OR 4 then IntentTypeSet [kWeakRead, kWeakWrite]
      else IntentTypeSet [])"

definition ObsoleteIntentTypeSetToNew :: "byte \<Rightarrow> intent_type_set" where
  "ObsoleteIntentTypeSetToNew s =
     fold (\<lambda>idx result.
       if s AND push_bit idx 1 \<noteq> 0
       then Set (kIntentTypeList ! unat ((drop_bit 1 (of_nat idx) OR push_bit 1 (of_nat idx)) AND 3 :: byte)) result
       else result) [0..<4] 0"

definition kIntentTypeSet_byte :: byte where "kIntentTypeSet_byte = 13"
definition kObsoleteIntentTypeSet :: byte where "kObsoleteIntentTypeSet = 15"
definition kObsoleteIntentType :: byte where "kObsoleteIntentType = 20"
definition kWriteId :: byte where "kWriteId = 119"
definition kTransactionId :: byte where "kTransactionId = 120"

definition IntentValueType :: "byte \<Rightarrow> bool" where
  "IntentValueType ch \<longleftrightarrow> ch = kIntentTypeSet_byte \<or> ch = kObsoleteIntentTypeSet \<or> ch = kObsoleteIntentType"

record decoded_intent_key =
  intent_prefix :: slice
  intent_types :: intent_type_set
  doc_ht :: doc_hybrid_time

definition DecodeIntentKey :: "slice \<Rightarrow> decoded_intent_key result" where
  "DecodeIntentKey encoded =
     bind_result (CheckAndGetEncodedSize encoded) (\<lambda>doc_ht_size.
       if length encoded < doc_ht_size + 3 then Inl Corruption
       else
         let prefix = take (length encoded - (doc_ht_size + 3)) encoded;
             suffix = drop (length encoded - (doc_ht_size + 3)) encoded
         in bind_result (doc_ht_FullyDecodeFrom (drop 3 suffix)) (\<lambda>ht.
              if suffix ! 2 \<noteq> kHybridTime then Inl Corruption
              else if suffix ! 0 \<noteq> kIntentTypeSet_byte then
                if suffix ! 0 = kObsoleteIntentType then
                  Inr \<lparr>intent_prefix = prefix, intent_types = ObsoleteIntentTypeToSet (suffix ! 1), doc_ht = ht\<rparr>
                else if suffix ! 0 = kObsoleteIntentTypeSet then
                  Inr \<lparr>intent_prefix = prefix, intent_types = ObsoleteIntentTypeSetToNew (suffix ! 1), doc_ht = ht\<rparr>
                else Inl Corruption
              else Inr \<lparr>intent_prefix = prefix, intent_types = ucast (suffix ! 1), doc_ht = ht\<rparr>))"

text \<open>A transaction id is its 16 bytes. Consuming a byte of an empty slice is a debug check only.\<close>

definition consume_byte :: "byte \<Rightarrow> slice \<Rightarrow> slice result" where
  "consume_byte c s = (case s of [] \<Rightarrow> Inl Undefined | b # s' \<Rightarrow> if b \<noteq> c then Inl Corruption else Inr s')"

definition DecodeUuid :: "slice \<Rightarrow> (slice \<times> slice) result" where
  "DecodeUuid s = (if length s < 16 then Inl Corruption else Inr (take 16 s, drop 16 s))"

definition DecodeTransactionIdFromIntentValue :: "slice \<Rightarrow> (slice \<times> slice) result" where
  "DecodeTransactionIdFromIntentValue intent_value =
     (case intent_value of
        [] \<Rightarrow> Inl Corruption
      | b # rest \<Rightarrow> if b \<noteq> kTransactionId then Inl Corruption else DecodeUuid rest)"

definition DecodeIntentValue :: "slice \<Rightarrow> slice \<Rightarrow> (uint32 \<times> slice) result" where
  "DecodeIntentValue encoded transaction_id_slice =
     bind_result (consume_byte kTransactionId encoded) (\<lambda>v.
       if take (length transaction_id_slice) v \<noteq> transaction_id_slice then Inl Corruption
       else
         bind_result (consume_byte kWriteId (drop 16 v)) (\<lambda>v'.
           if length v' < 4 then Inl Corruption
           else Inr (of_nat (be_val (take 4 v')), drop 4 v')))"

section \<open>Stored intents\<close>

lemma intent_suffix_size:
  "CheckAndGetEncodedSize (p @ a # b # c # EncodedInDocDbFormat d) = Inr (length (EncodedInDocDbFormat d))"
proof -
  let ?e = "EncodedInDocDbFormat d"
  have "?e \<noteq> []" using encoded_layout(3) [of d] by auto
  then show ?thesis
    using encoded_layout(2-4) [of d]
    by (simp add: CheckAndGetEncodedSize_def CheckEncodedSize_def GetEncodedSize_def Let_def
        kMaxBytesPerEncodedHybridTime_def)
qed

lemma FullyDecodeFrom_encoded: "doc_ht_FullyDecodeFrom (EncodedInDocDbFormat d) = Inr d"
  using doc_ht_key.round_trip [of d "[]"] by (simp add: doc_ht_FullyDecodeFrom_def)

lemma intent_types_bytes: "(ucast (ucast ts :: byte) :: intent_type_set) = ts"
  by (rule bit_word_eqI) (simp add: bit_simps)

lemma DecodeIntentKey_suffix:
  "DecodeIntentKey (p @ [a, b, c] @ EncodedInDocDbFormat d) =
     (if c \<noteq> kHybridTime then Inl Corruption
      else if a = kIntentTypeSet_byte then Inr \<lparr>intent_prefix = p, intent_types = ucast b, doc_ht = d\<rparr>
      else if a = kObsoleteIntentType then
        Inr \<lparr>intent_prefix = p, intent_types = ObsoleteIntentTypeToSet b, doc_ht = d\<rparr>
      else if a = kObsoleteIntentTypeSet then
        Inr \<lparr>intent_prefix = p, intent_types = ObsoleteIntentTypeSetToNew b, doc_ht = d\<rparr>
      else Inl Corruption)"
  by (simp add: DecodeIntentKey_def intent_suffix_size Let_def FullyDecodeFrom_encoded)

lemma DecodeIntentValue_parts:
  assumes "length txn = 16" "length ident = 16"
  shows "DecodeIntentValue (kTransactionId # txn @ kWriteId # be_bytes 4 (unat w) @ body) ident =
    (if ident = txn then Inr (w, body) else Inl Corruption)"
proof -
  have "unat w < 2 ^ 32" using unsigned_less [of w] by simp
  then have "of_nat (be_val (be_bytes 4 (unat w))) = w" by (simp add: be_val_be_bytes)
  then show ?thesis
    using assms by (auto simp: DecodeIntentValue_def consume_byte_def be_val_be_bytes)
qed

section \<open>Properties\<close>

text \<open>
  C31. The key an intent is stored under decodes to the document key, the intent types and the time it
  was made from, in the current format; the two obsolete formats keep only the pairs of types
  that were ever written; any other tag, or a wrong marker before the time, is \<^verbatim>\<open>Corruption\<close>.
\<close>

theorem intent_key_roundtrip:
  "DecodeIntentKey (p @ [kIntentTypeSet_byte, ucast ts, kHybridTime] @ EncodedInDocDbFormat d) =
     Inr \<lparr>intent_prefix = p, intent_types = ts, doc_ht = d\<rparr> \<and>
   DecodeIntentKey (p @ [kObsoleteIntentType, 7, kHybridTime] @ EncodedInDocDbFormat d) =
     Inr \<lparr>intent_prefix = p, intent_types = IntentTypeSet [kStrongRead, kStrongWrite], doc_ht = d\<rparr> \<and>
   DecodeIntentKey (p @ [kObsoleteIntentType, 6, kHybridTime] @ EncodedInDocDbFormat d) =
     Inr \<lparr>intent_prefix = p, intent_types = IntentTypeSet [kWeakRead, kWeakWrite], doc_ht = d\<rparr> \<and>
   (\<not> IntentValueType a \<or> c \<noteq> kHybridTime \<longrightarrow>
      DecodeIntentKey (p @ [a, b, c] @ EncodedInDocDbFormat d) = Inl Corruption)"
  unfolding DecodeIntentKey_suffix
  by (auto simp: intent_types_bytes IntentValueType_def kIntentTypeSet_byte_def kObsoleteIntentType_def
      kObsoleteIntentTypeSet_def ObsoleteIntentTypeToSet_def)

theorem intent_key_roundtrip_witness:
  "\<not> IntentValueType 0 \<and>
   DecodeIntentKey ([1] @ [0, 0, kHybridTime] @ EncodedInDocDbFormat \<lparr>doc_time = 1, write_id = 0\<rparr>) = Inl Corruption"
  using intent_key_roundtrip [of "[1]" 0 "\<lparr>doc_time = 1, write_id = 0\<rparr>" 0 kHybridTime 0]
  by (simp add: IntentValueType_def kIntentTypeSet_byte_def kObsoleteIntentType_def kObsoleteIntentTypeSet_def)

text \<open>
  C32. The value of an intent decodes to its write id and body for the transaction that wrote it, and
  is refused for any other transaction.
\<close>

theorem intent_value_roundtrip:
  assumes "length txn = 16" "length ident = 16"
  shows "DecodeIntentValue (kTransactionId # txn @ kWriteId # be_bytes 4 (unat w) @ body) ident =
      (if ident = txn then Inr (w, body) else Inl Corruption) \<and>
    DecodeTransactionIdFromIntentValue (kTransactionId # txn @ kWriteId # be_bytes 4 (unat w) @ body) =
      Inr (txn, kWriteId # be_bytes 4 (unat w) @ body)"
  using DecodeIntentValue_parts [OF assms] assms
  by (simp add: DecodeTransactionIdFromIntentValue_def DecodeUuid_def)

theorem intent_value_roundtrip_witness:
  "DecodeIntentValue (kTransactionId # replicate 16 1 @ kWriteId # be_bytes 4 (unat (7 :: uint32)) @ [3]) (replicate 16 1) =
     Inr (7, [3])"
  using intent_value_roundtrip [of "replicate 16 1" "replicate 16 1" 7 "[3]"] by simp

end
