(* ===== verification/SharedLockManager.thy ===== *)
theory SharedLockManager
  imports Intents
begin

text \<open>
  The in-memory locks on document keys, \<^verbatim>\<open>src/yb/docdb/shared_lock_manager.cc\<close>. The state of a lock
  is one 64-bit word with a 16-bit counter of holders for each intent type. This theory models
  one \<open>LockedBatchEntry\<close> under any interleaving of the threads that lock and unlock it: each
  atomic operation, each use of the mutex and each wait on the condition variable is a step.
  Waiting may end spuriously, and by timeout unless the deadline is infinite. Atomic operations take effect
  in one order that all threads see; the code asks for acquire and release ordering of its counters only.
\<close>

section \<open>Lock states\<close>

type_synonym lock_state = uint64

definition kSingleIntentMask :: lock_state where "kSingleIntentMask = push_bit 16 1 - 1"

definition IntentTypesConflict :: "intent_type \<Rightarrow> intent_type \<Rightarrow> bool" where
  "IntentTypesConflict lhs rhs \<longleftrightarrow>
     (let lhs_value = of_nat (to_underlying lhs) :: byte; rhs_value = of_nat (to_underlying rhs) :: byte
      in (lhs_value AND 2 \<noteq> 0 \<or> rhs_value AND 2 \<noteq> 0) \<and> lhs_value AND 1 \<noteq> rhs_value AND 1)"

definition IntentTypeMask :: "intent_type \<Rightarrow> lock_state" where
  "IntentTypeMask t = push_bit (to_underlying t * 16) kSingleIntentMask"

text \<open>The tables indexed by the set of types, as functions of the set.\<close>

definition kIntentTypeSetConflicts :: "intent_type_set \<Rightarrow> lock_state" where
  "kIntentTypeSetConflicts s =
     fold (\<lambda>t result.
       fold (\<lambda>other r. if IntentTypesConflict t other then r OR IntentTypeMask other else r)
         kIntentTypeList result) (types_of s) 0"

definition GenerateByMask :: "lock_state \<Rightarrow> intent_type_set \<Rightarrow> lock_state" where
  "GenerateByMask single_intent_mask s =
     fold (\<lambda>t result. result OR push_bit (to_underlying t * 16) single_intent_mask) (types_of s) 0"

definition kIntentTypeSetAdd :: "intent_type_set \<Rightarrow> lock_state" where
  "kIntentTypeSetAdd = GenerateByMask 1"

definition kIntentTypeSetMask :: "intent_type_set \<Rightarrow> lock_state" where
  "kIntentTypeSetMask = GenerateByMask kSingleIntentMask"

definition IntentTypeSetsConflict :: "intent_type_set \<Rightarrow> intent_type_set \<Rightarrow> bool" where
  "IntentTypeSetsConflict lhs rhs \<longleftrightarrow>
     list_ex (\<lambda>a. list_ex (\<lambda>b. IntentTypesConflict a b) (types_of rhs)) (types_of lhs)"

section \<open>One lock and its threads\<close>

text \<open>
  Where a thread is in \<open>Lock\<close> or \<open>Unlock\<close>; the arguments are the requested types and the local
  copy of the state.
  \<open>Trying\<close>: at the top of the loop of \<open>Lock\<close>. \<open>Joining\<close>: about to count itself as a waiter.
  \<open>Entering\<close>: about to take the mutex. \<open>Checking\<close>: in the mutex, about to read the state again.
  \<open>Blocking\<close>: in the mutex, about to wait. \<open>Waiting\<close>: in the condition variable, mutex released.
  \<open>Waking\<close>: woken, about to take the mutex again, and whether the wait timed out. \<open>Leaving\<close>: in the
  mutex, at the end of the scope. \<open>Parting\<close>: mutex released, about to stop counting as a waiter.
  \<open>Holding\<close>: \<open>Lock\<close> returned true. \<open>Releasing\<close>: in the loop of \<open>Unlock\<close>. \<open>Released\<close>: the state is
  decremented. \<open>Passing\<close>: about to lock and unlock the mutex. \<open>Notifying\<close>: about to notify.
\<close>

datatype lock_pc =
    Outside
  | Trying intent_type_set lock_state
  | Joining intent_type_set lock_state
  | Entering intent_type_set
  | Checking intent_type_set
  | Blocking intent_type_set lock_state
  | Waiting intent_type_set lock_state
  | Waking intent_type_set lock_state bool
  | Leaving intent_type_set lock_state bool
  | Parting intent_type_set lock_state bool
  | Holding intent_type_set
  | Releasing intent_type_set lock_state
  | Released intent_type_set lock_state
  | Passing
  | Notifying

record lock_entry =
  num_holding :: lock_state
  num_waiters :: nat
  mutex_held :: bool
  threads :: "lock_pc list"

definition conflicts_with :: "lock_state \<Rightarrow> intent_type_set \<Rightarrow> bool" where
  "conflicts_with st s \<longleftrightarrow> st AND kIntentTypeSetConflicts s \<noteq> 0"

definition has_zero :: "intent_type_set \<Rightarrow> lock_state \<Rightarrow> bool" where
  "has_zero s st \<longleftrightarrow> list_ex (\<lambda>t. st AND IntentTypeMask t = 0) (types_of s)"

fun wake :: "lock_pc \<Rightarrow> lock_pc" where
  "wake (Waiting s old) = Waking s old False"
| "wake pc = pc"

definition goto :: "nat \<Rightarrow> lock_pc \<Rightarrow> lock_entry \<Rightarrow> lock_entry" where
  "goto i pc e = e\<lparr>threads := (threads e)[i := pc]\<rparr>"

text \<open>
  The steps that the entry and the position of a thread determine, apart from a spurious failure
  of the compare-and-swap. \<^const>\<open>None\<close>: the thread cannot move (it needs the mutex, or waits, or
  its next step is not its own choice).
\<close>

fun entry_step :: "bool \<Rightarrow> nat \<Rightarrow> lock_pc \<Rightarrow> lock_entry \<Rightarrow> lock_entry option" where
  "entry_step spurious i (Trying s old) e =
     (if conflicts_with old s then Some (goto i (Joining s old) e)
      else if num_holding e = old \<and> \<not> spurious
      then Some (goto i (Holding s) (e\<lparr>num_holding := old + kIntentTypeSetAdd s\<rparr>))
      else Some (goto i (Trying s (num_holding e)) e))"
| "entry_step spurious i (Joining s old) e = Some (goto i (Entering s) (e\<lparr>num_waiters := num_waiters e + 1\<rparr>))"
| "entry_step spurious i (Entering s) e =
     (if mutex_held e then None else Some (goto i (Checking s) (e\<lparr>mutex_held := True\<rparr>)))"
| "entry_step spurious i (Checking s) e =
     Some (goto i (if conflicts_with (num_holding e) s then Blocking s (num_holding e)
                   else Leaving s (num_holding e) False) e)"
| "entry_step spurious i (Blocking s old) e = Some (goto i (Waiting s old) (e\<lparr>mutex_held := False\<rparr>))"
| "entry_step spurious i (Waking s old timeout) e =
     (if mutex_held e then None else Some (goto i (Leaving s old timeout) (e\<lparr>mutex_held := True\<rparr>)))"
| "entry_step spurious i (Leaving s old timeout) e =
     Some (goto i (Parting s old timeout) (e\<lparr>mutex_held := False\<rparr>))"
| "entry_step spurious i (Parting s old timeout) e =
     Some (goto i (if timeout then Outside else Trying s old) (e\<lparr>num_waiters := num_waiters e - 1\<rparr>))"
| "entry_step spurious i (Releasing s old) e =
     (if num_holding e = old \<and> \<not> spurious
      then let new_state = old - kIntentTypeSetAdd s
           in Some (goto i (Released s new_state) (e\<lparr>num_holding := new_state\<rparr>))
      else Some (goto i (Releasing s (num_holding e)) e))"
| "entry_step spurious i (Released s new_state) e =
     Some (goto i (if num_waiters e = 0 \<or> \<not> has_zero s new_state then Outside else Passing) e)"
| "entry_step spurious i Passing e = (if mutex_held e then None else Some (goto i Notifying e))"
| "entry_step spurious i Notifying e =
     Some (goto i Outside (e\<lparr>threads := map wake (threads e)\<rparr>))"
| "entry_step spurious i pc e = None"

inductive lock_step :: "lock_entry \<Rightarrow> lock_entry \<Rightarrow> bool" where
  proceed: "i < length (threads e) \<Longrightarrow> entry_step spurious i (threads e ! i) e = Some e' \<Longrightarrow> lock_step e e'"
| call_lock: "i < length (threads e) \<Longrightarrow> threads e ! i = Outside \<Longrightarrow>
    lock_step e (goto i (Trying s (num_holding e)) e)"
| call_unlock: "i < length (threads e) \<Longrightarrow> threads e ! i = Holding s \<Longrightarrow>
    lock_step e (goto i (Releasing s (num_holding e)) e)"
| wakeup: "i < length (threads e) \<Longrightarrow> threads e ! i = Waiting s old \<Longrightarrow>
    lock_step e (goto i (Waking s old timeout) e)"

definition lock_entry_init :: "nat \<Rightarrow> lock_entry" where
  "lock_entry_init n = \<lparr>num_holding = 0, num_waiters = 0, mutex_held = False, threads = replicate n Outside\<rparr>"

inductive lock_reachable :: "nat \<Rightarrow> lock_entry \<Rightarrow> bool" for n where
  init: "lock_reachable n (lock_entry_init n)"
| step: "lock_reachable n e \<Longrightarrow> lock_step e e' \<Longrightarrow> lock_reachable n e'"

section \<open>Counters packed into a word\<close>

definition counter :: "lock_state \<Rightarrow> intent_type \<Rightarrow> nat" where
  "counter st t = unat st div 65536 ^ to_underlying t mod 65536"

definition packed :: "(intent_type \<Rightarrow> nat) \<Rightarrow> nat" where
  "packed c = c kWeakRead + 65536 * (c kWeakWrite + 65536 * (c kStrongRead + 65536 * c kStrongWrite))"

lemma packed_digit: "(\<And>t. c t < 65536) \<Longrightarrow> packed c div 65536 ^ to_underlying t mod 65536 = c t"
proof -
  assume c: "\<And>t. c t < 65536"
  have d: "(x + 65536 * r) div 65536 = r" "(x + 65536 * r) mod 65536 = x" if "x < 65536" for x r :: nat
    using that by simp_all
  have "a div 65536 ^ 2 = a div 65536 div 65536" "a div 65536 ^ 3 = a div 65536 div 65536 div 65536" for a :: nat
    by (simp_all add: div_mult2_eq [symmetric])
  then show ?thesis
    using c by (cases t) (simp_all only: packed_def to_underlying.simps d power_0 power_one_right div_by_1 mod_less)
qed

lemma packed_less: "(\<And>t. c t < 65536) \<Longrightarrow> packed c < 2 ^ 64"
proof -
  assume c: "\<And>t. c t < 65536"
  show ?thesis
    using c [of kWeakRead] c [of kWeakWrite] c [of kStrongRead] c [of kStrongWrite] by (simp add: packed_def)
qed

lemma packed_counter: "packed (counter st) = unat st"
proof -
  let ?u = "unat st"
  have "?u < 2 ^ 64" using unsigned_less [of st] by simp
  then have "?u div 65536 ^ 3 < 65536" by (simp add: div_less_iff_less_mult)
  moreover have "a div 65536 ^ 2 = a div 65536 div 65536" "a div 65536 ^ 3 = a div 65536 div 65536 div 65536" for a :: nat
    by (simp_all add: div_mult2_eq [symmetric])
  moreover have "a = a mod 65536 + 65536 * (a div 65536)" for a :: nat by simp
  ultimately show ?thesis
    by (simp only: packed_def counter_def to_underlying.simps power_0 power_one_right div_by_1 mod_less flip:)
qed

lemma counter_less: "counter st t < 65536"
  by (simp add: counter_def)

lemma counter_of_nat: "(\<And>t. c t < 65536) \<Longrightarrow> counter (of_nat (packed c)) t = c t"
  using packed_less [of c] packed_digit [of c t] by (simp add: counter_def unat_of_nat)

definition one_of :: "intent_type_set \<Rightarrow> intent_type \<Rightarrow> nat" where
  "one_of s t = (if Test s t then 1 else 0)"

lemma add_packed: "kIntentTypeSetAdd s = of_nat (packed (one_of s))"
  unfolding kIntentTypeSetAdd_def GenerateByMask_def types_of_def kIntentTypeList_def packed_def one_of_def
  by (cases "Test s kWeakRead"; cases "Test s kWeakWrite"; cases "Test s kStrongRead"; cases "Test s kStrongWrite")
    simp_all

lemma packed_plus: "packed (\<lambda>t. c t + d t) = packed c + packed d"
  by (simp add: packed_def algebra_simps)

lemma counter_add:
  assumes "\<And>t. counter st t + one_of s t < 65536"
  shows "counter (st + kIntentTypeSetAdd s) t = counter st t + one_of s t"
proof -
  have "st + kIntentTypeSetAdd s = of_nat (packed (\<lambda>t. counter st t + one_of s t))"
    unfolding packed_plus of_nat_add add_packed packed_counter by simp
  then show ?thesis using counter_of_nat [OF assms] by simp
qed

lemma counter_sub:
  assumes "\<And>t. one_of s t \<le> counter st t"
  shows "counter (st - kIntentTypeSetAdd s) t = counter st t - one_of s t"
proof -
  let ?d = "\<lambda>t. counter st t - one_of s t"
  have "packed (\<lambda>t. ?d t + one_of s t) = unat st" using assms by (simp add: packed_counter)
  then have "(of_nat (packed ?d + packed (one_of s)) :: lock_state) = of_nat (unat st)"
    unfolding packed_plus by (simp only:)
  then have "of_nat (packed ?d) + kIntentTypeSetAdd s = st" by (simp add: add_packed)
  then have "st - kIntentTypeSetAdd s = of_nat (packed ?d)" by (simp only: diff_eq_eq)
  then show ?thesis using counter_of_nat [of ?d t] counter_less [of st] by (simp add: less_imp_diff_less)
qed

lemma mask_zero: "st AND IntentTypeMask t = 0 \<longleftrightarrow> counter st t = 0"
proof -
  let ?k = "to_underlying t * 16"
  have m: "kSingleIntentMask = mask 16" by (simp add: kSingleIntentMask_def mask_eq_exp_minus_1)
  have le: "?k + 16 \<le> 64" by (cases t) simp_all
  have "st AND push_bit ?k (mask 16) = push_bit ?k (take_bit 16 (drop_bit ?k st))"
    by (rule bit_word_eqI) (auto simp: bit_simps)
  moreover have "push_bit ?k (take_bit 16 (drop_bit ?k st)) = 0 \<longleftrightarrow> take_bit 16 (drop_bit ?k st) = 0"
  proof
    assume z: "push_bit ?k (take_bit 16 (drop_bit ?k st)) = 0"
    show "take_bit 16 (drop_bit ?k st) = 0"
    proof (rule bit_word_eqI)
      fix n assume "n < LENGTH(64)"
      have "\<not> bit (push_bit ?k (take_bit 16 (drop_bit ?k st))) (?k + n)" unfolding z by simp
      then show "bit (take_bit 16 (drop_bit ?k st)) n = bit (0 :: uint64) n"
        using le by (auto simp: bit_simps)
    qed
  qed simp
  moreover have "take_bit 16 (drop_bit ?k st) = 0 \<longleftrightarrow> counter st t = 0"
    unfolding counter_def word_unat_eq_iff unat_take_bit_mod unat_drop_bit_div
    using power_mult [of "2 :: nat" 16 "to_underlying t"] by (simp add: mult.commute)
  ultimately show ?thesis unfolding IntentTypeMask_def m by simp
qed

lemma conflicts_mask:
  "st AND fold (\<lambda>t result.
       fold (\<lambda>other r. if IntentTypesConflict t other then r OR IntentTypeMask other else r) us result) ts r = 0 \<longleftrightarrow>
     st AND r = 0 \<and> (\<forall>t\<in>set ts. \<forall>u\<in>set us. IntentTypesConflict t u \<longrightarrow> st AND IntentTypeMask u = 0)"
proof (induction ts arbitrary: r)
  case (Cons t ts)
  have "st AND fold (\<lambda>other r. if IntentTypesConflict t other then r OR IntentTypeMask other else r) vs r = 0 \<longleftrightarrow>
      st AND r = 0 \<and> (\<forall>u\<in>set vs. IntentTypesConflict t u \<longrightarrow> st AND IntentTypeMask u = 0)" for vs r
    by (induction vs arbitrary: r) (auto simp: bit.conj_disj_distrib or_eq_0_iff)
  with Cons show ?case by auto
qed simp

lemma set_kIntentTypeList: "set kIntentTypeList = UNIV"
  using intent_type.exhaust by (auto simp: kIntentTypeList_def)

lemma set_types_of: "set (types_of s) = {t. Test s t}"
  by (auto simp: types_of_def set_kIntentTypeList)

lemma conflicts_with_counters:
  "conflicts_with st s \<longleftrightarrow> (\<exists>t u. Test s t \<and> IntentTypesConflict t u \<and> counter st u \<noteq> 0)"
  unfolding conflicts_with_def kIntentTypeSetConflicts_def conflicts_mask
  by (auto simp: set_types_of set_kIntentTypeList mask_zero)

section \<open>Invariants\<close>

fun holds :: "lock_pc \<Rightarrow> intent_type_set option" where
  "holds (Holding s) = Some s"
| "holds (Releasing s old) = Some s"
| "holds pc = None"

definition holder :: "intent_type \<Rightarrow> lock_pc \<Rightarrow> bool" where
  "holder t pc = (case holds pc of None \<Rightarrow> False | Some s \<Rightarrow> Test s t)"

fun counted :: "lock_pc \<Rightarrow> bool" where
  "counted (Entering s) = True"
| "counted (Checking s) = True"
| "counted (Blocking s old) = True"
| "counted (Waiting s old) = True"
| "counted (Waking s old b) = True"
| "counted (Leaving s old b) = True"
| "counted (Parting s old b) = True"
| "counted pc = False"

fun in_mutex :: "lock_pc \<Rightarrow> bool" where
  "in_mutex (Checking s) = True"
| "in_mutex (Blocking s old) = True"
| "in_mutex (Leaving s old b) = True"
| "in_mutex pc = False"

fun will_notify :: "lock_pc \<Rightarrow> bool" where
  "will_notify (Released s st) = has_zero s st"
| "will_notify Passing = True"
| "will_notify pc = False"

definition how_many :: "(lock_pc \<Rightarrow> bool) \<Rightarrow> lock_entry \<Rightarrow> nat" where
  "how_many P e = length (filter P (threads e))"

text \<open>The counters are the numbers of holders, and the other two counts are right as well.\<close>

definition counts_ok :: "lock_entry \<Rightarrow> bool" where
  "counts_ok e \<longleftrightarrow>
     (\<forall>t. counter (num_holding e) t = how_many (holder t) e) \<and>
     num_waiters e = how_many counted e \<and> how_many in_mutex e = (if mutex_held e then 1 else 0)"

definition exclusive :: "lock_entry \<Rightarrow> bool" where
  "exclusive e \<longleftrightarrow>
     (\<forall>i j a b. i < length (threads e) \<longrightarrow> j < length (threads e) \<longrightarrow> i \<noteq> j \<longrightarrow>
        holds (threads e ! i) = Some a \<longrightarrow> holds (threads e ! j) = Some b \<longrightarrow> \<not> IntentTypeSetsConflict a b)"

text \<open>A thread that waits in vain has someone about to wake it.\<close>

definition wakeups_ok :: "lock_entry \<Rightarrow> bool" where
  "wakeups_ok e \<longleftrightarrow>
     (\<forall>s old. Blocking s old \<in> set (threads e) \<longrightarrow>
        conflicts_with (num_holding e) s \<or> (\<exists>pc\<in>set (threads e). will_notify pc)) \<and>
     (\<forall>s old. Waiting s old \<in> set (threads e) \<longrightarrow>
        conflicts_with (num_holding e) s \<or> (\<exists>pc\<in>set (threads e). will_notify pc \<or> pc = Notifying))"

lemma how_many_goto:
  "i < length (threads e) \<Longrightarrow>
   how_many P (goto i pc e) = how_many P e + (if P pc then 1 else 0) - (if P (threads e ! i) then 1 else 0)"
  and how_many_pos: "i < length (threads e) \<Longrightarrow> P (threads e ! i) \<Longrightarrow> 0 < how_many P e"
proof -
  assume i: "i < length (threads e)"
  let ?xs = "threads e"
  have xs: "?xs = take i ?xs @ ?xs ! i # drop (Suc i) ?xs" using i by (simp add: id_take_nth_drop [symmetric])
  have "length (filter P ?xs) = length (filter P (take i ?xs)) + (if P (?xs ! i) then 1 else 0) + length (filter P (drop (Suc i) ?xs))"
    by (subst xs) simp
  then show "how_many P (goto i pc e) = how_many P e + (if P pc then 1 else 0) - (if P (?xs ! i) then 1 else 0)"
    using i by (simp add: how_many_def goto_def upd_conv_take_nth_drop)
  show "P (?xs ! i) \<Longrightarrow> 0 < how_many P e"
    using \<open>length (filter P ?xs) = _\<close> by (simp add: how_many_def)
qed

lemma how_many_other [simp]:
  "how_many P (e\<lparr>num_holding := a\<rparr>) = how_many P e" "how_many P (e\<lparr>num_waiters := b\<rparr>) = how_many P e"
  "how_many P (e\<lparr>mutex_held := c\<rparr>) = how_many P e"
  by (simp_all add: how_many_def)

lemma goto_simps [simp]:
  "num_holding (goto i pc e) = num_holding e" "num_waiters (goto i pc e) = num_waiters e"
  "mutex_held (goto i pc e) = mutex_held e" "length (threads (goto i pc e)) = length (threads e)"
  by (simp_all add: goto_def)

lemma wake_simps [simp]:
  "holds (wake pc) = holds pc" "counted (wake pc) = counted pc" "in_mutex (wake pc) = in_mutex pc"
  "will_notify (wake pc) = will_notify pc" "wake pc \<noteq> Waiting s old"
  "wake pc = Blocking s old \<longleftrightarrow> pc = Blocking s old"
  by (cases pc; simp)+

lemma how_many_wake:
  "(\<And>pc. P (wake pc) = P pc) \<Longrightarrow> how_many P (e\<lparr>threads := map wake (threads e)\<rparr>) = how_many P e"
  by (simp add: how_many_def filter_map o_def)

lemma holder_simps [simp]:
  "holder t (Holding s) = Test s t" "holder t (Releasing s old) = Test s t"
  "holds pc = None \<Longrightarrow> \<not> holder t pc" "holder t (wake pc) = holder t pc"
  by (simp_all add: holder_def)

lemma how_many_bound: "how_many P e \<le> length (threads e)"
  by (simp add: how_many_def)

lemma how_many_less: "i < length (threads e) \<Longrightarrow> \<not> P (threads e ! i) \<Longrightarrow> how_many P e < length (threads e)"
  unfolding how_many_def by (rule length_filter_less [of "threads e ! i"]) simp_all

lemma counts_acquire:
  assumes "counts_ok e" "i < length (threads e)" "length (threads e) < 65536" "threads e ! i = Trying s old"
  shows "counts_ok (goto i (Holding s) (e\<lparr>num_holding := num_holding e + kIntentTypeSetAdd s\<rparr>))"
proof -
  have c: "counter (num_holding e) t = how_many (holder t) e" for t using assms(1) by (simp add: counts_ok_def)
  have "counter (num_holding e) t + one_of s t < 65536" for t
    using how_many_less [of i e "holder t"] assms by (simp add: c one_of_def)
  then have "counter (num_holding e + kIntentTypeSetAdd s) t = how_many (holder t) e + one_of s t" for t
    using counter_add c by simp
  then show ?thesis using assms by (simp add: counts_ok_def how_many_goto one_of_def)
qed

lemma counts_release:
  assumes "counts_ok e" "i < length (threads e)" "threads e ! i = Releasing s old"
  shows "counts_ok (goto i (Released s st) (e\<lparr>num_holding := num_holding e - kIntentTypeSetAdd s\<rparr>))"
proof -
  have c: "counter (num_holding e) t = how_many (holder t) e" for t using assms(1) by (simp add: counts_ok_def)
  have "one_of s t \<le> counter (num_holding e) t" for t
    using how_many_pos [of i e "holder t"] assms by (simp add: c one_of_def Suc_le_eq)
  then have "counter (num_holding e - kIntentTypeSetAdd s) t = how_many (holder t) e - one_of s t" for t
    using counter_sub c by simp
  then show ?thesis using assms by (simp add: counts_ok_def how_many_goto one_of_def)
qed

lemma counts_step:
  assumes "lock_step e e'" "counts_ok e" "length (threads e) < 65536"
  shows "counts_ok e' \<and> length (threads e') = length (threads e)"
  using assms(1)
proof cases
  case (proceed i spurious)
  note i = proceed(1) and step = proceed(2)
  have m: "in_mutex (threads e ! i) \<Longrightarrow> mutex_held e" and w: "counted (threads e ! i) \<Longrightarrow> 0 < num_waiters e"
    using how_many_pos [OF i, of in_mutex] how_many_pos [OF i, of counted] assms(2)
    by (auto simp: counts_ok_def split: if_splits)
  show ?thesis
  proof (cases "threads e ! i")
    case (Trying s old)
    then show ?thesis
      using step i assms counts_acquire [OF assms(2) i assms(3)]
      by (auto simp: counts_ok_def how_many_goto split: if_splits)
  next
    case (Releasing s old)
    then show ?thesis
      using step i assms(2) counts_release [OF assms(2) i]
      by (auto simp: counts_ok_def how_many_goto Let_def split: if_splits)
  next
    case Notifying
    then have "e' = goto i Outside (e\<lparr>threads := map wake (threads e)\<rparr>)" using step by simp
    then show ?thesis
      using i assms(2) Notifying by (simp add: counts_ok_def how_many_goto how_many_wake)
  qed (use step i assms(2) m w in \<open>auto simp: counts_ok_def how_many_goto split: if_splits\<close>)
qed (use assms(2) in \<open>auto simp: counts_ok_def how_many_goto\<close>)

lemma IntentTypesConflict_sym: "IntentTypesConflict t u \<longleftrightarrow> IntentTypesConflict u t"
  by (auto simp: IntentTypesConflict_def Let_def)

lemma IntentTypeSetsConflict_iff:
  "IntentTypeSetsConflict a b \<longleftrightarrow> (\<exists>t u. Test a t \<and> Test b u \<and> IntentTypesConflict t u)"
  by (auto simp: IntentTypeSetsConflict_def list_ex_iff set_types_of)

lemma IntentTypeSetsConflict_sym: "IntentTypeSetsConflict a b \<longleftrightarrow> IntentTypeSetsConflict b a"
  unfolding IntentTypeSetsConflict_iff using IntentTypesConflict_sym by blast

lemma exclusive_mono:
  assumes "exclusive e" "length (threads e') = length (threads e)"
    and "\<And>k a. k < length (threads e) \<Longrightarrow> holds (threads e' ! k) = Some a \<Longrightarrow> holds (threads e ! k) = Some a"
  shows "exclusive e'"
  unfolding exclusive_def
proof (intro allI impI)
  fix i j a b
  assume "i < length (threads e')" "j < length (threads e')" "i \<noteq> j"
    and "holds (threads e' ! i) = Some a" "holds (threads e' ! j) = Some b"
  with assms(2,3) have "i < length (threads e)" "j < length (threads e)"
    "holds (threads e ! i) = Some a" "holds (threads e ! j) = Some b" by simp_all
  with \<open>i \<noteq> j\<close> assms(1) show "\<not> IntentTypeSetsConflict a b" unfolding exclusive_def by blast
qed

lemma no_conflicting_holder:
  assumes "counts_ok e" "\<not> conflicts_with (num_holding e) s" "j < length (threads e)"
    and "holds (threads e ! j) = Some b"
  shows "\<not> IntentTypeSetsConflict s b"
proof
  assume "IntentTypeSetsConflict s b"
  then obtain t u where tu: "Test s t" "Test b u" "IntentTypesConflict t u"
    unfolding IntentTypeSetsConflict_iff by blast
  then have "0 < counter (num_holding e) u"
    using how_many_pos [OF assms(3), of "holder u"] assms(1,4) by (simp add: holder_def counts_ok_def)
  with tu assms(2) show False unfolding conflicts_with_counters by blast
qed

lemma exclusive_acquire:
  assumes "exclusive e" "counts_ok e" "\<not> conflicts_with (num_holding e) s"
  shows "exclusive (goto i (Holding s) (e\<lparr>num_holding := st\<rparr>))"
  unfolding exclusive_def
proof (intro allI impI)
  let ?e = "goto i (Holding s) (e\<lparr>num_holding := st\<rparr>)"
  fix k l a b
  assume kl: "k < length (threads ?e)" "l < length (threads ?e)" "k \<noteq> l"
    and h: "holds (threads ?e ! k) = Some a" "holds (threads ?e ! l) = Some b"
  have other: "holds (threads e ! m) = Some c" if "m \<noteq> i" "holds (threads ?e ! m) = Some c" for m c
    using that by (simp add: goto_def)
  have new: "c = s" if "holds (threads ?e ! i) = Some c" "i < length (threads e)" for c
    using that by (simp add: goto_def)
  consider "k = i" | "l = i" | "k \<noteq> i" "l \<noteq> i" by blast
  then show "\<not> IntentTypeSetsConflict a b"
  proof cases
    case 1
    with kl h new other [of l b] show ?thesis
      using no_conflicting_holder [OF assms(2,3), of l b] by simp
  next
    case 2
    with kl h new other [of k a] show ?thesis
      using no_conflicting_holder [OF assms(2,3), of k a] by (simp add: IntentTypeSetsConflict_sym)
  next
    case 3
    with kl h other [of k a] other [of l b] assms(1) show ?thesis by (simp add: exclusive_def)
  qed
qed

lemma exclusive_step:
  assumes "lock_step e e'" "counts_ok e" "length (threads e) < 65536" "exclusive e"
  shows "exclusive e'"
proof -
  have len: "length (threads e') = length (threads e)" using counts_step [OF assms(1-3)] by simp
  from assms(1) show ?thesis
  proof cases
    case (proceed i spurious)
    note i = proceed(1) and step = proceed(2)
    show ?thesis
    proof (cases "\<exists>s. threads e ! i = Trying s (num_holding e) \<and> \<not> conflicts_with (num_holding e) s \<and> \<not> spurious")
      case True
      then obtain s where "threads e ! i = Trying s (num_holding e)" "\<not> conflicts_with (num_holding e) s" "\<not> spurious"
        by blast
      then show ?thesis using step exclusive_acquire [OF assms(4,2)] by auto
    next
      case False
      have "holds (threads e ! k) = Some a" if "holds (threads e' ! k) = Some a" "k < length (threads e)" for k a
        using that step False i
        by (cases "threads e ! i") (auto simp: goto_def nth_list_update Let_def split: if_splits)
      then show ?thesis using exclusive_mono [OF assms(4) len] by blast
    qed
  qed (rule exclusive_mono [OF assms(4) len]; auto simp: goto_def nth_list_update split: if_splits)+
qed

lemma set_goto: "x \<in> set (threads (goto i pc e)) \<Longrightarrow> x = pc \<or> x \<in> set (threads e)"
  using set_update_subset_insert [of "threads e" i pc] by (auto simp: goto_def)

lemma ex_goto:
  assumes "\<exists>pc\<in>set (threads e). P pc" "i < length (threads e)" "P (threads e ! i) \<Longrightarrow> P pc'"
  shows "\<exists>pc\<in>set (threads (goto i pc' e)). P pc"
proof -
  obtain k where k: "k < length (threads e)" "P (threads e ! k)" using assms(1) by (metis in_set_conv_nth)
  have "P (threads (goto i pc' e) ! k)" using k assms(2,3) by (cases "k = i") (simp_all add: goto_def)
  then show ?thesis using k by (metis goto_simps(4) nth_mem)
qed

lemma wakeups_goto:
  assumes w: "wakeups_ok e" and i: "i < length (threads e)"
    and st: "\<And>s. conflicts_with (num_holding e) s \<Longrightarrow> conflicts_with st s"
    and pc: "\<And>s old. pc \<noteq> Blocking s old" "\<And>s old. pc \<noteq> Waiting s old"
    and old: "\<not> will_notify (threads e ! i) \<or> will_notify pc" "threads e ! i \<noteq> Notifying"
  shows "wakeups_ok (goto i pc (e\<lparr>num_holding := st, num_waiters := n, mutex_held := m\<rparr>))"
proof -
  let ?e = "goto i pc (e\<lparr>num_holding := st, num_waiters := n, mutex_held := m\<rparr>)"
  have t: "threads ?e = threads (goto i pc e)" by (simp add: goto_def)
  have nh: "num_holding ?e = st" by simp
  have ex: "\<exists>pc\<in>set (threads ?e). will_notify pc" if "\<exists>pc\<in>set (threads e). will_notify pc"
    unfolding t using that i old by (intro ex_goto) blast+
  have ex': "\<exists>pc\<in>set (threads ?e). will_notify pc \<or> pc = Notifying"
    if "\<exists>pc\<in>set (threads e). will_notify pc \<or> pc = Notifying"
    unfolding t using that i old by (intro ex_goto) blast+
  have mem: "x \<in> set (threads e)" if "x \<in> set (threads ?e)" "x \<noteq> pc" for x
    using that set_goto [of x i pc e] unfolding t by blast
  show ?thesis
    unfolding wakeups_ok_def nh
  proof (intro conjI allI impI)
    fix s old assume "Blocking s old \<in> set (threads ?e)"
    then have "Blocking s old \<in> set (threads e)" using mem pc(1) by metis
    with w st ex show "conflicts_with st s \<or> (\<exists>pc\<in>set (threads ?e). will_notify pc)"
      unfolding wakeups_ok_def by blast
  next
    fix s old assume "Waiting s old \<in> set (threads ?e)"
    then have "Waiting s old \<in> set (threads e)" using mem pc(2) by metis
    with w st ex' show "conflicts_with st s \<or> (\<exists>pc\<in>set (threads ?e). will_notify pc \<or> pc = Notifying)"
      unfolding wakeups_ok_def by blast
  qed
qed

lemma wakeups_other:
  assumes "wakeups_ok e" "i < length (threads e)"
    and "\<And>s old. pc \<noteq> Blocking s old" "\<And>s old. pc \<noteq> Waiting s old"
    and "\<not> will_notify (threads e ! i) \<or> will_notify pc" "threads e ! i \<noteq> Notifying"
  shows "wakeups_ok (goto i pc e)" "wakeups_ok (goto i pc (e\<lparr>num_waiters := n\<rparr>))"
    "wakeups_ok (goto i pc (e\<lparr>mutex_held := m\<rparr>))"
  using wakeups_goto [OF assms(1,2) _ assms(3-6), where st = "num_holding e" and n = "num_waiters e" and m = "mutex_held e"]
    wakeups_goto [OF assms(1,2) _ assms(3-6), where st = "num_holding e" and n = n and m = "mutex_held e"]
    wakeups_goto [OF assms(1,2) _ assms(3-6), where st = "num_holding e" and n = "num_waiters e" and m = m] by simp_all

lemma wakeups_acquire:
  assumes "wakeups_ok e" "counts_ok e" "i < length (threads e)" "length (threads e) < 65536"
    and "threads e ! i = Trying s old"
  shows "wakeups_ok (goto i (Holding s) (e\<lparr>num_holding := num_holding e + kIntentTypeSetAdd s\<rparr>))"
proof -
  have "counter (num_holding e) t + one_of s t < 65536" for t
    using how_many_less [of i e "holder t"] assms by (simp add: counts_ok_def one_of_def)
  then have "counter (num_holding e + kIntentTypeSetAdd s) t = counter (num_holding e) t + one_of s t" for t
    by (rule counter_add)
  then have "conflicts_with (num_holding e) r \<Longrightarrow> conflicts_with (num_holding e + kIntentTypeSetAdd s) r" for r
    unfolding conflicts_with_counters by auto
  then show ?thesis
    using wakeups_goto [OF assms(1,3), where st = "num_holding e + kIntentTypeSetAdd s" and pc = "Holding s" and n = "num_waiters e" and m = "mutex_held e"]
      assms(5) by simp
qed

lemma wakeups_block:
  assumes "wakeups_ok e" "i < length (threads e)" "threads e ! i = Checking s" "conflicts_with (num_holding e) s"
  shows "wakeups_ok (goto i (Blocking s old) e)"
proof -
  let ?e = "goto i (Blocking s old) e"
  have ex: "\<exists>pc\<in>set (threads ?e). P pc" if "\<exists>pc\<in>set (threads e). P pc" "\<not> P (Checking s)" for P
    using that assms(2,3) by (intro ex_goto) simp_all
  have ex1: "\<exists>pc\<in>set (threads ?e). will_notify pc" if "\<exists>pc\<in>set (threads e). will_notify pc"
    using ex [OF that] by simp
  have ex2: "\<exists>pc\<in>set (threads ?e). will_notify pc \<or> pc = Notifying"
    if "\<exists>pc\<in>set (threads e). will_notify pc \<or> pc = Notifying"
    using ex [OF that] by simp
  show ?thesis
    unfolding wakeups_ok_def goto_simps
  proof (intro conjI allI impI)
    fix r o' assume "Blocking r o' \<in> set (threads ?e)"
    then consider "r = s" | "Blocking r o' \<in> set (threads e)" using set_goto by blast
    then show "conflicts_with (num_holding e) r \<or> (\<exists>pc\<in>set (threads ?e). will_notify pc)"
      using assms(1,4) ex1 unfolding wakeups_ok_def by cases blast+
  next
    fix r o' assume "Waiting r o' \<in> set (threads ?e)"
    then have "Waiting r o' \<in> set (threads e)" using set_goto by blast
    then show "conflicts_with (num_holding e) r \<or> (\<exists>pc\<in>set (threads ?e). will_notify pc \<or> pc = Notifying)"
      using assms(1) ex2 unfolding wakeups_ok_def by blast
  qed
qed

lemma wakeups_wait:
  assumes "wakeups_ok e" "i < length (threads e)" "threads e ! i = Blocking s old"
  shows "wakeups_ok (goto i (Waiting s old) (e\<lparr>mutex_held := m\<rparr>))"
proof -
  let ?e = "goto i (Waiting s old) (e\<lparr>mutex_held := m\<rparr>)"
  have t: "threads ?e = threads (goto i (Waiting s old) e)" by (simp add: goto_def)
  have ex: "\<exists>pc\<in>set (threads ?e). P pc" if "\<exists>pc\<in>set (threads e). P pc" "\<not> P (Blocking s old)" for P
    unfolding t using that assms(2,3) by (intro ex_goto) simp_all
  have ex1: "\<exists>pc\<in>set (threads ?e). will_notify pc" if "\<exists>pc\<in>set (threads e). will_notify pc"
    using ex [OF that] by simp
  have ex2: "\<exists>pc\<in>set (threads ?e). will_notify pc \<or> pc = Notifying"
    if "\<exists>pc\<in>set (threads e). will_notify pc \<or> pc = Notifying"
    using ex [OF that] by simp
  have here: "Blocking s old \<in> set (threads e)" using assms(2,3) nth_mem by metis
  have nh: "num_holding ?e = num_holding e" by simp
  show ?thesis
    unfolding wakeups_ok_def nh
  proof (intro conjI allI impI)
    fix r o' assume "Blocking r o' \<in> set (threads ?e)"
    then have "Blocking r o' \<in> set (threads e)" unfolding t using set_goto by blast
    then show "conflicts_with (num_holding e) r \<or> (\<exists>pc\<in>set (threads ?e). will_notify pc)"
      using assms(1) ex1 unfolding wakeups_ok_def by blast
  next
    fix r o' assume "Waiting r o' \<in> set (threads ?e)"
    then consider "r = s" | "Waiting r o' \<in> set (threads e)" unfolding t using set_goto by blast
    then show "conflicts_with (num_holding e) r \<or> (\<exists>pc\<in>set (threads ?e). will_notify pc \<or> pc = Notifying)"
      using assms(1) here ex1 ex2 unfolding wakeups_ok_def by cases blast+
  qed
qed

lemma wakeups_release:
  assumes "wakeups_ok e" "counts_ok e" "i < length (threads e)" "threads e ! i = Releasing s old"
  defines "new \<equiv> num_holding e - kIntentTypeSetAdd s"
  shows "wakeups_ok (goto i (Released s new) (e\<lparr>num_holding := new\<rparr>))"
proof (cases "has_zero s new")
  case True
  let ?e = "goto i (Released s new) (e\<lparr>num_holding := new\<rparr>)"
  have "Released s new \<in> set (threads ?e)" using assms(3) by (simp add: goto_def set_update_memI)
  with True have "\<exists>pc\<in>set (threads ?e). will_notify pc" by force
  then show ?thesis unfolding wakeups_ok_def by blast
next
  case False
  have le: "one_of s t \<le> counter (num_holding e) t" for t
    using how_many_pos [of i e "holder t"] assms(2-4) by (simp add: counts_ok_def one_of_def Suc_le_eq)
  then have c: "counter new t = counter (num_holding e) t - one_of s t" for t
    unfolding new_def by (rule counter_sub)
  have nz: "counter new t \<noteq> 0" if "Test s t" for t
    using False that by (auto simp: has_zero_def list_ex_iff set_types_of mask_zero)
  have "counter new t \<noteq> 0" if "counter (num_holding e) t \<noteq> 0" for t
    using that nz c by (cases "Test s t") (simp_all add: one_of_def)
  then have "conflicts_with (num_holding e) r \<Longrightarrow> conflicts_with new r" for r
    unfolding conflicts_with_counters by blast
  then show ?thesis
    using wakeups_goto [OF assms(1,3), where st = new and pc = "Released s new" and n = "num_waiters e" and m = "mutex_held e"] assms(4) by simp
qed

lemma none_such: "how_many P e = 0 \<Longrightarrow> pc \<in> set (threads e) \<Longrightarrow> \<not> P pc"
  by (simp add: how_many_def filter_empty_conv)

lemma wakeups_released:
  assumes "wakeups_ok e" "counts_ok e" "i < length (threads e)" "threads e ! i = Released s new"
  shows "wakeups_ok (goto i (if num_waiters e = 0 \<or> \<not> has_zero s new then Outside else Passing) e)"
proof (cases "num_waiters e = 0")
  case True
  then have "\<not> counted pc" if "pc \<in> set (threads e)" for pc
    using that assms(2) none_such [of counted e] by (simp add: counts_ok_def)
  then have "Blocking r o' \<notin> set (threads e)" "Waiting r o' \<notin> set (threads e)" for r o' by force+
  then have "Blocking r o' \<notin> set (threads (goto i Outside e))" "Waiting r o' \<notin> set (threads (goto i Outside e))" for r o'
    using set_goto [of _ i Outside e] by blast+
  with True show ?thesis by (simp add: wakeups_ok_def)
next
  case False
  with assms show ?thesis by (auto intro!: wakeups_other(1))
qed

lemma wakeups_passing:
  assumes "wakeups_ok e" "counts_ok e" "i < length (threads e)" "\<not> mutex_held e"
  shows "wakeups_ok (goto i Notifying e)"
proof -
  have "\<not> in_mutex pc" if "pc \<in> set (threads e)" for pc
    using that assms(2,4) none_such [of in_mutex e] by (simp add: counts_ok_def)
  then have "Blocking r o' \<notin> set (threads e)" for r o' by force
  then have "Blocking r o' \<notin> set (threads (goto i Notifying e))" for r o'
    using set_goto [of _ i Notifying e] by blast
  moreover have "Notifying \<in> set (threads (goto i Notifying e))"
    using assms(3) by (simp add: goto_def set_update_memI)
  ultimately show ?thesis unfolding wakeups_ok_def by blast
qed

lemma in_wake:
  "Waiting r o' \<notin> set (map wake pcs)" "Blocking r o' \<in> set (map wake pcs) \<Longrightarrow> Blocking r o' \<in> set pcs"
  by (induction pcs) (simp_all add: eq_commute [of _ "wake _"], metis wake_simps(6))

lemma wakeups_notify:
  assumes "wakeups_ok e" "i < length (threads e)" "threads e ! i = Notifying"
  shows "wakeups_ok (goto i Outside (e\<lparr>threads := map wake (threads e)\<rparr>))"
proof -
  let ?w = "e\<lparr>threads := map wake (threads e)\<rparr>" let ?e = "goto i Outside ?w"
  have "Waiting r o' \<notin> set (threads ?w)" for r o' using in_wake(1) by simp
  then have wt: "Waiting r o' \<notin> set (threads ?e)" for r o' using set_goto [of _ i Outside ?w] by blast
  have ex: "\<exists>pc\<in>set (threads ?e). will_notify pc" if "\<exists>pc\<in>set (threads e). will_notify pc"
    using that assms(2,3) by (intro ex_goto) auto
  have "conflicts_with (num_holding ?e) r \<or> (\<exists>pc\<in>set (threads ?e). will_notify pc)"
    if "Blocking r o' \<in> set (threads ?e)" for r o'
  proof -
    have "Blocking r o' \<in> set (threads ?w)" using that set_goto [of _ i Outside ?w] by blast
    then have "Blocking r o' \<in> set (threads e)" using in_wake(2) [of r o' "threads e"] by simp
    then show ?thesis using assms(1) ex unfolding wakeups_ok_def by auto
  qed
  with wt show ?thesis unfolding wakeups_ok_def by blast
qed

lemma wakeups_step:
  assumes "lock_step e e'" "counts_ok e" "length (threads e) < 65536" "wakeups_ok e"
  shows "wakeups_ok e'"
  using assms(1)
proof cases
  case (proceed i spurious)
  note i = proceed(1) and step = proceed(2) and other = wakeups_other [OF assms(4) proceed(1)]
  show ?thesis
  proof (cases "threads e ! i")
    case (Trying s old)
    then show ?thesis
      using step wakeups_acquire [OF assms(4,2) i assms(3)] other(1) by (auto split: if_splits)
  next
    case (Checking s)
    then show ?thesis
      using step wakeups_block [OF assms(4) i] other(1) by (auto split: if_splits)
  next
    case (Blocking s old)
    then show ?thesis using step wakeups_wait [OF assms(4) i] by auto
  next
    case (Releasing s old)
    then show ?thesis
      using step wakeups_release [OF assms(4,2) i] other(1) by (auto simp: Let_def split: if_splits)
  next
    case (Released s new)
    then show ?thesis using step wakeups_released [OF assms(4,2) i] by auto
  next
    case Passing
    then show ?thesis using step wakeups_passing [OF assms(4,2) i] by (auto split: if_splits)
  next
    case Notifying
    then show ?thesis using step wakeups_notify [OF assms(4) i] by auto
  qed (use step other in \<open>auto split: if_splits\<close>)
qed (use wakeups_other(1) [OF assms(4)] in \<open>auto\<close>)

definition lock_inv :: "nat \<Rightarrow> lock_entry \<Rightarrow> bool" where
  "lock_inv n e \<longleftrightarrow> length (threads e) = n \<and> counts_ok e \<and> exclusive e \<and> wakeups_ok e"

lemma lock_inv_init: "lock_inv n (lock_entry_init n)"
proof -
  have "counter 0 t = 0" for t by (simp add: counter_def)
  moreover have "how_many P (lock_entry_init n) = 0" if "\<not> P Outside" for P
    using that by (simp add: how_many_def lock_entry_init_def)
  ultimately have "counts_ok (lock_entry_init n)"
    by (simp add: counts_ok_def lock_entry_init_def how_many_def)
  then show ?thesis
    by (simp add: lock_inv_def lock_entry_init_def exclusive_def wakeups_ok_def)
qed

lemma lock_inv_reachable:
  assumes "lock_reachable n e" "n < 65536"
  shows "lock_inv n e"
  using assms(1)
proof induction
  case init
  then show ?case by (rule lock_inv_init)
next
  case (step e e')
  then show ?case
    using assms(2) counts_step exclusive_step wakeups_step unfolding lock_inv_def by metis
qed

section \<open>The properties of the lock\<close>

lemma holder_iff: "holder t pc \<longleftrightarrow> (\<exists>s. holds pc = Some s \<and> Test s t)"
  by (simp add: holder_def split: option.split)

lemma mutex_owner:
  assumes "counts_ok e" "mutex_held e"
  obtains i where "i < length (threads e)" "in_mutex (threads e ! i)"
proof -
  have "filter in_mutex (threads e) \<noteq> []" using assms by (auto simp: counts_ok_def how_many_def)
  then show thesis using that by (auto simp: filter_empty_conv in_set_conv_nth)
qed

lemma stuck_threads:
  assumes "counts_ok e" "\<And>i. i < length (threads e) \<Longrightarrow> entry_step False i (threads e ! i) e = None"
    and "i < length (threads e)"
  shows "\<not> mutex_held e \<and> (threads e ! i = Outside \<or> (\<exists>s. threads e ! i = Holding s) \<or> (\<exists>s old. threads e ! i = Waiting s old))"
proof -
  have "\<not> mutex_held e"
  proof
    assume "mutex_held e"
    then obtain j where j: "j < length (threads e)" "in_mutex (threads e ! j)" using mutex_owner assms(1) by blast
    then show False using assms(2) [OF j(1)] by (cases "threads e ! j") auto
  qed
  then show ?thesis using assms(2) [OF assms(3)]
    by (cases "threads e ! i") (auto simp: Let_def split: if_splits)
qed

lemma entry_step_length: "entry_step spurious i pc e = Some e' \<Longrightarrow> length (threads e') = length (threads e)"
  by (cases pc) (auto simp: goto_def Let_def split: if_splits)

lemma lock_threads_length: "lock_reachable n e \<Longrightarrow> length (threads e) = n"
proof (induction rule: lock_reachable.induct)
  case (step e e')
  from step(2,3) show ?case by cases (auto simp: entry_step_length)
qed (simp add: lock_entry_init_def)

lemma reach_proceed:
  "lock_reachable n e \<Longrightarrow> i < length (threads e) \<Longrightarrow> entry_step False i (threads e ! i) e = Some e' \<Longrightarrow>
   lock_reachable n e'"
  by (rule lock_reachable.step, assumption, rule lock_step.proceed)

lemma reach_call:
  "lock_reachable n e \<Longrightarrow> i < length (threads e) \<Longrightarrow> threads e ! i = Outside \<Longrightarrow>
   lock_reachable n (goto i (Trying s (num_holding e)) e)"
  by (rule lock_reachable.step, assumption, rule lock_step.call_lock)

lemma lock_stuck:
  assumes "lock_reachable n e" "n < 65536" "i < n"
    and "\<And>j. j < n \<Longrightarrow> entry_step False j (threads e ! j) e = None"
  shows "\<not> mutex_held e \<and>
    (threads e ! i = Outside \<or> (\<exists>s. threads e ! i = Holding s) \<or>
     (\<exists>s old j held. threads e ! i = Waiting s old \<and> j < n \<and> threads e ! j = Holding held \<and>
        IntentTypeSetsConflict s held))"
proof -
  have inv: "counts_ok e" "length (threads e) = n" "wakeups_ok e"
    using lock_inv_reachable [OF assms(1,2)] by (simp_all add: lock_inv_def)
  have at: "\<not> mutex_held e \<and> (threads e ! j = Outside \<or> (\<exists>s. threads e ! j = Holding s) \<or> (\<exists>s old. threads e ! j = Waiting s old))"
    if "j < n" for j using stuck_threads inv assms(4) that by blast
  have "\<exists>j held. j < n \<and> threads e ! j = Holding held \<and> IntentTypeSetsConflict s held"
    if w: "threads e ! i = Waiting s old" for s old
  proof -
    have "\<not> (will_notify pc \<or> pc = Notifying)" if "pc \<in> set (threads e)" for pc
      using that at inv(2) by (fastforce simp: in_set_conv_nth)
    moreover have "Waiting s old \<in> set (threads e)" using w assms(3) inv(2) nth_mem by metis
    ultimately have "conflicts_with (num_holding e) s" using inv(3) unfolding wakeups_ok_def by blast
    then obtain t u where tu: "Test s t" "IntentTypesConflict t u" "counter (num_holding e) u \<noteq> 0"
      unfolding conflicts_with_counters by blast
    then have "filter (holder u) (threads e) \<noteq> []" using inv(1) by (auto simp: counts_ok_def how_many_def)
    then obtain j where j: "j < n" "holder u (threads e ! j)"
      using inv(2) by (auto simp: filter_empty_conv in_set_conv_nth)
    then obtain held where "threads e ! j = Holding held" "Test held u"
      using at [of j] by (auto simp: holder_def)
    with tu j show ?thesis unfolding IntentTypeSetsConflict_iff by blast
  qed
  with at [OF assms(3)] show ?thesis by blast
qed

text \<open>Mutual exclusion. Whatever the interleaving of the threads, two threads that hold one lock at
  the same time hold sets of intent types that do not conflict.\<close>

theorem lock_mutual_exclusion:
  assumes "lock_reachable n e" "n < 65536" "i < n" "j < n" "i \<noteq> j"
    and "threads e ! i = Holding a" "threads e ! j = Holding b"
  shows "\<not> IntentTypeSetsConflict a b"
proof -
  have "exclusive e" "length (threads e) = n" using lock_inv_reachable [OF assms(1,2)] by (simp_all add: lock_inv_def)
  with assms(3-7) show ?thesis by (auto simp: exclusive_def)
qed

definition reads_shared :: lock_entry where
  "reads_shared = \<lparr>num_holding = 0x0000000200000000, num_waiters = 0, mutex_held = False,
     threads = [Holding (IntentTypeSet [kStrongRead]), Holding (IntentTypeSet [kStrongRead])]\<rparr>"

lemmas lock_run_simps = goto_def lock_entry_init_def conflicts_with_def kIntentTypeSetConflicts_def
  kIntentTypeSetAdd_def GenerateByMask_def types_of_def kIntentTypeList_def IntentTypesConflict_def
  IntentTypeSet_def Set_def Test_def IntentTypeMask_def kSingleIntentMask_def

lemma reads_shared_reachable: "lock_reachable 2 reads_shared"
proof -
  let ?r = "IntentTypeSet [kStrongRead]"
  let ?e = "\<lambda>st a b. \<lparr>num_holding = st, num_waiters = 0, mutex_held = False, threads = [a, b]\<rparr>"
  have "lock_reachable 2 (?e 0 Outside Outside)"
    using lock_reachable.init [of 2] by (simp add: lock_entry_init_def numeral_2_eq_2)
  then have "lock_reachable 2 (?e 0 (Trying ?r 0) Outside)"
    using reach_call [of 2 "?e 0 Outside Outside" 0 ?r] by (simp add: goto_def)
  then have "lock_reachable 2 (?e 0x100000000 (Holding ?r) Outside)"
    using reach_proceed [of 2 "?e 0 (Trying ?r 0) Outside" 0] by (simp add: lock_run_simps)
  then have "lock_reachable 2 (?e 0x100000000 (Holding ?r) (Trying ?r 0x100000000))"
    using reach_call [of 2 "?e 0x100000000 (Holding ?r) Outside" 1 ?r] by (simp add: goto_def)
  then show ?thesis
    using reach_proceed [of 2 "?e 0x100000000 (Holding ?r) (Trying ?r 0x100000000)" 1]
    unfolding reads_shared_def by (simp add: lock_run_simps)
qed

theorem lock_mutual_exclusion_witness:
  "\<not> IntentTypeSetsConflict (IntentTypeSet [kStrongRead]) (IntentTypeSet [kStrongRead])"
  using lock_mutual_exclusion [OF reads_shared_reachable, of 0 1] by (simp add: reads_shared_def)

text \<open>C3. No lost wake-up and no deadlock inside the lock. When no thread in \<open>Lock\<close> or \<open>Unlock\<close> can take
  a step, the mutex is free, every thread is outside, holds the lock, or waits, and the request of each
  waiting thread conflicts with what some other thread holds.\<close>

theorem lock_no_lost_wakeup:
  assumes "lock_reachable n e" "n < 65536" "i < n"
    and "\<And>j. j < n \<Longrightarrow> entry_step False j (threads e ! j) e = None"
  shows "\<not> mutex_held e \<and>
    (threads e ! i = Outside \<or> (\<exists>s. threads e ! i = Holding s) \<or>
     (\<exists>s old j held. threads e ! i = Waiting s old \<and> j < n \<and> threads e ! j = Holding held \<and>
        IntentTypeSetsConflict s held))"
  using lock_stuck [OF assms] .

definition writer_waits :: lock_entry where
  "writer_waits = \<lparr>num_holding = 0x100000000, num_waiters = 1, mutex_held = False,
     threads = [Holding (IntentTypeSet [kStrongRead]), Waiting (IntentTypeSet [kStrongWrite]) 0x100000000]\<rparr>"

lemma writer_waits_reachable: "lock_reachable 2 writer_waits"
proof -
  let ?r = "IntentTypeSet [kStrongRead]" let ?w = "IntentTypeSet [kStrongWrite]" let ?s = "0x100000000 :: lock_state"
  let ?e = "\<lambda>st n m a b. \<lparr>num_holding = st, num_waiters = n, mutex_held = m, threads = [a, b]\<rparr>"
  have "lock_reachable 2 (?e 0 0 False Outside Outside)"
    using lock_reachable.init [of 2] by (simp add: lock_entry_init_def numeral_2_eq_2)
  then have "lock_reachable 2 (?e 0 0 False (Trying ?r 0) Outside)"
    using reach_call [of 2 "?e 0 0 False Outside Outside" 0 ?r] by (simp add: goto_def)
  then have "lock_reachable 2 (?e ?s 0 False (Holding ?r) Outside)"
    using reach_proceed [of 2 "?e 0 0 False (Trying ?r 0) Outside" 0] by (simp add: lock_run_simps)
  then have "lock_reachable 2 (?e ?s 0 False (Holding ?r) (Trying ?w ?s))"
    using reach_call [of 2 "?e ?s 0 False (Holding ?r) Outside" 1 ?w] by (simp add: goto_def)
  then have "lock_reachable 2 (?e ?s 0 False (Holding ?r) (Joining ?w ?s))"
    using reach_proceed [of 2 "?e ?s 0 False (Holding ?r) (Trying ?w ?s)" 1] by (simp add: lock_run_simps)
  then have "lock_reachable 2 (?e ?s 1 False (Holding ?r) (Entering ?w))"
    using reach_proceed [of 2 "?e ?s 0 False (Holding ?r) (Joining ?w ?s)" 1] by (simp add: goto_def)
  then have "lock_reachable 2 (?e ?s 1 True (Holding ?r) (Checking ?w))"
    using reach_proceed [of 2 "?e ?s 1 False (Holding ?r) (Entering ?w)" 1] by (simp add: goto_def)
  then have "lock_reachable 2 (?e ?s 1 True (Holding ?r) (Blocking ?w ?s))"
    using reach_proceed [of 2 "?e ?s 1 True (Holding ?r) (Checking ?w)" 1] by (simp add: lock_run_simps)
  then show ?thesis
    using reach_proceed [of 2 "?e ?s 1 True (Holding ?r) (Blocking ?w ?s)" 1]
    unfolding writer_waits_def by (simp add: goto_def)
qed

theorem lock_no_lost_wakeup_witness:
  "IntentTypeSetsConflict (IntentTypeSet [kStrongWrite]) (IntentTypeSet [kStrongRead])"
proof -
  have "entry_step False j (threads writer_waits ! j) writer_waits = None" if "j < 2" for j
    using that by (auto simp: writer_waits_def less_2_cases_iff)
  then show ?thesis
    using lock_no_lost_wakeup [OF writer_waits_reachable, of 1] by (auto simp: writer_waits_def less_2_cases_iff)
qed

text \<open>C29. The packed word. In every reachable state the 16-bit counter of an intent type is the number of
  threads that hold the lock with that type, and a request conflicts with the word exactly when it
  conflicts with the set of some holder.\<close>

theorem lock_state_counts_holders:
  assumes "lock_reachable n e" "n < 65536"
  shows "unat (num_holding e) div 65536 ^ to_underlying t mod 65536 = length (filter (holder t) (threads e)) \<and>
    (conflicts_with (num_holding e) s \<longleftrightarrow>
      (\<exists>pc\<in>set (threads e). \<exists>held. holds pc = Some held \<and> IntentTypeSetsConflict s held))"
proof -
  have c: "counter (num_holding e) t = length (filter (holder t) (threads e))" for t
    using lock_inv_reachable [OF assms] by (simp add: lock_inv_def counts_ok_def how_many_def)
  have "conflicts_with (num_holding e) s \<longleftrightarrow> (\<exists>t u. Test s t \<and> IntentTypesConflict t u \<and> (\<exists>pc\<in>set (threads e). holder u pc))"
    unfolding conflicts_with_counters c by (simp add: filter_empty_conv)
  also have "\<dots> \<longleftrightarrow> (\<exists>pc\<in>set (threads e). \<exists>held. holds pc = Some held \<and> IntentTypeSetsConflict s held)"
    unfolding IntentTypeSetsConflict_iff holder_iff by blast
  finally show ?thesis using c [of t] by (simp add: counter_def)
qed

theorem lock_state_counts_holders_witness:
  "unat (num_holding reads_shared) div 65536 ^ to_underlying kStrongRead mod 65536 = 2 \<and>
   \<not> conflicts_with (num_holding reads_shared) (IntentTypeSet [kStrongRead])"
  using lock_state_counts_holders [OF reads_shared_reachable, of kStrongRead "IntentTypeSet [kStrongRead]"]
  by (simp add: reads_shared_def holder_def lock_run_simps)

text \<open>C30. Row marks. For the row marks that lock rows, \<open>AreConflictingRowMarkTypes\<close> agrees with the
  intents that the marks ask for: two marks conflict exactly when the sets of strong intents written for
  them do, whatever the isolation levels and the kinds of operation.\<close>

theorem row_marks_conflict_as_intents:
  assumes "IsValidRowMarkType a" "IsValidRowMarkType b"
  shows "AreConflictingRowMarkTypes a b \<longleftrightarrow>
    IntentTypeSetsConflict (GetStrongIntentTypeSet level kind a) (GetStrongIntentTypeSet level' kind' b)"
  using assms
  by (cases a; cases b)
    (simp_all add: IsValidRowMarkType_def AreConflictingRowMarkTypes_def GetStrongIntentTypeSet_def
      IntentTypeSetsConflict_def lock_run_simps)

theorem row_marks_conflict_as_intents_witness:
  "AreConflictingRowMarkTypes ROW_MARK_NOKEYEXCLUSIVE ROW_MARK_KEYSHARE \<longleftrightarrow>
    IntentTypeSetsConflict (GetStrongIntentTypeSet SNAPSHOT_ISOLATION kWrite ROW_MARK_NOKEYEXCLUSIVE)
      (GetStrongIntentTypeSet SERIALIZABLE_ISOLATION kRead ROW_MARK_KEYSHARE)"
  by (rule row_marks_conflict_as_intents) (simp_all add: IsValidRowMarkType_def)

end
