(* ===== verification/LockBatches.thy ===== *)
theory LockBatches
  imports SharedLockManager "HOL-Library.List_Lexorder"
begin

text \<open>
  The lock manager of a tablet and the batches of locks that operations take from it:
  \<^verbatim>\<open>SharedLockManager::Impl\<close> in \<^verbatim>\<open>src/yb/docdb/shared_lock_manager.cc\<close>, \<^verbatim>\<open>src/yb/docdb/lock_batch.cc\<close> and the
  preparation of a batch in \<^verbatim>\<open>src/yb/docdb/docdb.cc\<close>. The locks of single keys are those of
  \<open>SharedLockManager\<close>, every step of which is a step here. The calls on one \<open>LockBatch\<close> follow each
  other, so the thread in a call is named by its batch. Reserving and cleaning up happen in the
  global mutex, without waiting, and are one step each.
\<close>

section \<open>Preparing a batch\<close>

text \<open>The keys and types to lock, before locks are attached to them.\<close>

type_synonym lock_requests = "(slice \<times> intent_type_set) list"

definition kGroupEnd :: byte where "kGroupEnd = 33"

text \<open>Keys are compared as unsigned bytes, then by size.\<close>

fun memcmp :: "slice \<Rightarrow> slice \<Rightarrow> int" where
  "memcmp (x # xs) (y # ys) = (if x = y then memcmp xs ys else uint x - uint y)"
| "memcmp _ _ = 0"

definition Compare :: "slice \<Rightarrow> slice \<Rightarrow> int" where
  "Compare a b =
     (let min_len = min (length a) (length b); r = memcmp (take min_len a) (take min_len b) in
      if r = 0 \<and> length a < length b then -1
      else if r = 0 \<and> length a > length b then 1
      else r)"

definition ApplyIntent :: "slice \<Rightarrow> intent_type_set \<Rightarrow> lock_requests \<Rightarrow> lock_requests result" where
  "ApplyIntent key types keys_locked =
     (if key \<noteq> [] \<and> hd key = kGroupEnd
      then if length key \<noteq> 1 then Inl Corruption else Inr (keys_locked @ [([], types)])
      else Inr (keys_locked @ [(rev (dropWhile (\<lambda>b. b = kGroupEnd) (rev key)), types)]))"

fun filter_loop :: "slice \<times> intent_type_set \<Rightarrow> lock_requests \<Rightarrow> lock_requests" where
  "filter_loop w [] = [w]"
| "filter_loop w (x # xs) =
     (if fst x = fst w then filter_loop (fst w, snd w OR snd x) xs else w # filter_loop x xs)"

definition FilterKeysToLock :: "lock_requests \<Rightarrow> lock_requests" where
  "FilterKeysToLock keys_locked =
     (case sort_key fst keys_locked of [] \<Rightarrow> [] | w # xs \<Rightarrow> filter_loop w xs)"

section \<open>The lock manager\<close>

text \<open>A lock with its reference count; a pointer to it is its index in \<open>lock_entries\<close>.\<close>

record locked_batch_entry =
  ref_count :: nat
  entry :: lock_entry

record lock_batch_entry =
  batch_key :: slice
  lock_types :: intent_type_set
  locked :: nat

text \<open>
  Where a batch is. \<open>Idle\<close>: nothing is locked; the status of the last attempt. \<open>Reserving\<close>: at the start
  of \<open>Lock\<close>. \<open>Acquiring\<close>: at the head of its loop, that many locks taken. \<open>InLock\<close>: in the \<open>Lock\<close> of an
  entry. \<open>Held\<close>: \<open>Lock\<close> returned true. \<open>Dropping\<close>: at the head of the loop that unlocks backwards, that
  many locks left, in \<open>Unlock\<close> or after a failure in \<open>Lock\<close>. \<open>InUnlock\<close>: in the \<open>Unlock\<close> of an entry.
  \<open>Cleaning\<close>: about to clean up.
\<close>

datatype batch_pc =
    Idle "status option"
  | Reserving lock_requests
  | Acquiring "lock_batch_entry list" nat
  | InLock "lock_batch_entry list" nat
  | Held "lock_batch_entry list"
  | Dropping "status option" "lock_batch_entry list" nat
  | InUnlock "status option" "lock_batch_entry list" nat
  | Cleaning "status option" "lock_batch_entry list"

record lock_manager =
  locks :: "slice \<rightharpoonup> nat"
  lock_entries :: "locked_batch_entry list"
  free_lock_entries :: "nat list"
  batches :: "batch_pc list"

definition change_entry :: "nat \<Rightarrow> (locked_batch_entry \<Rightarrow> locked_batch_entry) \<Rightarrow> lock_manager \<Rightarrow> lock_manager" where
  "change_entry p f m = m\<lparr>lock_entries := (lock_entries m)[p := f (lock_entries m ! p)]\<rparr>"

definition find_entry :: "slice \<Rightarrow> lock_manager \<Rightarrow> nat \<times> lock_manager" where
  "find_entry k m =
     (case locks m k of
        Some p \<Rightarrow> (p, m)
      | None \<Rightarrow>
          if free_lock_entries m \<noteq> []
          then let p = last (free_lock_entries m)
               in (p, m\<lparr>locks := (locks m)(k \<mapsto> p), free_lock_entries := butlast (free_lock_entries m)\<rparr>)
          else let p = length (lock_entries m)
               in (p, m\<lparr>locks := (locks m)(k \<mapsto> p),
                        lock_entries := lock_entries m @
                          [\<lparr>ref_count = 0, entry = lock_entry_init (length (batches m))\<rparr>]\<rparr>))"

fun Reserve :: "lock_requests \<Rightarrow> lock_manager \<Rightarrow> lock_batch_entry list \<times> lock_manager" where
  "Reserve [] m = ([], m)"
| "Reserve ((k, s) # rs) m =
     (case find_entry k m of (p, m) \<Rightarrow>
      case Reserve rs (change_entry p (ref_count_update (\<lambda>c. c + 1)) m) of (es, m) \<Rightarrow>
        (\<lparr>batch_key = k, lock_types = s, locked = p\<rparr> # es, m))"

fun Cleanup :: "lock_batch_entry list \<Rightarrow> lock_manager \<Rightarrow> lock_manager" where
  "Cleanup [] m = m"
| "Cleanup (x # xs) m =
     (let m = change_entry (locked x) (ref_count_update (\<lambda>c. c - 1)) m in
      Cleanup xs (if ref_count (lock_entries m ! locked x) = 0
                  then m\<lparr>locks := (locks m)(batch_key x := None),
                         free_lock_entries := free_lock_entries m @ [locked x]\<rparr>
                  else m))"

section \<open>Steps\<close>

definition batch_at :: "nat \<Rightarrow> batch_pc \<Rightarrow> lock_manager \<Rightarrow> lock_manager" where
  "batch_at i pc m = m\<lparr>batches := (batches m)[i := pc]\<rparr>"

definition lock_of :: "nat \<Rightarrow> lock_manager \<Rightarrow> lock_entry" where
  "lock_of p m = entry (lock_entries m ! p)"

definition set_lock :: "nat \<Rightarrow> lock_entry \<Rightarrow> lock_manager \<Rightarrow> lock_manager" where
  "set_lock p e = change_entry p (entry_update (\<lambda>_. e))"

text \<open>The steps of a batch in a call: \<open>SharedLockManager::Impl::Lock\<close>, \<open>Unlock\<close>, and the constructor of
  \<open>LockBatch\<close> for the status.\<close>

fun batch_step :: "bool \<Rightarrow> nat \<Rightarrow> batch_pc \<Rightarrow> lock_manager \<Rightarrow> lock_manager option" where
  "batch_step spurious i (Reserving rs) m =
     (case Reserve rs m of (es, m) \<Rightarrow> Some (batch_at i (Acquiring es 0) m))"
| "batch_step spurious i (Acquiring es n) m =
     (if n < length es
      then let p = locked (es ! n); e = lock_of p m
           in Some (batch_at i (InLock es n)
                (set_lock p (goto i (Trying (lock_types (es ! n)) (num_holding e)) e) m))
      else Some (batch_at i (Held es) m))"
| "batch_step spurious i (InLock es n) m =
     (let p = locked (es ! n); e = lock_of p m in
      case threads e ! i of
        Holding s \<Rightarrow> Some (batch_at i (Acquiring es (Suc n)) m)
      | Outside \<Rightarrow> Some (batch_at i (Dropping (Some TryAgain) es n) m)
      | pc \<Rightarrow> map_option (\<lambda>e'. set_lock p e' m) (entry_step spurious i pc e))"
| "batch_step spurious i (Dropping st es 0) m = Some (batch_at i (Cleaning st es) m)"
| "batch_step spurious i (Dropping st es (Suc n)) m =
     (let p = locked (es ! n); e = lock_of p m
      in Some (batch_at i (InUnlock st es n)
           (set_lock p (goto i (Releasing (lock_types (es ! n)) (num_holding e)) e) m)))"
| "batch_step spurious i (InUnlock st es n) m =
     (let p = locked (es ! n); e = lock_of p m in
      case threads e ! i of
        Outside \<Rightarrow> Some (batch_at i (Dropping st es n) m)
      | pc \<Rightarrow> map_option (\<lambda>e'. set_lock p e' m) (entry_step spurious i pc e))"
| "batch_step spurious i (Cleaning st es) m = Some (batch_at i (Idle st) (Cleanup es m))"
| "batch_step spurious i pc m = None"

inductive manager_step :: "lock_manager \<Rightarrow> lock_manager \<Rightarrow> bool" where
  proceed: "i < length (batches m) \<Longrightarrow> batch_step spurious i (batches m ! i) m = Some m' \<Longrightarrow> manager_step m m'"
| lock_batch: "i < length (batches m) \<Longrightarrow> batches m ! i = Idle st \<Longrightarrow> keys_locked \<noteq> [] \<Longrightarrow>
    manager_step m (batch_at i (Reserving (FilterKeysToLock keys_locked)) m)"
| reset: "i < length (batches m) \<Longrightarrow> batches m ! i = Held es \<Longrightarrow>
    manager_step m (batch_at i (Dropping None es (length es)) m)"
| wakeup: "i < length (batches m) \<Longrightarrow> batches m ! i = InLock es n \<Longrightarrow>
    threads (lock_of (locked (es ! n)) m) ! i = Waiting s old \<Longrightarrow>
    manager_step m (set_lock (locked (es ! n)) (goto i (Waking s old timeout) (lock_of (locked (es ! n)) m)) m)"

definition lock_manager_init :: "nat \<Rightarrow> lock_manager" where
  "lock_manager_init n =
     \<lparr>locks = Map.empty, lock_entries = [], free_lock_entries = [], batches = replicate n (Idle None)\<rparr>"

inductive manager_reachable :: "nat \<Rightarrow> lock_manager \<Rightarrow> bool" for n where
  init: "manager_reachable n (lock_manager_init n)"
| step: "manager_reachable n m \<Longrightarrow> manager_step m m' \<Longrightarrow> manager_reachable n m'"

section \<open>The keys of a batch\<close>

lemma Compare_less: "Compare a b < 0 \<longleftrightarrow> a < b"
proof (induction a arbitrary: b)
  case Nil
  then show ?case by (cases b) (simp_all add: Compare_def)
next
  case (Cons x xs)
  note IH = Cons.IH
  show ?case
  proof (cases b)
    case (Cons y ys)
    have "Compare (x # xs) (y # ys) = (if x = y then Compare xs ys else uint x - uint y)"
      by (auto simp: Compare_def Let_def intro: word_uint_eqI)
    then show ?thesis using IH [of ys] Cons by (simp add: word_less_def)
  qed (simp add: Compare_def)
qed

lemma Test_or: "Test (a OR b) t \<longleftrightarrow> Test a t \<or> Test b t"
  by (cases t) (simp_all add: Test_def bit_or_iff)

lemma filter_loop_keys: "fst ` set (filter_loop w xs) = fst ` set (w # xs)"
  by (induction w xs rule: filter_loop.induct) auto

lemma filter_loop_types:
  "(\<exists>s. (k, s) \<in> set (filter_loop w xs) \<and> Test s t) \<longleftrightarrow> (\<exists>s. (k, s) \<in> set (w # xs) \<and> Test s t)"
  by (induction w xs rule: filter_loop.induct) (auto simp: Test_or)

lemma filter_loop_sorted: "sorted (map fst (w # xs)) \<Longrightarrow> sorted_wrt (<) (map fst (filter_loop w xs))"
proof (induction w xs rule: filter_loop.induct)
  case (2 w x xs)
  show ?case
  proof (cases "fst x = fst w")
    case False
    then have "fst w < fst x" using 2(3) by auto
    then have "\<forall>k\<in>fst ` set (x # xs). fst w < k" using 2(3) by auto
    then have "\<forall>k\<in>fst ` set (filter_loop x xs). fst w < k" by (simp only: filter_loop_keys)
    then show ?thesis using 2 False by simp
  qed (use 2 in auto)
qed simp

lemma filter_sorted: "sorted_wrt (<) (map fst (FilterKeysToLock ks))"
proof (cases "sort_key fst ks")
  case (Cons w xs)
  have "sorted (map fst (sort_key fst ks))" by simp
  then show ?thesis using filter_loop_sorted [of w xs] by (simp only: FilterKeysToLock_def Cons list.case)
qed (simp add: FilterKeysToLock_def)

lemma filter_types:
  "(\<exists>s. (k, s) \<in> set (FilterKeysToLock ks) \<and> Test s t) \<longleftrightarrow> (\<exists>s. (k, s) \<in> set ks \<and> Test s t)"
  and filter_keys: "fst ` set (FilterKeysToLock ks) = fst ` set ks"
proof -
  have s: "set (sort_key fst ks) = set ks" by simp
  show "(\<exists>s. (k, s) \<in> set (FilterKeysToLock ks) \<and> Test s t) \<longleftrightarrow> (\<exists>s. (k, s) \<in> set ks \<and> Test s t)"
  proof (cases "sort_key fst ks")
    case (Cons w xs)
    then have "set (w # xs) = set ks" using s by simp
    then show ?thesis using filter_loop_types [of k w xs t] by (simp only: FilterKeysToLock_def Cons list.case)
  qed (use s in \<open>simp add: FilterKeysToLock_def\<close>)
  show "fst ` set (FilterKeysToLock ks) = fst ` set ks"
  proof (cases "sort_key fst ks")
    case (Cons w xs)
    then have "set (w # xs) = set ks" using s by simp
    then show ?thesis using filter_loop_keys [of w xs] by (simp only: FilterKeysToLock_def Cons list.case)
  qed (use s in \<open>simp add: FilterKeysToLock_def\<close>)
qed

section \<open>The table of locks\<close>

text \<open>Given the pointers that batches have to entries: the counts are right, each key has one entry of its
  own, and the entries without references are the free ones.\<close>

definition table_ok :: "nat \<Rightarrow> nat list \<Rightarrow> lock_manager \<Rightarrow> bool" where
  "table_ok n R m \<longleftrightarrow>
     length (batches m) = n \<and> set R \<subseteq> {..<length (lock_entries m)} \<and>
     (\<forall>p<length (lock_entries m). ref_count (lock_entries m ! p) = count_list R p \<and> lock_reachable n (lock_of p m)) \<and>
     (\<forall>k p. locks m k = Some p \<longrightarrow> p \<in> set R) \<and> inj_on (locks m) (dom (locks m)) \<and>
     distinct (free_lock_entries m) \<and> set (free_lock_entries m) = {..<length (lock_entries m)} - set R"

text \<open>What reserving and cleaning keep: the entries in use stay, new ones are unused.\<close>

definition table_extends :: "nat list \<Rightarrow> lock_manager \<Rightarrow> lock_manager \<Rightarrow> bool" where
  "table_extends R m m' \<longleftrightarrow>
     batches m' = batches m \<and> length (lock_entries m) \<le> length (lock_entries m') \<and>
     (\<forall>p<length (lock_entries m'). lock_of p m' =
        (if p < length (lock_entries m) then lock_of p m else lock_entry_init (length (batches m)))) \<and>
     (\<forall>k p. locks m k = Some p \<longrightarrow> p \<in> set R \<longrightarrow> locks m' k = Some p)"

lemma table_extends_refl [simp]: "table_extends R m m"
  by (simp add: table_extends_def)

lemma table_extends_trans: "table_extends R m m' \<Longrightarrow> table_extends R m' m'' \<Longrightarrow> table_extends R m m''"
  unfolding table_extends_def by (auto split: if_splits)

lemma table_extends_mono: "table_extends R m m' \<Longrightarrow> set R' \<subseteq> set R \<Longrightarrow> table_extends R' m m'"
  unfolding table_extends_def by blast

lemma change_simps [simp]:
  "length (lock_entries (change_entry p g m)) = length (lock_entries m)"
  "locks (change_entry p g m) = locks m" "batches (change_entry p g m) = batches m"
  "free_lock_entries (change_entry p g m) = free_lock_entries m"
  by (simp_all add: change_entry_def)

lemma change_nth:
  "p < length (lock_entries m) \<Longrightarrow>
   lock_entries (change_entry p g m) ! q = (if q = p then g (lock_entries m ! p) else lock_entries m ! q)"
  by (simp add: change_entry_def)

lemma change_ref [simp]:
  "p < length (lock_entries m) \<Longrightarrow> lock_of q (change_entry p (ref_count_update f) m) = lock_of q m"
  by (simp add: lock_of_def change_nth)

lemma add_ref_ok:
  assumes "length (batches m) = n" "p < length (lock_entries m)" "set R \<subseteq> {..<length (lock_entries m)}"
    and "\<And>q. q < length (lock_entries m) \<Longrightarrow> ref_count (lock_entries m ! q) = count_list R q \<and> lock_reachable n (lock_of q m)"
    and "\<And>k q. locks m k = Some q \<Longrightarrow> q \<in> set (p # R)" "inj_on (locks m) (dom (locks m))"
    and "distinct (free_lock_entries m)" "set (free_lock_entries m) = {..<length (lock_entries m)} - set (p # R)"
  shows "table_ok n (p # R) (change_entry p (ref_count_update (\<lambda>c. c + 1)) m)"
  unfolding table_ok_def using assms by (simp add: change_nth)

lemma fresh_inj:
  assumes "\<And>k p. f k = Some p \<Longrightarrow> p \<in> A" "inj_on f (dom f)" "q \<notin> A"
  shows "inj_on (f(k \<mapsto> q)) (dom (f(k \<mapsto> q)))"
  using assms by (auto simp: inj_on_def dom_def)

lemma find_entry_ok:
  assumes t: "table_ok n R m" and f: "find_entry k m = (p, m')"
  defines "m'' \<equiv> change_entry p (ref_count_update (\<lambda>c. c + 1)) m'"
  shows "table_ok n (p # R) m'' \<and> table_extends R m m'' \<and> locks m'' k = Some p"
proof (cases "locks m k")
  case (Some q)
  then have m': "m' = m" "q = p" using f by (simp_all add: find_entry_def)
  moreover have p: "p \<in> set R" "p < length (lock_entries m)" using t Some m' unfolding table_ok_def by blast+
  moreover have "table_ok n (p # R) m''"
    unfolding m''_def m'(1) by (rule add_ref_ok) (use t p in \<open>auto simp: table_ok_def\<close>)
  ultimately show ?thesis using Some unfolding m''_def table_extends_def by simp
next
  case None
  have R: "\<And>k p. locks m k = Some p \<Longrightarrow> p \<in> set R" "inj_on (locks m) (dom (locks m))" "set R \<subseteq> {..<length (lock_entries m)}"
    using t unfolding table_ok_def by blast+
  show ?thesis
  proof (cases "free_lock_entries m = []")
    case True
    let ?e = "\<lparr>ref_count = 0, entry = lock_entry_init (length (batches m))\<rparr>"
    have p: "p = length (lock_entries m)" and m': "m' = m\<lparr>locks := (locks m)(k \<mapsto> p), lock_entries := lock_entries m @ [?e]\<rparr>"
      using f None True by (auto simp: find_entry_def Let_def)
    have "p \<notin> set R" using R(3) p by auto
    have "table_ok n (p # R) m''"
      unfolding m''_def
    proof (rule add_ref_ok)
      show "inj_on (locks m') (dom (locks m'))" using fresh_inj [where k = k, OF R(1,2) \<open>p \<notin> set R\<close>] m' by simp
      show "ref_count (lock_entries m' ! q) = count_list R q \<and> lock_reachable n (lock_of q m')" if "q < length (lock_entries m')" for q
        using that t \<open>p \<notin> set R\<close> p lock_reachable.init [of n]
        by (cases "q = p") (auto simp: m' lock_of_def table_ok_def nth_append less_Suc_eq)
    qed (use t R(3) p True in \<open>auto simp: m' table_ok_def less_Suc_eq split: if_splits\<close>)
    moreover have "table_extends R m m''" using p None unfolding m''_def table_extends_def
      by (auto simp: m' lock_of_def nth_append change_nth less_Suc_eq)
    ultimately show ?thesis using m' by (simp add: m''_def)
  next
    case False
    then have p: "p = last (free_lock_entries m)"
      and m': "m' = m\<lparr>locks := (locks m)(k \<mapsto> p), free_lock_entries := butlast (free_lock_entries m)\<rparr>"
      using f None by (auto simp: find_entry_def Let_def)
    have fr: "free_lock_entries m = butlast (free_lock_entries m) @ [p]" using False p by simp
    have ds: "distinct (butlast (free_lock_entries m) @ [p])" "set (butlast (free_lock_entries m) @ [p]) = {..<length (lock_entries m)} - set R"
      using t unfolding table_ok_def fr [symmetric] by blast+
    then have pR: "p \<notin> set R" "p < length (lock_entries m)" by auto
    have "table_ok n (p # R) m''"
      unfolding m''_def
    proof (rule add_ref_ok)
      show "inj_on (locks m') (dom (locks m'))" using fresh_inj [where k = k, OF R(1,2) pR(1)] m' by simp
      show "set (free_lock_entries m') = {..<length (lock_entries m')} - set (p # R)" using ds m' by auto
    qed (use t R(3) pR ds in \<open>auto simp: m' table_ok_def lock_of_def split: if_splits\<close>)
    moreover have "table_extends R m m''" using pR None unfolding m''_def table_extends_def
      by (auto simp: m' lock_of_def change_nth)
    ultimately show ?thesis using m' by (simp add: m''_def)
  qed
qed

lemma Reserve_ok:
  assumes "table_ok n R m" "Reserve rs m = (es, m')"
  shows "table_ok n (rev (map locked es) @ R) m' \<and> table_extends R m m' \<and>
    map batch_key es = map fst rs \<and> map lock_types es = map snd rs \<and> (\<forall>x\<in>set es. locks m' (batch_key x) = Some (locked x))"
  using assms
proof (induction rs m arbitrary: R es m' rule: Reserve.induct)
  case (2 k s rs m)
  obtain p m1 where f: "find_entry k m = (p, m1)" by force
  let ?m = "change_entry p (ref_count_update (\<lambda>c. c + 1)) m1"
  obtain es' m2 where r: "Reserve rs ?m = (es', m2)" by force
  have es: "es = \<lparr>batch_key = k, lock_types = s, locked = p\<rparr> # es'" "m' = m2" using 2(3) f r by auto
  have t: "table_ok n (p # R) ?m" "table_extends R m ?m" "locks ?m k = Some p" using find_entry_ok [OF 2(2) f] by blast+
  note IH = 2(1) [OF f [symmetric] t(1) r]
  have "table_extends R ?m m2" using IH table_extends_mono by (metis set_subset_Cons)
  then have "table_extends R m m2" using t(2) table_extends_trans by blast
  moreover have "locks m2 k = Some p" using IH t(3) unfolding table_extends_def by simp
  ultimately show ?case using IH es by simp
qed simp

lemma table_ok_counts:
  assumes "table_ok n R m" "\<And>p. count_list R p = count_list R' p"
  shows "table_ok n R' m"
proof -
  have "set R = set R'" using assms(2) count_list_0_iff by (metis subsetI subset_antisym)
  then show ?thesis using assms unfolding table_ok_def by simp
qed

lemma drop_ref_ok:
  assumes t: "table_ok n (p # R) m" and k: "locks m k = Some p"
  defines "m1 \<equiv> change_entry p (ref_count_update (\<lambda>c. c - 1)) m"
  defines "m2 \<equiv> (if ref_count (lock_entries m1 ! p) = 0
     then m1\<lparr>locks := (locks m1)(k := None), free_lock_entries := free_lock_entries m1 @ [p]\<rparr> else m1)"
  shows "table_ok n R m2 \<and> table_extends R m m2 \<and> (\<forall>k'. k' \<noteq> k \<longrightarrow> locks m2 k' = locks m k')"
proof -
  have p: "p < length (lock_entries m)" using t unfolding table_ok_def by simp
  have rc: "ref_count (lock_entries m1 ! p) = count_list R p" using t p unfolding table_ok_def m1_def by (simp add: change_nth)
  have e: "lock_of q m2 = lock_of q m" "length (lock_entries m2) = length (lock_entries m)" "batches m2 = batches m" for q
    using p by (simp_all add: m2_def m1_def lock_of_def change_nth)
  have c: "ref_count (lock_entries m2 ! q) = count_list R q" if "q < length (lock_entries m)" for q
    using t p that unfolding table_ok_def by (simp add: m2_def m1_def change_nth)
  have only: "k' = k" if "locks m k' = Some p" for k'
    by (rule inj_onD [of "locks m" "dom (locks m)"]) (use t k that in \<open>auto simp: table_ok_def\<close>)
  show ?thesis
  proof (cases "p \<in> set R")
    case True
    then have m2: "m2 = m1" using rc by (simp add: m2_def count_list_0_iff)
    then show ?thesis
      using t True e c unfolding table_ok_def table_extends_def by (auto simp: m1_def)
  next
    case False
    then have m2: "locks m2 = (locks m)(k := None)" "free_lock_entries m2 = free_lock_entries m @ [p]"
      using rc by (simp_all add: m2_def m1_def count_list_0_iff)
    have "q \<in> set R" if "locks m2 k' = Some q" for k' q
    proof -
      have "locks m k' = Some q" "k' \<noteq> k" using that m2 by (auto split: if_splits)
      then have "q \<in> set (p # R)" "q \<noteq> p" using t only unfolding table_ok_def by blast+
      then show ?thesis by simp
    qed
    moreover have "inj_on (locks m2) (dom (locks m2))" using t unfolding m2 table_ok_def by (auto simp: inj_on_def)
    moreover have "distinct (free_lock_entries m2)" "set (free_lock_entries m2) = {..<length (lock_entries m)} - set R"
      using t p False unfolding m2 table_ok_def by auto
    ultimately have "table_ok n R m2" using t e c unfolding table_ok_def by simp
    moreover have "table_extends R m m2" using e False k unfolding table_extends_def m2 by auto
    ultimately show ?thesis using m2 by simp
  qed
qed

lemma Cleanup_table:
  assumes "table_ok n (map locked es @ R) m" "\<And>x. x \<in> set es \<Longrightarrow> locks m (batch_key x) = Some (locked x)"
    and "distinct (map batch_key es)"
  shows "table_ok n R (Cleanup es m) \<and> table_extends R m (Cleanup es m)"
  using assms
proof (induction es m rule: Cleanup.induct)
  case (2 x xs m)
  let ?m1 = "change_entry (locked x) (ref_count_update (\<lambda>c. c - 1)) m"
  let ?m2 = "if ref_count (lock_entries ?m1 ! locked x) = 0
     then ?m1\<lparr>locks := (locks ?m1)(batch_key x := None), free_lock_entries := free_lock_entries ?m1 @ [locked x]\<rparr> else ?m1"
  have s: "table_ok n (map locked xs @ R) ?m2" "table_extends (map locked xs @ R) m ?m2"
    "\<And>k. k \<noteq> batch_key x \<Longrightarrow> locks ?m2 k = locks m k"
    using drop_ref_ok [of n "locked x" "map locked xs @ R" m "batch_key x"] 2(2,3) by auto
  have "table_ok n R (Cleanup xs ?m2) \<and> table_extends R ?m2 (Cleanup xs ?m2)"
  proof (rule 2(1) [OF refl s(1)])
    fix y assume y: "y \<in> set xs"
    have "batch_key x \<notin> batch_key ` set xs" using 2(4) by simp
    then have "batch_key y \<noteq> batch_key x" using y by (metis imageI)
    then show "locks ?m2 (batch_key y) = Some (locked y)" using s(3) 2(3) y by simp
  qed (use 2(4) in simp)
  moreover have "table_extends R m ?m2" by (rule table_extends_mono [OF s(2)]) simp
  moreover have "Cleanup (x # xs) m = Cleanup xs ?m2" by (simp add: Let_def)
  ultimately show ?case using table_extends_trans [of R m ?m2 "Cleanup xs ?m2"] by presburger
qed simp

section \<open>Batches and their locks\<close>

fun entries_of :: "batch_pc \<Rightarrow> lock_batch_entry list" where
  "entries_of (Acquiring es n) = es"
| "entries_of (InLock es n) = es"
| "entries_of (Held es) = es"
| "entries_of (Dropping st es n) = es"
| "entries_of (InUnlock st es n) = es"
| "entries_of (Cleaning st es) = es"
| "entries_of pc = []"

fun in_lock :: "intent_type_set \<Rightarrow> lock_pc \<Rightarrow> bool" where
  "in_lock s Outside = True"
| "in_lock s (Trying s' old) = (s' = s)"
| "in_lock s (Joining s' old) = (s' = s)"
| "in_lock s (Entering s') = (s' = s)"
| "in_lock s (Checking s') = (s' = s)"
| "in_lock s (Blocking s' old) = (s' = s)"
| "in_lock s (Waiting s' old) = (s' = s)"
| "in_lock s (Waking s' old b) = (s' = s)"
| "in_lock s (Leaving s' old b) = (s' = s)"
| "in_lock s (Parting s' old b) = (s' = s)"
| "in_lock s (Holding s') = (s' = s)"
| "in_lock s pc = False"

fun in_unlock :: "intent_type_set \<Rightarrow> lock_pc \<Rightarrow> bool" where
  "in_unlock s Outside = True"
| "in_unlock s (Releasing s' old) = (s' = s)"
| "in_unlock s (Released s' st) = (s' = s)"
| "in_unlock s Passing = True"
| "in_unlock s Notifying = True"
| "in_unlock s pc = False"

text \<open>What the lock of the \<open>j\<close>-th entry of a batch sees of the batch.\<close>

fun slot :: "batch_pc \<Rightarrow> nat \<Rightarrow> intent_type_set \<Rightarrow> lock_pc \<Rightarrow> bool" where
  "slot (Acquiring es n) j s q = (q = (if j < n then Holding s else Outside))"
| "slot (InLock es n) j s q = (if j = n then in_lock s q else q = (if j < n then Holding s else Outside))"
| "slot (Held es) j s q = (q = Holding s)"
| "slot (Dropping st es n) j s q = (q = (if j < n then Holding s else Outside))"
| "slot (InUnlock st es n) j s q = (if j = n then in_unlock s q else q = (if j < n then Holding s else Outside))"
| "slot pc j s q = (q = Outside)"

fun shape :: "batch_pc \<Rightarrow> bool" where
  "shape (Reserving rs) = sorted_wrt (<) (map fst rs)"
| "shape (Acquiring es n) = (n \<le> length es)"
| "shape (InLock es n) = (n < length es)"
| "shape (Dropping st es n) = (n \<le> length es)"
| "shape (InUnlock st es n) = (n < length es)"
| "shape pc = True"

definition thread_ok :: "nat \<Rightarrow> lock_manager \<Rightarrow> bool" where
  "thread_ok i m \<longleftrightarrow>
     (let pc = batches m ! i; es = entries_of pc in
      shape pc \<and> sorted_wrt (<) (map batch_key es) \<and> (\<forall>x\<in>set es. locks m (batch_key x) = Some (locked x)) \<and>
      (\<forall>j<length es. slot pc j (lock_types (es ! j)) (threads (lock_of (locked (es ! j)) m) ! i)) \<and>
      (\<forall>p<length (lock_entries m). p \<notin> locked ` set es \<longrightarrow> threads (lock_of p m) ! i = Outside))"

definition refs :: "lock_manager \<Rightarrow> nat list" where
  "refs m = concat (map (\<lambda>pc. map locked (entries_of pc)) (batches m))"

definition manager_ok :: "nat \<Rightarrow> lock_manager \<Rightarrow> bool" where
  "manager_ok n m \<longleftrightarrow> table_ok n (refs m) m \<and> (\<forall>i<n. thread_ok i m)"

lemma in_wake_lock: "in_lock s q \<Longrightarrow> in_lock s (wake q)" "in_unlock s q \<Longrightarrow> in_unlock s (wake q)"
  by (cases q; simp)+

lemma slot_wake: "slot pc j s q \<Longrightarrow> slot pc j s (wake q)"
  by (cases pc) (auto simp: in_wake_lock split: if_splits)

lemma entry_step_others:
  assumes "entry_step spurious i q e = Some e'" "j \<noteq> i" "j < length (threads e)"
  shows "threads e' ! j \<in> {threads e ! j, wake (threads e ! j)}"
  using assms by (cases q) (auto simp: goto_def Let_def split: if_splits)

lemma entry_step_in_lock:
  assumes "entry_step spurious i q e = Some e'" "i < length (threads e)"
  shows "in_lock s q \<Longrightarrow> in_lock s (threads e' ! i)" "in_unlock s q \<Longrightarrow> in_unlock s (threads e' ! i)"
  using assms by (cases q; auto simp: goto_def Let_def split: if_splits)+

lemma batch_at_simps [simp]:
  "locks (batch_at i pc m) = locks m" "lock_entries (batch_at i pc m) = lock_entries m"
  "free_lock_entries (batch_at i pc m) = free_lock_entries m" "batches (batch_at i pc m) = (batches m)[i := pc]"
  "lock_of p (batch_at i pc m) = lock_of p m" "table_ok n R (batch_at i pc m) = table_ok n R m"
  by (simp_all add: batch_at_def lock_of_def table_ok_def)

lemma refs_update:
  assumes "i < length (batches m)"
  shows "count_list (refs (batch_at i pc m)) p + count_list (map locked (entries_of (batches m ! i))) p =
    count_list (refs m) p + count_list (map locked (entries_of pc)) p"
proof -
  let ?f = "\<lambda>pc. map locked (entries_of pc)" and ?xs = "batches m"
  have "?xs = take i ?xs @ ?xs ! i # drop (Suc i) ?xs" using assms by (rule id_take_nth_drop)
  then have "count_list (refs m) p = count_list (concat (map ?f (take i ?xs))) p + count_list (?f (?xs ! i)) p + count_list (concat (map ?f (drop (Suc i) ?xs))) p"
    unfolding refs_def by (metis (no_types, lifting) add.assoc concat.simps(2) concat_append count_list_append list.simps(9) map_append)
  moreover have "count_list (refs (batch_at i pc m)) p = count_list (concat (map ?f (take i ?xs))) p + count_list (?f pc) p + count_list (concat (map ?f (drop (Suc i) ?xs))) p"
    using assms by (simp add: refs_def upd_conv_take_nth_drop)
  ultimately show ?thesis by simp
qed

lemma in_refs: "i < length (batches m) \<Longrightarrow> x \<in> set (entries_of (batches m ! i)) \<Longrightarrow> locked x \<in> set (refs m)"
  unfolding refs_def by (auto intro!: bexI [of _ "batches m ! i"])

text \<open>A batch is not affected when its keys stay in the table and its positions in the locks stay, apart from
  being woken.\<close>

lemma thread_frame:
  assumes t: "thread_ok j m" "set (refs m) \<subseteq> {..<length (lock_entries m)}" "j < length (batches m)"
    and b: "batches m' ! j = batches m ! j"
    and k: "\<And>x. x \<in> set (entries_of (batches m ! j)) \<Longrightarrow> locks m' (batch_key x) = Some (locked x)"
    and l: "length (lock_entries m) \<le> length (lock_entries m')"
    and q: "\<And>p. p < length (lock_entries m) \<Longrightarrow> threads (lock_of p m') ! j \<in> {threads (lock_of p m) ! j, wake (threads (lock_of p m) ! j)}"
    and new: "\<And>p. length (lock_entries m) \<le> p \<Longrightarrow> p < length (lock_entries m') \<Longrightarrow> threads (lock_of p m') ! j = Outside"
  shows "thread_ok j m'"
proof -
  let ?pc = "batches m ! j" let ?es = "entries_of ?pc"
  have "slot ?pc a (lock_types (?es ! a)) (threads (lock_of (locked (?es ! a)) m') ! j)" if "a < length ?es" for a
  proof -
    have "locked (?es ! a) < length (lock_entries m)" using in_refs [OF t(3)] t(2) that by (meson lessThan_iff nth_mem subsetD)
    then show ?thesis using q slot_wake t(1) that unfolding thread_ok_def Let_def by (metis empty_iff insert_iff)
  qed
  moreover have "threads (lock_of p m') ! j = Outside" if "p < length (lock_entries m')" "p \<notin> locked ` set ?es" for p
  proof (cases "p < length (lock_entries m)")
    case True
    then have "threads (lock_of p m) ! j = Outside" using t(1) that unfolding thread_ok_def Let_def by blast
    then show ?thesis using q [OF True] by auto
  qed (use new that in simp)
  ultimately show ?thesis using t(1) k unfolding thread_ok_def b Let_def by blast
qed

lemma manager_move:
  assumes ok: "manager_ok n m" and i: "i < n"
    and b: "batches m' = (batches m)[i := pc']" "entries_of pc' = entries_of (batches m ! i)"
    and same: "locks m' = locks m" "free_lock_entries m' = free_lock_entries m" "length (lock_entries m') = length (lock_entries m)"
      "\<And>p. p < length (lock_entries m) \<Longrightarrow> ref_count (lock_entries m' ! p) = ref_count (lock_entries m ! p)"
    and e: "\<And>p. p < length (lock_entries m) \<Longrightarrow> lock_reachable n (lock_of p m')"
      "\<And>p j. p < length (lock_entries m) \<Longrightarrow> j < n \<Longrightarrow> j \<noteq> i \<Longrightarrow> threads (lock_of p m') ! j \<in> {threads (lock_of p m) ! j, wake (threads (lock_of p m) ! j)}"
    and t: "thread_ok i m'"
  shows "manager_ok n m'"
proof -
  let ?f = "\<lambda>pc. map locked (entries_of pc)"
  have n: "length (batches m) = n" "set (refs m) \<subseteq> {..<length (lock_entries m)}" using ok unfolding manager_ok_def table_ok_def by blast+
  have "map ?f (batches m') = map ?f (batches m)"
    using b i n by (simp add: map_update list_update_same_conv)
  then have "refs m' = refs m" unfolding refs_def by (simp only:)
  then have "table_ok n (refs m') m'" using ok same e(1) b unfolding manager_ok_def table_ok_def by simp
  moreover have "thread_ok j m'" if "j < n" for j
  proof (cases "j = i")
    case False
    have "thread_ok j m" using ok that unfolding manager_ok_def by blast
    then show ?thesis
      by (rule thread_frame) (use n that False b same e(2) \<open>thread_ok j m\<close> in \<open>auto simp: thread_ok_def Let_def\<close>)
  qed (use t in simp)
  ultimately show ?thesis unfolding manager_ok_def by blast
qed

lemma manager_local:
  assumes ok: "manager_ok n m" and i: "i < n"
    and b: "entries_of pc' = entries_of (batches m ! i)" "shape pc'"
    and s: "\<And>j q. j < length (entries_of pc') \<Longrightarrow> slot (batches m ! i) j (lock_types (entries_of pc' ! j)) q \<Longrightarrow>
      q = threads (lock_of (locked (entries_of pc' ! j)) m) ! i \<Longrightarrow> slot pc' j (lock_types (entries_of pc' ! j)) q"
  shows "manager_ok n (batch_at i pc' m)"
proof (rule manager_move [OF ok i _ b(1)])
  have n: "length (batches m) = n" and t: "thread_ok i m" using ok i unfolding manager_ok_def table_ok_def by blast+
  then show "thread_ok i (batch_at i pc' m)" using i b s unfolding thread_ok_def Let_def by simp
  show "lock_reachable n (lock_of p (batch_at i pc' m))" if "p < length (lock_entries m)" for p
    using ok that unfolding manager_ok_def table_ok_def by simp
qed simp_all

lemma set_lock_simps [simp]:
  "locks (set_lock p e m) = locks m" "length (lock_entries (set_lock p e m)) = length (lock_entries m)"
  "free_lock_entries (set_lock p e m) = free_lock_entries m" "batches (set_lock p e m) = batches m"
  by (simp_all add: set_lock_def)

lemma set_lock_nth:
  assumes "p < length (lock_entries m)"
  shows "lock_of q (set_lock p e m) = (if q = p then e else lock_of q m)"
    "ref_count (lock_entries (set_lock p e m) ! q) = ref_count (lock_entries m ! q)"
  using assms by (simp_all add: set_lock_def lock_of_def change_nth)

lemma distinct_locked:
  assumes "manager_ok n m" "i < n"
  shows "distinct (map locked (entries_of (batches m ! i)))"
proof -
  let ?es = "entries_of (batches m ! i)"
  have t: "thread_ok i m" using assms unfolding manager_ok_def by blast
  then have "distinct (map batch_key ?es)" unfolding thread_ok_def Let_def using strict_sorted_iff by blast
  moreover have "batch_key x = batch_key y" if "x \<in> set ?es" "y \<in> set ?es" "locked x = locked y" for x y
  proof (rule inj_onD [of "locks m" "dom (locks m)"])
    show "inj_on (locks m) (dom (locks m))" using assms unfolding manager_ok_def table_ok_def by blast
  qed (use t that in \<open>auto simp: thread_ok_def Let_def\<close>)
  ultimately show ?thesis unfolding distinct_map by (metis (no_types, lifting) inj_on_def)
qed

lemma manager_entry:
  assumes ok: "manager_ok n m" and i: "i < n"
    and b: "entries_of pc' = entries_of (batches m ! i)" "shape pc'" "k < length (entries_of pc')"
    and s: "\<And>j q. j \<noteq> k \<Longrightarrow> slot (batches m ! i) j (lock_types (entries_of pc' ! j)) q \<Longrightarrow> slot pc' j (lock_types (entries_of pc' ! j)) q"
    and e: "lock_step (lock_of (locked (entries_of pc' ! k)) m) e'" "slot pc' k (lock_types (entries_of pc' ! k)) (threads e' ! i)"
      "\<And>j. j < n \<Longrightarrow> j \<noteq> i \<Longrightarrow> threads e' ! j \<in> {threads (lock_of (locked (entries_of pc' ! k)) m) ! j, wake (threads (lock_of (locked (entries_of pc' ! k)) m) ! j)}"
  shows "manager_ok n (batch_at i pc' (set_lock (locked (entries_of pc' ! k)) e' m))"
proof (rule manager_move [OF ok i _ b(1)])
  let ?es = "entries_of pc'" let ?p = "locked (?es ! k)"
  have n: "length (batches m) = n" and t: "thread_ok i m" and r: "set (refs m) \<subseteq> {..<length (lock_entries m)}"
    and re: "\<And>p. p < length (lock_entries m) \<Longrightarrow> lock_reachable n (lock_of p m)"
    using ok i unfolding manager_ok_def table_ok_def by blast+
  have p: "?p < length (lock_entries m)" using in_refs [of i m "?es ! k"] i n r b by auto
  have d: "locked (?es ! j) = ?p \<longleftrightarrow> j = k" if "j < length ?es" for j
    using distinct_locked [OF ok i] b that by (metis (no_types, lifting) length_map nth_eq_iff_index_eq nth_map)
  have "slot pc' j (lock_types (?es ! j)) (threads (lock_of (locked (?es ! j)) (set_lock ?p e' m)) ! i)" if "j < length ?es" for j
  proof (cases "j = k")
    case True
    then show ?thesis using e(2) by (simp add: set_lock_nth(1) [OF p])
  next
    case False
    have "slot (batches m ! i) j (lock_types (?es ! j)) (threads (lock_of (locked (?es ! j)) m) ! i)"
      using t that unfolding thread_ok_def Let_def b(1) by blast
    then show ?thesis using s False d [OF that] by (simp add: set_lock_nth(1) [OF p])
  qed
  moreover have "threads (lock_of q (set_lock ?p e' m)) ! i = Outside" if "q < length (lock_entries m)" "q \<notin> locked ` set ?es" for q
  proof -
    have "q \<noteq> ?p" using that b(3) by (metis imageI nth_mem)
    then show ?thesis using that t unfolding thread_ok_def Let_def b(1) by (simp add: set_lock_nth [OF p [unfolded b(1)]])
  qed
  ultimately show "thread_ok i (batch_at i pc' (set_lock ?p e' m))" using t b i n unfolding thread_ok_def Let_def by simp
  show "lock_reachable n (lock_of q (batch_at i pc' (set_lock ?p e' m)))" if "q < length (lock_entries m)" for q
    using lock_reachable.step [OF re [OF p] e(1)] re [OF that] by (simp add: set_lock_nth [OF p])
  show "threads (lock_of q (batch_at i pc' (set_lock ?p e' m))) ! j \<in> {threads (lock_of q m) ! j, wake (threads (lock_of q m) ! j)}"
    if "j < n" "j \<noteq> i" for q j using e(3) [OF that] by (simp add: set_lock_nth [OF p])
  show "ref_count (lock_entries (batch_at i pc' (set_lock ?p e' m)) ! q) = ref_count (lock_entries m ! q)" for q
    by (simp add: set_lock_nth [OF p])
qed simp_all

lemma table_extends_frame:
  assumes ok: "manager_ok n m" and j: "j < n" "j \<noteq> i"
    and x: "table_extends R m m'" "locked ` set (entries_of (batches m ! j)) \<subseteq> set R"
  shows "thread_ok j (batch_at i pc m')"
proof (rule thread_frame)
  have n: "length (batches m) = n" using ok unfolding manager_ok_def table_ok_def by blast
  show t: "thread_ok j m" using ok j unfolding manager_ok_def by blast
  show "set (refs m) \<subseteq> {..<length (lock_entries m)}" using ok unfolding manager_ok_def table_ok_def by blast
  show "j < length (batches m)" using j n by simp
  show "batches (batch_at i pc m') ! j = batches m ! j" using x(1) j(2) unfolding table_extends_def by simp
  show "locks (batch_at i pc m') (batch_key y) = Some (locked y)" if "y \<in> set (entries_of (batches m ! j))" for y
    using t x that unfolding table_extends_def thread_ok_def Let_def by auto
  show "length (lock_entries m) \<le> length (lock_entries (batch_at i pc m'))" using x(1) unfolding table_extends_def by simp
  show "threads (lock_of p (batch_at i pc m')) ! j \<in> {threads (lock_of p m) ! j, wake (threads (lock_of p m) ! j)}"
    if "p < length (lock_entries m)" for p using x(1) that unfolding table_extends_def by simp
  show "threads (lock_of p (batch_at i pc m')) ! j = Outside"
    if "length (lock_entries m) \<le> p" "p < length (lock_entries (batch_at i pc m'))" for p
    using x(1) that j n unfolding table_extends_def by (simp add: lock_entry_init_def)
qed

lemma manager_reserve:
  assumes ok: "manager_ok n m" and i: "i < n" "batches m ! i = Reserving rs" and r: "Reserve rs m = (es, m')"
  shows "manager_ok n (batch_at i (Acquiring es 0) m')"
proof -
  have t: "table_ok n (refs m) m" "length (batches m) = n" "thread_ok i m" using ok i unfolding manager_ok_def table_ok_def by blast+
  have R: "table_ok n (rev (map locked es) @ refs m) m'" "table_extends (refs m) m m'" "map batch_key es = map fst rs"
    "\<And>x. x \<in> set es \<Longrightarrow> locks m' (batch_key x) = Some (locked x)"
    using Reserve_ok [OF t(1) r] by blast+
  have b: "batches m' = batches m" using R(2) unfolding table_extends_def by blast
  then have rm: "refs m' = refs m" by (simp add: refs_def)
  have "table_ok n (refs (batch_at i (Acquiring es 0) m')) m'"
    by (rule table_ok_counts [OF R(1)]) (use refs_update [of i m' "Acquiring es 0"] b rm i t(2) in \<open>simp add: add.commute\<close>)
  moreover have "thread_ok j (batch_at i (Acquiring es 0) m')" if "j < n" "j \<noteq> i" for j
    by (rule table_extends_frame [OF ok that R(2)]) (use in_refs [of j m] that t(2) in auto)
  moreover have "thread_ok i (batch_at i (Acquiring es 0) m')"
  proof -
    have out: "threads (lock_of p m') ! i = Outside" if "p < length (lock_entries m')" for p
      using R(2) t i that unfolding table_extends_def thread_ok_def by (auto simp: lock_entry_init_def)
    have "locked x < length (lock_entries m')" if "x \<in> set es" for x using R(1) that unfolding table_ok_def by auto
    then show ?thesis using t i R(3,4) out b unfolding thread_ok_def by (simp add: Let_def)
  qed
  ultimately show ?thesis unfolding manager_ok_def by (metis batch_at_simps(6))
qed

lemma manager_cleanup:
  assumes ok: "manager_ok n m" and i: "i < n" "batches m ! i = Cleaning st es"
  shows "manager_ok n (batch_at i (Idle st) (Cleanup es m))"
proof -
  let ?R = "refs (batch_at i (Idle st) m)" let ?m = "Cleanup es m"
  have t: "table_ok n (refs m) m" "length (batches m) = n" "thread_ok i m" using ok i unfolding manager_ok_def table_ok_def by blast+
  have "table_ok n (map locked es @ ?R) m"
    by (rule table_ok_counts [OF t(1)]) (use refs_update [of i m "Idle st"] i t(2) in \<open>simp add: add.commute\<close>)
  moreover have k: "sorted_wrt (<) (map batch_key es)" "\<And>x. x \<in> set es \<Longrightarrow> locks m (batch_key x) = Some (locked x)"
    using t(3) i unfolding thread_ok_def by (simp_all add: Let_def)
  moreover have "distinct (map batch_key es)" using k(1) strict_sorted_iff by blast
  ultimately have R: "table_ok n ?R ?m" "table_extends ?R m ?m" using Cleanup_table [of n es ?R m] by blast+
  have b: "batches ?m = batches m" using R(2) unfolding table_extends_def by blast
  then have "refs (batch_at i (Idle st) ?m) = ?R" by (simp add: refs_def)
  moreover have "thread_ok j (batch_at i (Idle st) ?m)" if "j < n" "j \<noteq> i" for j
    by (rule table_extends_frame [OF ok that R(2)]) (use in_refs [of j "batch_at i (Idle st) m"] that t(2) in auto)
  moreover have "thread_ok i (batch_at i (Idle st) ?m)"
  proof -
    have "threads (lock_of p m) ! i = Outside" if "p < length (lock_entries m)" for p
    proof (cases "p \<in> locked ` set es")
      case True
      then obtain a where "a < length es" "p = locked (es ! a)" by (metis imageE in_set_conv_nth)
      then show ?thesis using t(3) i unfolding thread_ok_def by (simp add: Let_def)
    qed (use t(3) i that in \<open>simp add: thread_ok_def Let_def\<close>)
    then have "threads (lock_of p ?m) ! i = Outside" if "p < length (lock_entries ?m)" for p
      using R(2) t(2) i that unfolding table_extends_def by (auto simp: lock_entry_init_def)
    then show ?thesis using t(2) i b unfolding thread_ok_def by (simp add: Let_def)
  qed
  ultimately show ?thesis using R(1) unfolding manager_ok_def by (metis batch_at_simps(6))
qed

lemma batch_at_same: "batches m ! i = pc \<Longrightarrow> batch_at i pc m = m"
  by (auto simp: batch_at_def)

lemma manager_ctx:
  assumes ok: "manager_ok n m" and i: "i < n"
  shows "length (batches m) = n" "shape (batches m ! i)"
    "\<And>k. k < length (entries_of (batches m ! i)) \<Longrightarrow>
      slot (batches m ! i) k (lock_types (entries_of (batches m ! i) ! k)) (threads (lock_of (locked (entries_of (batches m ! i) ! k)) m) ! i)"
    "\<And>k. k < length (entries_of (batches m ! i)) \<Longrightarrow> locked (entries_of (batches m ! i) ! k) < length (lock_entries m)"
    "\<And>p. p < length (lock_entries m) \<Longrightarrow> lock_reachable n (lock_of p m) \<and> length (threads (lock_of p m)) = n"
proof -
  show n: "length (batches m) = n" and "shape (batches m ! i)"
    and "\<And>k. k < length (entries_of (batches m ! i)) \<Longrightarrow>
      slot (batches m ! i) k (lock_types (entries_of (batches m ! i) ! k)) (threads (lock_of (locked (entries_of (batches m ! i) ! k)) m) ! i)"
    using ok i unfolding manager_ok_def table_ok_def thread_ok_def Let_def by blast+
  have "set (refs m) \<subseteq> {..<length (lock_entries m)}" using ok unfolding manager_ok_def table_ok_def by blast
  then show "\<And>k. k < length (entries_of (batches m ! i)) \<Longrightarrow> locked (entries_of (batches m ! i) ! k) < length (lock_entries m)"
    using in_refs [of i m] i n by (meson lessThan_iff nth_mem subsetD)
  show "\<And>p. p < length (lock_entries m) \<Longrightarrow> lock_reachable n (lock_of p m) \<and> length (threads (lock_of p m)) = n"
    using ok lock_threads_length unfolding manager_ok_def table_ok_def by blast
qed

lemma goto_self [simp]: "i < length (threads e) \<Longrightarrow> threads (goto i pc e) ! i = pc"
  by (simp add: goto_def)

lemma goto_others: "j \<noteq> i \<Longrightarrow> threads (goto i pc e) ! j \<in> {threads e ! j, wake (threads e ! j)}"
  by (simp add: goto_def)

lemma manager_inner:
  assumes ok: "manager_ok n m" and i: "i < n" and pc: "batches m ! i = pc" "k < length (entries_of pc)"
  defines "p \<equiv> locked (entries_of pc ! k)"
  assumes e: "entry_step spurious i (threads (lock_of p m) ! i) (lock_of p m) = Some e'"
    and s: "slot pc k (lock_types (entries_of pc ! k)) (threads e' ! i)"
  shows "manager_ok n (set_lock p e' m)"
proof -
  note c = manager_ctx [OF ok i, unfolded pc(1)]
  have l: "length (threads (lock_of p m)) = n" using c(4,5) pc(2) p_def by blast
  have "manager_ok n (batch_at i pc (set_lock (locked (entries_of pc ! k)) e' m))"
  proof (rule manager_entry [OF ok i])
    show "lock_step (lock_of (locked (entries_of pc ! k)) m) e'"
      by (rule lock_step.proceed [of i]) (use e i l p_def in auto)
    show "threads e' ! j \<in> {threads (lock_of (locked (entries_of pc ! k)) m) ! j, wake (threads (lock_of (locked (entries_of pc ! k)) m) ! j)}"
      if "j < n" "j \<noteq> i" for j using entry_step_others [OF e that(2)] that(1) l p_def by simp
  qed (use pc c(2) s in auto)
  then show ?thesis using batch_at_same [of "set_lock p e' m" i pc] pc p_def by simp
qed

lemma manager_proceed:
  assumes ok: "manager_ok n m" and i: "i < n" and s: "batch_step spurious i (batches m ! i) m = Some m'"
  shows "manager_ok n m'"
proof -
  note c = manager_ctx [OF ok i]
  show ?thesis
  proof (cases "batches m ! i")
    case (Reserving rs)
    then show ?thesis using s manager_reserve [OF ok i] by (auto split: prod.splits)
  next
    case (Acquiring es k)
    note c = c [unfolded Acquiring entries_of.simps]
    show ?thesis
    proof (cases "k < length es")
      case True
      let ?e = "lock_of (locked (es ! k)) m" and ?s = "lock_types (es ! k)"
      have out: "threads ?e ! i = Outside" using c(3) [OF True] by simp
      have l: "length (threads ?e) = n" using c(4,5) True by blast
      have "manager_ok n (batch_at i (InLock es k) (set_lock (locked (entries_of (InLock es k) ! k)) (goto i (Trying ?s (num_holding ?e)) ?e) m))"
        by (rule manager_entry [OF ok i])
          (use True Acquiring l i out goto_others lock_step.call_lock [of i ?e ?s] in \<open>auto\<close>)
      then show ?thesis using s Acquiring True by (simp add: Let_def)
    next
      case False
      then have "k = length es" using c(2) by simp
      then have "manager_ok n (batch_at i (Held es) m)" by (intro manager_local [OF ok i]) (use Acquiring in auto)
      then show ?thesis using s Acquiring False by simp
    qed
  next
    case (InLock es k)
    note c = c [unfolded InLock entries_of.simps]
    let ?e = "lock_of (locked (es ! k)) m"
    have k: "k < length es" "in_lock (lock_types (es ! k)) (threads ?e ! i)" using c(2) c(3) [of k] by simp_all
    have l: "length (threads ?e) = n" using c(4,5) k(1) by blast
    consider (held) s' where "threads ?e ! i = Holding s'" | (out) "threads ?e ! i = Outside"
      | (inner) e' where "entry_step spurious i (threads ?e ! i) ?e = Some e'" "m' = set_lock (locked (es ! k)) e' m"
      using s InLock by (auto simp: Let_def split: lock_pc.splits)
    then show ?thesis
    proof cases
      case held
      have "manager_ok n (batch_at i (Acquiring es (Suc k)) m)"
        by (rule manager_local [OF ok i]) (use InLock k held in \<open>auto simp: less_Suc_eq split: if_splits\<close>)
      then show ?thesis using s InLock held by (simp add: Let_def)
    next
      case out
      have "manager_ok n (batch_at i (Dropping (Some TryAgain) es k) m)"
        by (rule manager_local [OF ok i]) (use InLock k out in \<open>auto split: if_splits\<close>)
      then show ?thesis using s InLock out by (simp add: Let_def)
    next
      case inner
      then show ?thesis
        using manager_inner [OF ok i InLock, of k spurious e'] entry_step_in_lock(1) [OF inner(1) _ k(2)] k l i by simp
    qed
  next
    case (Dropping st es k)
    note c = c [unfolded Dropping entries_of.simps]
    show ?thesis
    proof (cases k)
      case 0
      have "manager_ok n (batch_at i (Cleaning st es) m)" by (rule manager_local [OF ok i]) (use Dropping 0 in auto)
      then show ?thesis using s Dropping 0 by simp
    next
      case (Suc j)
      let ?e = "lock_of (locked (es ! j)) m" and ?s = "lock_types (es ! j)"
      have j: "j < length es" using c(2) Suc by simp
      have h: "threads ?e ! i = Holding ?s" using c(3) [OF j] Suc by simp
      have l: "length (threads ?e) = n" using c(4,5) j by blast
      have "manager_ok n (batch_at i (InUnlock st es j) (set_lock (locked (entries_of (InUnlock st es j) ! j)) (goto i (Releasing ?s (num_holding ?e)) ?e) m))"
        by (rule manager_entry [OF ok i])
          (use j Dropping Suc l i h goto_others lock_step.call_unlock [of i ?e ?s] in \<open>auto split: if_splits\<close>)
      then show ?thesis using s Dropping Suc by (simp add: Let_def)
    qed
  next
    case (InUnlock st es k)
    note c = c [unfolded InUnlock entries_of.simps]
    let ?e = "lock_of (locked (es ! k)) m"
    have k: "k < length es" "in_unlock (lock_types (es ! k)) (threads ?e ! i)" using c(2) c(3) [of k] by simp_all
    have l: "length (threads ?e) = n" using c(4,5) k(1) by blast
    consider (out) "threads ?e ! i = Outside"
      | (inner) e' where "entry_step spurious i (threads ?e ! i) ?e = Some e'" "m' = set_lock (locked (es ! k)) e' m"
      using s InUnlock by (auto simp: Let_def split: lock_pc.splits)
    then show ?thesis
    proof cases
      case out
      have "manager_ok n (batch_at i (Dropping st es k) m)"
        by (rule manager_local [OF ok i]) (use InUnlock k out in \<open>auto split: if_splits\<close>)
      then show ?thesis using s InUnlock out by (simp add: Let_def)
    next
      case inner
      then show ?thesis
        using manager_inner [OF ok i InUnlock, of k spurious e'] entry_step_in_lock(2) [OF inner(1) _ k(2)] k l i by simp
    qed
  next
    case (Cleaning st es)
    then show ?thesis using s manager_cleanup [OF ok i Cleaning] by simp
  qed (use s in auto)
qed

lemma manager_step_ok: "manager_step m m' \<Longrightarrow> manager_ok n m \<Longrightarrow> manager_ok n m'"
proof (induction rule: manager_step.induct)
  case (proceed i m spurious m')
  have "i < n" using proceed(1,3) unfolding manager_ok_def table_ok_def by simp
  then show ?case using manager_proceed [OF proceed(3) _ proceed(2)] by simp
next
  case (lock_batch i m st ks)
  have "i < n" using lock_batch(1,4) unfolding manager_ok_def table_ok_def by simp
  then show ?case using lock_batch filter_sorted by (intro manager_local) auto
next
  case (reset i m es)
  have "i < n" using reset(1,3) unfolding manager_ok_def table_ok_def by simp
  then show ?case using reset by (intro manager_local) auto
next
  case (wakeup i m es k s old timeout)
  have i: "i < n" using wakeup(1,4) unfolding manager_ok_def table_ok_def by simp
  note c = manager_ctx [OF wakeup(4) i, unfolded wakeup(2) entries_of.simps]
  let ?e = "lock_of (locked (es ! k)) m"
  have k: "k < length es" "s = lock_types (es ! k)" using c(2) c(3) [of k] wakeup(3) by simp_all
  have l: "length (threads ?e) = n" using c(4,5) k(1) by blast
  have "manager_ok n (batch_at i (InLock es k) (set_lock (locked (entries_of (InLock es k) ! k)) (goto i (Waking s old timeout) ?e) m))"
    by (rule manager_entry [OF wakeup(4) i])
      (use wakeup k l i goto_others lock_step.wakeup [of i ?e s old timeout] in \<open>auto\<close>)
  then show ?case using batch_at_same [of "set_lock (locked (es ! k)) (goto i (Waking s old timeout) ?e) m" i] wakeup(2) by simp
qed

lemma manager_reachable_ok: "manager_reachable n m \<Longrightarrow> manager_ok n m"
proof (induction rule: manager_reachable.induct)
  case init
  show ?case
    by (simp add: manager_ok_def table_ok_def thread_ok_def refs_def lock_manager_init_def)
next
  case (step m m')
  then show ?case using manager_step_ok by blast
qed

section \<open>The properties of batches\<close>

lemma held_entry:
  assumes ok: "manager_ok n m" and i: "i < n" "batches m ! i = Held es" "x \<in> set es"
  shows "locks m (batch_key x) = Some (locked x) \<and> locked x < length (lock_entries m) \<and>
    threads (lock_of (locked x) m) ! i = Holding (lock_types x)"
proof -
  note c = manager_ctx [OF ok i(1), unfolded i(2) entries_of.simps]
  obtain k where "k < length es" "x = es ! k" using i(3) by (metis in_set_conv_nth)
  moreover have "locks m (batch_key x) = Some (locked x)" using ok i unfolding manager_ok_def thread_ok_def by auto
  ultimately show ?thesis using c(3) [of k] c(4) [of k] by simp
qed

text \<open>When no batch can move, every position in a lock is final or waits for a holder.\<close>

lemma stuck_entries:
  assumes ok: "manager_ok n m" and stuck: "\<And>i. i < n \<Longrightarrow> batch_step False i (batches m ! i) m = None"
    and p: "p < length (lock_entries m)" and i: "i < n"
  shows "entry_step False i (threads (lock_of p m) ! i) (lock_of p m) = None"
proof (cases "p \<in> locked ` set (entries_of (batches m ! i))")
  case False
  then have "threads (lock_of p m) ! i = Outside" using ok i p unfolding manager_ok_def thread_ok_def Let_def by blast
  then show ?thesis by simp
next
  case True
  then obtain k where k: "k < length (entries_of (batches m ! i))" "p = locked (entries_of (batches m ! i) ! k)"
    by (metis imageE in_set_conv_nth)
  have s: "slot (batches m ! i) k (lock_types (entries_of (batches m ! i) ! k)) (threads (lock_of p m) ! i)"
    using manager_ctx(3) [OF ok i k(1)] k(2) by simp
  show ?thesis
  proof (cases "batches m ! i")
    case (InLock es j)
    then show ?thesis using s k stuck [OF i] by (cases "j = k") (auto simp: Let_def split: lock_pc.splits if_splits)
  next
    case (InUnlock st es j)
    then show ?thesis using s k stuck [OF i] by (cases "j = k") (auto simp: Let_def split: lock_pc.splits if_splits)
  qed (use s k in \<open>auto split: if_splits\<close>)
qed

lemma stuck_batches:
  assumes ok: "manager_ok n m" "n < 65536" and stuck: "\<And>i. i < n \<Longrightarrow> batch_step False i (batches m ! i) m = None" and i: "i < n"
  shows "(\<exists>st. batches m ! i = Idle st) \<or> (\<exists>es. batches m ! i = Held es) \<or>
    (\<exists>es k j old. batches m ! i = InLock es k \<and> k < length es \<and> j < n \<and>
       threads (lock_of (locked (es ! k)) m) ! i = Waiting (lock_types (es ! k)) old \<and>
       (\<exists>t. threads (lock_of (locked (es ! k)) m) ! j = Holding t \<and> IntentTypeSetsConflict (lock_types (es ! k)) t))"
proof -
  note c = manager_ctx [OF ok(1) i]
  have e: "threads (lock_of p m) ! i = Outside \<or> (\<exists>s. threads (lock_of p m) ! i = Holding s) \<or>
     (\<exists>s old j held. threads (lock_of p m) ! i = Waiting s old \<and> j < n \<and> threads (lock_of p m) ! j = Holding held \<and>
        IntentTypeSetsConflict s held)" if "p < length (lock_entries m)" for p
    using lock_stuck [OF _ ok(2) i] c(5) [OF that] stuck_entries [OF ok(1) stuck that] by blast
  show ?thesis
  proof (cases "batches m ! i")
    case (Acquiring es k)
    then show ?thesis using stuck [OF i] by (simp add: Let_def split: if_splits)
  next
    case (InLock es k)
    note c = c [unfolded InLock entries_of.simps]
    have k: "k < length es" "in_lock (lock_types (es ! k)) (threads (lock_of (locked (es ! k)) m) ! i)" using c(2) c(3) [of k] by simp_all
    have "threads (lock_of (locked (es ! k)) m) ! i \<noteq> Outside" "\<nexists>s. threads (lock_of (locked (es ! k)) m) ! i = Holding s"
      using stuck [OF i] InLock by (auto simp: Let_def)
    then obtain s old j held where w: "threads (lock_of (locked (es ! k)) m) ! i = Waiting s old" "j < n"
        "threads (lock_of (locked (es ! k)) m) ! j = Holding held" "IntentTypeSetsConflict s held"
      using e [OF c(4) [OF k(1)]] by blast
    moreover have "s = lock_types (es ! k)" using k(2) w(1) by simp
    ultimately show ?thesis using InLock k(1) by blast
  next
    case (Dropping st es k)
    then show ?thesis using stuck [OF i] by (cases k) (simp_all add: Let_def)
  next
    case (InUnlock st es k)
    note c = c [unfolded InUnlock entries_of.simps]
    have k: "k < length es" "in_unlock (lock_types (es ! k)) (threads (lock_of (locked (es ! k)) m) ! i)" using c(2) c(3) [of k] by simp_all
    then have "threads (lock_of (locked (es ! k)) m) ! i = Outside" using e [OF c(4) [OF k(1)]] by auto
    then show ?thesis using stuck [OF i] InUnlock by (simp add: Let_def)
  qed (use stuck [OF i] in \<open>auto split: prod.splits\<close>)
qed


text \<open>A batch that waits is blocked by one that holds all its locks, or by one that waits for a later key.\<close>

lemma waits_upward:
  assumes ok: "manager_ok n m" "n < 65536" and stuck: "\<And>i. i < n \<Longrightarrow> batch_step False i (batches m ! i) m = None"
    and i: "i < n" "batches m ! i = InLock es k"
  shows "\<exists>j<n. (\<exists>es' y. batches m ! j = Held es' \<and> y \<in> set es' \<and> batch_key y = batch_key (es ! k) \<and>
         IntentTypeSetsConflict (lock_types (es ! k)) (lock_types y)) \<or>
      (\<exists>es' k'. batches m ! j = InLock es' k' \<and> batch_key (es ! k) < batch_key (es' ! k'))"
proof -
  let ?p = "locked (es ! k)"
  obtain j t where k: "k < length es" and j: "j < n" "threads (lock_of ?p m) ! j = Holding t" "IntentTypeSetsConflict (lock_types (es ! k)) t"
    using stuck_batches [OF ok stuck i(1)] i(2) by auto
  let ?js = "entries_of (batches m ! j)"
  have p: "?p < length (lock_entries m)" using manager_ctx(4) [OF ok(1) i(1)] i(2) k by simp
  have tj: "thread_ok j m" "thread_ok i m" using ok i(1) j(1) unfolding manager_ok_def by blast+
  then have "?p \<in> locked ` set ?js" using p j(2) unfolding thread_ok_def Let_def by (metis lock_pc.distinct(19))
  then obtain a where a: "a < length ?js" "locked (?js ! a) = ?p" by (metis imageE in_set_conv_nth)
  have key: "batch_key (?js ! a) = batch_key (es ! k)"
  proof (rule inj_onD [of "locks m" "dom (locks m)"])
    show "inj_on (locks m) (dom (locks m))" using ok unfolding manager_ok_def table_ok_def by blast
  qed (use tj a k i(2) in \<open>auto simp: thread_ok_def Let_def\<close>)
  have slot: "slot (batches m ! j) a (lock_types (?js ! a)) (Holding t)" using manager_ctx(3) [OF ok(1) j(1) a(1)] a(2) j(2) by simp
  show ?thesis
  proof (cases "batches m ! j")
    case (Held es')
    then have "es' ! a \<in> set es'" "batch_key (es' ! a) = batch_key (es ! k)" "t = lock_types (es' ! a)" using slot key a(1) by simp_all
    then show ?thesis using Held j(1,3) by blast
  next
    case (InLock es' k')
    then obtain old where w: "k' < length es'" "threads (lock_of (locked (es' ! k')) m) ! j = Waiting (lock_types (es' ! k')) old"
      using stuck_batches [OF ok stuck j(1)] by auto
    then have "a \<noteq> k'" using a(2) InLock j(2) by auto
    then have "a < k'" using slot InLock by (simp split: if_splits)
    moreover have "sorted_wrt (<) (map batch_key es')" using tj(1) InLock unfolding thread_ok_def by (simp add: Let_def)
    ultimately have "batch_key (es' ! a) < batch_key (es' ! k')" using w(1) by (simp add: sorted_wrt_iff_nth_less)
    then show ?thesis using InLock key j(1) by auto
  qed (use stuck_batches [OF ok stuck j(1)] a(1) in auto)
qed

lemma no_deadlock:
  assumes ok: "manager_ok n m" "n < 65536" and stuck: "\<And>i. i < n \<Longrightarrow> batch_step False i (batches m ! i) m = None"
    and i: "i < n" "batches m ! i = InLock es k"
  shows "\<exists>i j es k es' y. i < n \<and> j < n \<and> batches m ! i = InLock es k \<and> batches m ! j = Held es' \<and> y \<in> set es' \<and>
    batch_key y = batch_key (es ! k) \<and> IntentTypeSetsConflict (lock_types (es ! k)) (lock_types y)"
proof -
  let ?key = "\<lambda>i. case batches m ! i of InLock es k \<Rightarrow> batch_key (es ! k) | _ \<Rightarrow> []"
  let ?W = "{i. i < n \<and> (\<exists>es k. batches m ! i = InLock es k)}"
  have W: "finite (?key ` ?W)" "?key ` ?W \<noteq> {}" using i by auto
  then obtain i where "i \<in> ?W" "?key i = Max (?key ` ?W)" using Max_in by (metis (no_types, lifting) imageE)
  then obtain es k where w: "i < n" "batches m ! i = InLock es k" "batch_key (es ! k) = Max (?key ` ?W)" by auto
  have "\<not> batch_key (es ! k) < batch_key (es' ! k')" if "j < n" "batches m ! j = InLock es' k'" for j es' k'
  proof -
    have "?key j \<in> ?key ` ?W" using that by blast
    then have "?key j \<le> batch_key (es ! k)" using W(1) w(3) by simp
    then show ?thesis using that by simp
  qed
  then show ?thesis using waits_upward [OF ok stuck w(1,2)] w(1,2) by blast
qed

lemma idle_lock:
  assumes "lock_reachable n e" "n < 65536" "\<And>i. i < n \<Longrightarrow> threads e ! i = Outside"
  shows "num_holding e = 0 \<and> num_waiters e = 0"
proof -
  have inv: "length (threads e) = n" "counts_ok e" using lock_inv_reachable [OF assms(1,2)] by (simp_all add: lock_inv_def)
  then have none: "how_many P e = 0" if "\<not> P Outside" for P
    using assms(3) that by (auto simp: how_many_def filter_empty_conv in_set_conv_nth)
  then have "counter (num_holding e) t = 0" for t using inv(2) by (simp add: counts_ok_def)
  then have "unat (num_holding e) = 0" using packed_counter [of "num_holding e"] by (simp add: packed_def)
  then show ?thesis using inv(2) none [of counted] by (simp add: counts_ok_def unat_eq_0)
qed

text \<open>Runs by a schedule, for examples.\<close>

datatype manager_event = Go nat | LockBatch nat lock_requests | Reset nat

fun manager_exec :: "manager_event \<Rightarrow> lock_manager \<Rightarrow> lock_manager option" where
  "manager_exec (Go i) m = (if i < length (batches m) then batch_step False i (batches m ! i) m else None)"
| "manager_exec (LockBatch i ks) m =
     (if i < length (batches m) \<and> ks \<noteq> []
      then (case batches m ! i of Idle st \<Rightarrow> Some (batch_at i (Reserving (FilterKeysToLock ks)) m) | _ \<Rightarrow> None) else None)"
| "manager_exec (Reset i) m =
     (if i < length (batches m)
      then (case batches m ! i of Held es \<Rightarrow> Some (batch_at i (Dropping None es (length es)) m) | _ \<Rightarrow> None) else None)"

fun manager_run :: "manager_event list \<Rightarrow> lock_manager \<Rightarrow> lock_manager option" where
  "manager_run [] m = Some m"
| "manager_run (v # vs) m = (case manager_exec v m of None \<Rightarrow> None | Some m' \<Rightarrow> manager_run vs m')"

lemma manager_exec_step: "manager_exec v m = Some m' \<Longrightarrow> manager_step m m'"
  by (cases v) (auto intro: manager_step.intros split: if_splits batch_pc.splits)

lemma manager_run_reachable: "manager_run vs m = Some m' \<Longrightarrow> manager_reachable n m \<Longrightarrow> manager_reachable n m'"
  by (induction vs m rule: manager_run.induct)
    (auto intro: manager_reachable.step manager_exec_step split: option.splits)

definition sample_schedule :: "manager_event list" where
  "sample_schedule =
     LockBatch 0 [([5], IntentTypeSet [kStrongWrite])] # replicate 5 (Go 0) @
     LockBatch 1 [([5], IntentTypeSet [kStrongRead]), ([3], IntentTypeSet [kWeakRead]), ([5], IntentTypeSet [kStrongWrite])] #
     replicate 10 (Go 1)"

definition sample_manager :: lock_manager where
  "sample_manager = the (manager_run sample_schedule (lock_manager_init 2))"

lemma sample_runs: "manager_run sample_schedule (lock_manager_init 2) \<noteq> None"
  by code_simp

lemma sample_reachable: "manager_reachable 2 sample_manager"
  using manager_run_reachable [OF _ manager_reachable.init] sample_runs unfolding sample_manager_def by (metis option.collapse)

definition sample_held :: "lock_batch_entry list" where
  "sample_held = [\<lparr>batch_key = [5], lock_types = IntentTypeSet [kStrongWrite], locked = 0\<rparr>]"

definition sample_wanted :: "lock_batch_entry list" where
  "sample_wanted = [\<lparr>batch_key = [3], lock_types = IntentTypeSet [kWeakRead], locked = 1\<rparr>,
     \<lparr>batch_key = [5], lock_types = IntentTypeSet [kStrongRead, kStrongWrite], locked = 0\<rparr>]"

lemma sample_batches: "batches sample_manager = [Held sample_held, InLock sample_wanted 1]"
  by code_simp

text \<open>The batch of locks for a write. The keys come out in strictly ascending order of their bytes, each key
  once, with the union of the types that were asked for it.\<close>

theorem filter_keys_to_lock:
  "sorted_wrt (\<lambda>a b. Compare a b < 0) (map fst (FilterKeysToLock ks)) \<and>
   fst ` set (FilterKeysToLock ks) = fst ` set ks \<and>
   ((\<exists>s. (k, s) \<in> set (FilterKeysToLock ks) \<and> Test s t) \<longleftrightarrow> (\<exists>s. (k, s) \<in> set ks \<and> Test s t))"
  unfolding Compare_less using filter_sorted filter_keys filter_types by blast

text \<open>C5. Mutual exclusion of batches. Whatever the interleaving of batches that are locked, time out and are
  released, with lock entries created, shared and reused by reference count, two batches that hold the same
  key hold it with types that do not conflict.\<close>

theorem batches_mutual_exclusion:
  assumes "manager_reachable n m" "n < 65536" "i < n" "j < n" "i \<noteq> j"
    and "batches m ! i = Held es" "batches m ! j = Held es'"
    and "x \<in> set es" "y \<in> set es'" "batch_key x = batch_key y"
  shows "\<not> IntentTypeSetsConflict (lock_types x) (lock_types y)"
proof -
  note ok = manager_reachable_ok [OF assms(1)]
  have x: "locks m (batch_key x) = Some (locked x)" "locked x < length (lock_entries m)"
    "threads (lock_of (locked x) m) ! i = Holding (lock_types x)"
    using held_entry [OF ok assms(3,6,8)] by blast+
  have y: "locks m (batch_key y) = Some (locked y)" "threads (lock_of (locked y) m) ! j = Holding (lock_types y)"
    using held_entry [OF ok assms(4,7,9)] by blast+
  have "lock_inv n (lock_of (locked x) m)" using lock_inv_reachable [OF _ assms(2)] manager_ctx(5) [OF ok assms(3) x(2)] by blast
  then have "exclusive (lock_of (locked x) m)" "length (threads (lock_of (locked x) m)) = n" by (simp_all add: lock_inv_def)
  moreover have "locked y = locked x" using x(1) y(1) assms(10) by simp
  ultimately show ?thesis using x(3) y(2) assms(3-5) unfolding exclusive_def by (metis holds.simps(1))
qed

text \<open>C4. No deadlock between batches. When no batch inside a call can take a step and some batch is in a call, one
  of these waits for a key that another batch, whose locking is complete, holds with conflicting types. So
  batches never wait for each other in a circle, and a release lets one of them go on.\<close>

theorem batches_no_deadlock:
  assumes "manager_reachable n m" "n < 65536"
    and "\<And>i. i < n \<Longrightarrow> batch_step False i (batches m ! i) m = None"
    and "i < n" "\<And>st. batches m ! i \<noteq> Idle st" "\<And>es. batches m ! i \<noteq> Held es"
  shows "\<exists>i j es k es' y. i < n \<and> j < n \<and> batches m ! i = InLock es k \<and> batches m ! j = Held es' \<and> y \<in> set es' \<and>
    batch_key y = batch_key (es ! k) \<and> IntentTypeSetsConflict (lock_types (es ! k)) (lock_types y)"
proof -
  note ok = manager_reachable_ok [OF assms(1)]
  obtain es k where "batches m ! i = InLock es k" using stuck_batches [OF ok assms(2-4)] assms(5,6) by blast
  then show ?thesis using no_deadlock [OF ok assms(2-4)] by blast
qed

text \<open>C33. Nothing leaks. When every batch is released or has failed to lock, the table of locks is empty, every
  entry is unreferenced, held by nobody and without waiters, and is in the list of free entries once.\<close>

theorem idle_manager_is_empty:
  assumes "manager_reachable n m" "n < 65536" "\<And>i. i < n \<Longrightarrow> \<exists>st. batches m ! i = Idle st"
  shows "locks m = Map.empty \<and> distinct (free_lock_entries m) \<and> set (free_lock_entries m) = {..<length (lock_entries m)} \<and>
    (\<forall>v\<in>set (lock_entries m). ref_count v = 0 \<and> num_holding (entry v) = 0 \<and> num_waiters (entry v) = 0)"
proof -
  note ok = manager_reachable_ok [OF assms(1)]
  have t: "table_ok n (refs m) m" "length (batches m) = n" using ok unfolding manager_ok_def table_ok_def by blast+
  have none: "entries_of (batches m ! i) = []" if "i < n" for i using assms(3) [OF that] by auto
  then have "refs m = []" unfolding refs_def using t(2) by (auto simp: in_set_conv_nth)
  note t = t(1) [unfolded this table_ok_def]
  have "ref_count v = 0 \<and> num_holding (entry v) = 0 \<and> num_waiters (entry v) = 0" if v: "v \<in> set (lock_entries m)" for v
  proof -
    obtain p where p: "p < length (lock_entries m)" "v = lock_entries m ! p" using v by (metis in_set_conv_nth)
    then have "threads (lock_of p m) ! i = Outside" if "i < n" for i
      using ok that none [OF that] unfolding manager_ok_def thread_ok_def by (simp add: Let_def)
    then have "num_holding (lock_of p m) = 0 \<and> num_waiters (lock_of p m) = 0" using idle_lock assms(2) t p(1) by blast
    then show ?thesis using t p by (simp add: lock_of_def)
  qed
  moreover have "locks m k = None" for k using t by (cases "locks m k") auto
  ultimately show ?thesis using t by auto
qed

theorem batches_no_deadlock_witness:
  "IntentTypeSetsConflict (IntentTypeSet [kStrongRead, kStrongWrite]) (IntentTypeSet [kStrongWrite])"
proof -
  have "list_all (\<lambda>i. batch_step False i (batches sample_manager ! i) sample_manager = None) [0, 1]" by code_simp
  then have "batch_step False i (batches sample_manager ! i) sample_manager = None" if "i < 2" for i
    using that by (auto simp: less_2_cases_iff)
  from batches_no_deadlock [OF sample_reachable _ this, of 1]
  show ?thesis by (auto simp: sample_batches less_2_cases_iff sample_held_def sample_wanted_def)
qed

definition shared_schedule :: "manager_event list" where
  "shared_schedule =
     LockBatch 0 [([5], IntentTypeSet [kStrongRead])] # replicate 5 (Go 0) @
     LockBatch 1 [([5], IntentTypeSet [kStrongRead])] # replicate 5 (Go 1)"

definition shared_manager :: lock_manager where
  "shared_manager = the (manager_run shared_schedule (lock_manager_init 2))"

definition released_manager :: lock_manager where
  "released_manager = the (manager_run (Reset 0 # replicate 6 (Go 0) @ Reset 1 # replicate 6 (Go 1)) shared_manager)"

lemma shared_runs: "manager_run shared_schedule (lock_manager_init 2) \<noteq> None"
  "manager_run (Reset 0 # replicate 6 (Go 0) @ Reset 1 # replicate 6 (Go 1)) shared_manager \<noteq> None"
  by code_simp+

lemma shared_reachable: "manager_reachable 2 shared_manager" "manager_reachable 2 released_manager"
proof -
  show s: "manager_reachable 2 shared_manager"
    using manager_run_reachable [OF _ manager_reachable.init] shared_runs(1) unfolding shared_manager_def by (metis option.collapse)
  show "manager_reachable 2 released_manager"
    using manager_run_reachable [OF _ s] shared_runs(2) unfolding released_manager_def by (metis option.collapse)
qed

lemma shared_batches:
  "batches shared_manager =
     replicate 2 (Held [\<lparr>batch_key = [5], lock_types = IntentTypeSet [kStrongRead], locked = 0\<rparr>])"
  "batches released_manager = replicate 2 (Idle None)" "length (lock_entries released_manager) = 1"
  by code_simp+

theorem batches_mutual_exclusion_witness:
  "\<not> IntentTypeSetsConflict (IntentTypeSet [kStrongRead]) (IntentTypeSet [kStrongRead])"
proof -
  let ?x = "\<lparr>batch_key = [5], lock_types = IntentTypeSet [kStrongRead], locked = 0\<rparr>"
  show ?thesis
    using batches_mutual_exclusion [OF shared_reachable(1), of 0 1 "[?x]" "[?x]" ?x ?x] by (simp add: shared_batches(1))
qed

theorem idle_manager_is_empty_witness:
  "locks released_manager = Map.empty \<and> set (free_lock_entries released_manager) = {0}"
  using idle_manager_is_empty [OF shared_reachable(2)] by (simp add: shared_batches(2,3) lessThan_Suc)

end
