(* ===== verification/Mvcc.thy ===== *)
theory Mvcc
  imports HybridTime
begin

text \<open>
  The tracking of operations by hybrid time, \<^verbatim>\<open>src/yb/tablet/mvcc.cc\<close> and \<^verbatim>\<open>mvcc.h\<close>. Every method takes the
  mutex for its whole body, so a method is one step on the state; the values the clock returns are
  arguments, and so is \<open>ndebug\<close>, whether the build defines \<^verbatim>\<open>NDEBUG\<close>. A method that waits on
  the condition variable is modelled by one evaluation of its predicate: \<^const>\<open>None\<close> is "wait on",
  with nothing changed. A priority queue of times is the sorted list of its elements.
\<close>

section \<open>State\<close>

datatype safe_time_source = kUnknown | kNow | kNextInQueue | kHybridTimeLease | kPropagated | kLastReplicated

record safe_time_with_source =
  safe_time :: hybrid_time
  source :: safe_time_source

record fixed_lease =
  lease_time :: hybrid_time
  lease :: hybrid_time

definition kMaxHybridTimePhysicalMicros :: uint64 where
  "kMaxHybridTimePhysicalMicros = drop_bit 12 kMaxHybridTimeValue"

definition lease_empty :: "fixed_lease \<Rightarrow> bool" where
  "lease_empty l \<longleftrightarrow> kMaxHybridTimePhysicalMicros \<le> GetPhysicalValueMicros (lease l)"

definition default_lease :: fixed_lease where
  "default_lease = \<lparr>lease_time = kInvalidHybridTimeValue, lease = kMaxHybridTimeValue\<rparr>"

text \<open>Points of the coarse clock; \<^const>\<open>None\<close> is \<^verbatim>\<open>CoarseTimePoint::max()\<close>.\<close>

type_synonym coarse_deadline = "int option"

definition timed_out :: "coarse_deadline \<Rightarrow> int \<Rightarrow> bool" where
  "timed_out deadline at = (case deadline of None \<Rightarrow> False | Some d \<Rightarrow> d \<le> at)"

datatype trace_item =
    SetLeaderOnlyModeItem bool
  | SetLastReplicatedItem hybrid_time
  | SetPropagatedSafeTimeOnFollowerItem hybrid_time
  | UpdatePropagatedSafeTimeOnLeaderItem fixed_lease hybrid_time
  | AddPendingItem hybrid_time hybrid_time
  | ReplicatedItem hybrid_time
  | AbortedItem hybrid_time
  | SafeTimeItem hybrid_time coarse_deadline fixed_lease hybrid_time
  | SafeTimeForFollowerItem hybrid_time coarse_deadline safe_time_with_source
  | LastReplicatedHybridTimeItem hybrid_time

record mvcc_op_trace =
  capacity :: nat
  items :: "trace_item list"

record mvcc =
  queue :: "hybrid_time list"
  aborted :: "hybrid_time list"
  last_replicated :: hybrid_time
  propagated_safe_time :: hybrid_time
  leader_only_mode :: bool
  max_with_lease :: safe_time_with_source
  max_without_lease :: safe_time_with_source
  max_for_follower :: safe_time_with_source
  op_trace :: "mvcc_op_trace option"

definition no_safe_time :: safe_time_with_source where
  "no_safe_time = \<lparr>safe_time = kMinHybridTimeValue, source = kUnknown\<rparr>"

definition MvccManager :: "int \<Rightarrow> mvcc" where
  "MvccManager op_trace_num_items =
     \<lparr>queue = [], aborted = [], last_replicated = kMinHybridTimeValue,
      propagated_safe_time = kMinHybridTimeValue, leader_only_mode = False,
      max_with_lease = no_safe_time, max_without_lease = no_safe_time, max_for_follower = no_safe_time,
      op_trace = (if op_trace_num_items > 0
                  then Some \<lparr>capacity = nat op_trace_num_items, items = []\<rparr> else None)\<rparr>"

section \<open>Operations\<close>

text \<open>A circular buffer at its capacity drops its oldest element.\<close>

definition trace_Add :: "trace_item \<Rightarrow> mvcc_op_trace \<Rightarrow> mvcc_op_trace" where
  "trace_Add v t =
     t\<lparr>items := (if length (items t) < capacity t then items t @ [v] else tl (items t @ [v]))\<rparr>"

definition traced :: "trace_item \<Rightarrow> mvcc \<Rightarrow> mvcc" where
  "traced v m = m\<lparr>op_trace := map_option (trace_Add v) (op_trace m)\<rparr>"

text \<open>The loop of \<open>PopFront\<close>; its second branch reads the front of an empty queue.\<close>

fun pop_aborted :: "hybrid_time list \<Rightarrow> hybrid_time list \<Rightarrow> (hybrid_time list \<times> hybrid_time list) result" where
  "pop_aborted q [] = Inr (q, [])"
| "pop_aborted [] (a # ab) = Inl Undefined"
| "pop_aborted (x # q) (a # ab) =
     (if x \<noteq> a then if x < a then Inr (x # q, a # ab) else Inl Fatal else pop_aborted q ab)"

definition PopFront :: "mvcc \<Rightarrow> mvcc result" where
  "PopFront m =
     (let q = tl (queue m) in
      if length q < length (aborted m) then Inl Fatal
      else bind_result (pop_aborted q (aborted m)) (\<lambda>(q, ab). Inr (m\<lparr>queue := q, aborted := ab\<rparr>)))"

text \<open>The flag returned with the state tells whether the waiting threads are notified.\<close>

definition mvcc_Replicated :: "hybrid_time \<Rightarrow> mvcc \<Rightarrow> (mvcc \<times> bool) result" where
  "mvcc_Replicated ht m =
     (let m = traced (ReplicatedItem ht) m in
      if queue m = [] then Inl Fatal
      else if hd (queue m) \<noteq> ht then Inl Fatal
      else bind_result (PopFront m) (\<lambda>m. Inr (m\<lparr>last_replicated := ht\<rparr>, True)))"

definition mvcc_Aborted :: "hybrid_time \<Rightarrow> mvcc \<Rightarrow> (mvcc \<times> bool) result" where
  "mvcc_Aborted ht m =
     (let m = traced (AbortedItem ht) m in
      if queue m = [] then Inl Fatal
      else if hd (queue m) = ht then bind_result (PopFront m) (\<lambda>m. Inr (m, True))
      else Inr (m\<lparr>aborted := insort ht (aborted m)\<rparr>, False))"

text \<open>The loop of \<open>AddPending\<close>, from the position that \<^verbatim>\<open>lower_bound\<close> found; its second branch reads
  the top of an empty priority queue.\<close>

fun drop_run :: "hybrid_time list \<Rightarrow> hybrid_time list \<Rightarrow> (hybrid_time list \<times> hybrid_time list) result" where
  "drop_run [] ab = Inr ([], ab)"
| "drop_run (x # q) [] = Inl Undefined"
| "drop_run (x # q) (a # ab) = (if x = a then drop_run q ab else Inr (x # q, a # ab))"

definition drop_aborted_tail :: "hybrid_time \<Rightarrow> mvcc \<Rightarrow> mvcc result" where
  "drop_aborted_tail ht m =
     (if queue m \<noteq> [] \<and> ht \<le> last (queue m) \<and> aborted m \<noteq> []
      then let before = takeWhile (\<lambda>x. x < hd (aborted m)) (queue m);
               from = dropWhile (\<lambda>x. x < hd (aborted m)) (queue m)
           in if from = [] then Inl Fatal
              else bind_result (drop_run from (aborted m))
                     (\<lambda>(rest, ab). Inr (m\<lparr>queue := before @ rest, aborted := ab\<rparr>))
      else Inr m)"

definition sanity_check_lower_bound :: "mvcc \<Rightarrow> hybrid_time" where
  "sanity_check_lower_bound m =
     fold max [safe_time (max_without_lease m), safe_time (max_for_follower m), propagated_safe_time m,
               last_replicated m, if queue m = [] then kMinHybridTimeValue else last (queue m)]
       (safe_time (max_with_lease m))"

definition AddPending :: "bool \<Rightarrow> hybrid_time \<Rightarrow> hybrid_time \<Rightarrow> mvcc \<Rightarrow> (mvcc \<times> hybrid_time) result" where
  "AddPending ndebug provided_ht now m =
     (let is_follower_side = is_valid provided_ht;
          ht = (if is_follower_side then provided_ht else now)
      in bind_result (drop_aborted_tail ht m) (\<lambda>m.
           let bound = sanity_check_lower_bound m;
               ht = (if ht \<le> bound \<and> ndebug \<and> \<not> is_follower_side \<and> is_valid bound \<and> bound \<noteq> kMaxHybridTimeValue
                     then Incremented bound else ht)
           in if ht \<le> bound then Inl Fatal
              else let m = traced (AddPendingItem provided_ht ht) m
                   in Inr (m\<lparr>queue := queue m @ [ht]\<rparr>, ht)))"

definition SetLastReplicated :: "hybrid_time \<Rightarrow> mvcc \<Rightarrow> mvcc \<times> bool" where
  "SetLastReplicated ht m = ((traced (SetLastReplicatedItem ht) m)\<lparr>last_replicated := ht\<rparr>, True)"

definition SetPropagatedSafeTimeOnFollower :: "hybrid_time \<Rightarrow> mvcc \<Rightarrow> mvcc \<times> bool" where
  "SetPropagatedSafeTimeOnFollower ht m =
     (let m = traced (SetPropagatedSafeTimeOnFollowerItem ht) m
      in (if propagated_safe_time m \<le> ht then m\<lparr>propagated_safe_time := ht\<rparr> else m, True))"

text \<open>What the predicate of \<open>DoGetSafeTime\<close> computes.\<close>

definition safe_time_candidate :: "fixed_lease \<Rightarrow> hybrid_time \<Rightarrow> mvcc \<Rightarrow> safe_time_with_source" where
  "safe_time_candidate l now m =
     (let (r, src) =
        (if queue m = []
         then (if is_valid (lease_time l) then max (safe_time (max_with_lease m)) (lease_time l) else now, kNow)
         else (Decremented (hd (queue m)), kNextInQueue));
        (r, src) =
        (if \<not> lease_empty l
         then let used_lease = max (lease l) (safe_time (max_with_lease m))
              in if used_lease < r then (used_lease, kHybridTimeLease) else (r, src)
         else (r, src))
      in \<lparr>safe_time = max r (last_replicated m), source = src\<rparr>)"

definition DoGetSafeTime ::
  "bool \<Rightarrow> hybrid_time \<Rightarrow> coarse_deadline \<Rightarrow> fixed_lease \<Rightarrow> hybrid_time \<Rightarrow> int \<Rightarrow> mvcc \<Rightarrow>
   (mvcc \<times> hybrid_time) option result" where
  "DoGetSafeTime ndebug min_allowed deadline l now at m =
     (if \<not> is_valid (lease l) then Inl Fatal
      else if \<not> min_allowed \<le> lease l then Inl Fatal
      else if \<not> lease_empty l \<and> \<not> is_valid (lease_time l) \<and> \<not> ndebug then Inl Fatal
      else let r = safe_time_candidate l now m in
        if \<not> min_allowed \<le> safe_time r
        then Inr (if timed_out deadline at then Some (m, kInvalidHybridTimeValue) else None)
        else let enforced_min_time =
                   (if \<not> lease_empty l then safe_time (max_with_lease m) else safe_time (max_without_lease m))
             in if safe_time r < enforced_min_time then Inl Fatal
                else Inr (Some (if \<not> lease_empty l then m\<lparr>max_with_lease := r\<rparr> else m\<lparr>max_without_lease := r\<rparr>,
                                safe_time r)))"

definition UpdatePropagatedSafeTimeOnLeader ::
  "bool \<Rightarrow> fixed_lease \<Rightarrow> hybrid_time \<Rightarrow> int \<Rightarrow> mvcc \<Rightarrow> (mvcc \<times> bool) option result" where
  "UpdatePropagatedSafeTimeOnLeader ndebug l now at m =
     bind_result (DoGetSafeTime ndebug kMinHybridTimeValue None l now at m) (\<lambda>r.
       case r of None \<Rightarrow> Inr None
       | Some (m, t) \<Rightarrow>
           if t < propagated_safe_time m
           then if ndebug then Inr (Some (traced (UpdatePropagatedSafeTimeOnLeaderItem l t) m, True)) else Inl Fatal
           else Inr (Some (traced (UpdatePropagatedSafeTimeOnLeaderItem l t) (m\<lparr>propagated_safe_time := t\<rparr>), True)))"

definition SetLeaderOnlyMode :: "bool \<Rightarrow> mvcc \<Rightarrow> mvcc" where
  "SetLeaderOnlyMode b m = (traced (SetLeaderOnlyModeItem b) m)\<lparr>leader_only_mode := b\<rparr>"

definition follower_candidate :: "mvcc \<Rightarrow> safe_time_with_source" where
  "follower_candidate m =
     (if last_replicated m < propagated_safe_time m
      then if queue m = [] \<or> propagated_safe_time m < hd (queue m)
           then \<lparr>safe_time = propagated_safe_time m, source = kPropagated\<rparr>
           else \<lparr>safe_time = Decremented (hd (queue m)), source = kNextInQueue\<rparr>
      else \<lparr>safe_time = last_replicated m, source = kLastReplicated\<rparr>)"

definition SafeTimeForFollower ::
  "bool \<Rightarrow> hybrid_time \<Rightarrow> coarse_deadline \<Rightarrow> hybrid_time \<Rightarrow> int \<Rightarrow> mvcc \<Rightarrow> (mvcc \<times> hybrid_time) option result" where
  "SafeTimeForFollower ndebug min_allowed deadline now at m =
     (if leader_only_mode m then DoGetSafeTime ndebug min_allowed deadline default_lease now at m
      else let r = follower_candidate m in
        if \<not> min_allowed \<le> safe_time r
        then Inr (if timed_out deadline at then Some (m, kInvalidHybridTimeValue) else None)
        else if safe_time r < safe_time (max_for_follower m) then Inl Fatal
        else Inr (Some (traced (SafeTimeForFollowerItem min_allowed deadline r) (m\<lparr>max_for_follower := r\<rparr>), safe_time r)))"

definition SafeTime ::
  "bool \<Rightarrow> hybrid_time \<Rightarrow> coarse_deadline \<Rightarrow> fixed_lease \<Rightarrow> hybrid_time \<Rightarrow> int \<Rightarrow> mvcc \<Rightarrow>
   (mvcc \<times> hybrid_time) option result" where
  "SafeTime ndebug min_allowed deadline l now at m =
     bind_result (DoGetSafeTime ndebug min_allowed deadline l now at m) (\<lambda>r.
       Inr (map_option (\<lambda>(m, t). (traced (SafeTimeItem min_allowed deadline l t) m, t)) r))"

definition LastReplicatedHybridTime :: "mvcc \<Rightarrow> mvcc \<times> hybrid_time" where
  "LastReplicatedHybridTime m = (traced (LastReplicatedHybridTimeItem (last_replicated m)) m, last_replicated m)"

section \<open>Runs\<close>

datatype mvcc_op =
    Replicate hybrid_time
  | Abort hybrid_time
  | Add hybrid_time hybrid_time
  | SetLast hybrid_time
  | SetPropagated hybrid_time
  | UpdatePropagated fixed_lease hybrid_time int
  | SetMode bool
  | ReadFollower hybrid_time coarse_deadline hybrid_time int
  | Read hybrid_time coarse_deadline fixed_lease hybrid_time int
  | GetLast

text \<open>What is seen from outside: a time an operation got, an operation becoming visible, a time returned
  as safe for reading.\<close>

datatype mvcc_event = Assigned hybrid_time | Visible hybrid_time | Safe hybrid_time

definition returned :: "hybrid_time \<Rightarrow> mvcc_event list" where
  "returned t = (if is_valid t then [Safe t] else [])"

definition finished :: "mvcc \<Rightarrow> (mvcc \<times> 'a) option \<Rightarrow> ('a \<Rightarrow> mvcc_event list) \<Rightarrow> mvcc \<times> mvcc_event list" where
  "finished m r f = (case r of None \<Rightarrow> (m, []) | Some (m', x) \<Rightarrow> (m', f x))"

fun mvcc_exec :: "bool \<Rightarrow> mvcc_op \<Rightarrow> mvcc \<Rightarrow> (mvcc \<times> mvcc_event list) result" where
  "mvcc_exec nd (Replicate t) m = bind_result (mvcc_Replicated t m) (\<lambda>(m, _). Inr (m, [Visible t]))"
| "mvcc_exec nd (Abort t) m = bind_result (mvcc_Aborted t m) (\<lambda>(m, _). Inr (m, []))"
| "mvcc_exec nd (Add t now) m = bind_result (AddPending nd t now m) (\<lambda>(m, t). Inr (m, [Assigned t]))"
| "mvcc_exec nd (SetLast t) m = Inr (fst (SetLastReplicated t m), [])"
| "mvcc_exec nd (SetPropagated t) m = Inr (fst (SetPropagatedSafeTimeOnFollower t m), [])"
| "mvcc_exec nd (UpdatePropagated l now at) m =
     bind_result (UpdatePropagatedSafeTimeOnLeader nd l now at m) (\<lambda>r. Inr (finished m r (\<lambda>_. [])))"
| "mvcc_exec nd (SetMode b) m = Inr (SetLeaderOnlyMode b m, [])"
| "mvcc_exec nd (ReadFollower t d now at) m =
     bind_result (SafeTimeForFollower nd t d now at m) (\<lambda>r. Inr (finished m r returned))"
| "mvcc_exec nd (Read t d l now at) m =
     bind_result (SafeTime nd t d l now at m) (\<lambda>r. Inr (finished m r returned))"
| "mvcc_exec nd GetLast m = Inr (fst (LastReplicatedHybridTime m), [])"

text \<open>
  What the callers owe: an operation is aborted once and while it is tracked, and the last replicated
  time is set (after bootstrap) forward, and below every tracked operation.
\<close>

fun permitted :: "mvcc_op \<Rightarrow> mvcc \<Rightarrow> bool" where
  "permitted (Abort t) m = (t \<in> set (queue m) \<and> t \<notin> set (aborted m))"
| "permitted (SetLast t) m = (last_replicated m \<le> t \<and> list_all (\<lambda>q. t < q) (queue m))"
| "permitted op m = True"

definition mvcc_step :: "bool \<Rightarrow> mvcc \<Rightarrow> mvcc_event list \<Rightarrow> mvcc \<Rightarrow> bool" where
  "mvcc_step nd m e m' \<longleftrightarrow> (\<exists>op. permitted op m \<and> mvcc_exec nd op m = Inr (m', e))"

section \<open>What a source of safe times promises\<close>

text \<open>
  Visible operations come in order of time; a safe time is not below an operation that is visible
  already, and lies below every operation that becomes visible, or is given its time, later. So a read
  at a safe time sees all of what was visible and can be repeated.
\<close>

fun mvcc_before :: "mvcc_event \<Rightarrow> mvcc_event \<Rightarrow> bool" where
  "mvcc_before (Safe s) (Visible t) = (s < t)"
| "mvcc_before (Safe s) (Assigned t) = (s < t)"
| "mvcc_before (Visible s) (Visible t) = (s < t)"
| "mvcc_before (Visible s) (Assigned t) = (s < t)"
| "mvcc_before (Visible s) (Safe t) = (s \<le> t)"
| "mvcc_before e e' = True"

inductive event_run :: "('s \<Rightarrow> mvcc_event list \<Rightarrow> 's \<Rightarrow> bool) \<Rightarrow> 's \<Rightarrow> mvcc_event list \<Rightarrow> 's \<Rightarrow> bool"
  for step s where
  start: "event_run step s [] s"
| more: "event_run step s es m \<Longrightarrow> step m e m' \<Longrightarrow> event_run step s (es @ e) m'"

fun event_ok :: "hybrid_time \<Rightarrow> hybrid_time \<Rightarrow> mvcc_event \<Rightarrow> hybrid_time \<Rightarrow> hybrid_time \<Rightarrow> bool" where
  "event_ok vis srv (Assigned t) vis' srv' = (max vis srv < t)"
| "event_ok vis srv (Visible t) vis' srv' = (max vis srv < t \<and> t \<le> vis')"
| "event_ok vis srv (Safe t) vis' srv' = (vis \<le> t \<and> t \<le> srv')"

locale safe_reads =
  fixes ok :: "'s \<Rightarrow> bool"
    and visible_upto :: "'s \<Rightarrow> hybrid_time"
    and served_upto :: "'s \<Rightarrow> hybrid_time"
    and step :: "'s \<Rightarrow> mvcc_event list \<Rightarrow> 's \<Rightarrow> bool"
  assumes keeps_ok: "ok m \<Longrightarrow> step m e m' \<Longrightarrow> ok m'"
    and visible_mono: "ok m \<Longrightarrow> step m e m' \<Longrightarrow> visible_upto m \<le> visible_upto m'"
    and served_mono: "ok m \<Longrightarrow> step m e m' \<Longrightarrow> served_upto m \<le> served_upto m'"
    and one_event: "ok m \<Longrightarrow> step m e m' \<Longrightarrow> length e \<le> 1"
    and events: "ok m \<Longrightarrow> step m e m' \<Longrightarrow> x \<in> set e \<Longrightarrow>
      event_ok (visible_upto m) (served_upto m) x (visible_upto m') (served_upto m')"
begin

lemma run_ok:
  assumes "event_run step m es m'" "ok m"
  shows "ok m' \<and> sorted_wrt mvcc_before es \<and>
    (\<forall>t. Visible t \<in> set es \<longrightarrow> t \<le> visible_upto m') \<and> (\<forall>t. Safe t \<in> set es \<longrightarrow> t \<le> served_upto m')"
  using assms
proof induction
  case (more es m1 e m2)
  then have IH: "ok m1" "sorted_wrt mvcc_before es" "\<And>t. Visible t \<in> set es \<Longrightarrow> t \<le> visible_upto m1"
    "\<And>t. Safe t \<in> set es \<Longrightarrow> t \<le> served_upto m1" by simp_all
  note st = more.hyps(2)
  note ev = events [OF IH(1) st]
  have cross: "mvcc_before x y" if "x \<in> set es" "y \<in> set e" for x y
    by (cases x; cases y) (use that IH(3,4) ev [OF that(2)] in \<open>auto intro: le_less_trans order_trans\<close>)
  have "sorted_wrt mvcc_before e" using one_event [OF IH(1) st] by (cases e) auto
  moreover have "t \<le> visible_upto m2" if "Visible t \<in> set e" for t using ev [OF that] by simp
  moreover have "t \<le> served_upto m2" if "Safe t \<in> set e" for t using ev [OF that] by simp
  moreover have "t \<le> visible_upto m2" if "Visible t \<in> set es" for t
    using IH(3) [OF that] visible_mono [OF IH(1) st] by simp
  moreover have "t \<le> served_upto m2" if "Safe t \<in> set es" for t
    using IH(4) [OF that] served_mono [OF IH(1) st] by simp
  ultimately show ?case
    using keeps_ok [OF IH(1) st] IH(2) cross by (auto simp: sorted_wrt_append)
qed simp

end

section \<open>Invariant\<close>

definition served :: "mvcc \<Rightarrow> hybrid_time" where
  "served m = max (safe_time (max_with_lease m)) (max (safe_time (max_without_lease m)) (safe_time (max_for_follower m)))"

definition read_bound :: "mvcc \<Rightarrow> hybrid_time" where
  "read_bound m = max (last_replicated m) (served m)"

definition mvcc_ok :: "mvcc \<Rightarrow> bool" where
  "mvcc_ok m \<longleftrightarrow>
     sorted_wrt (<) (queue m) \<and> sorted_wrt (<) (aborted m) \<and> set (aborted m) \<subseteq> set (queue m) \<and>
     (queue m \<noteq> [] \<longrightarrow> hd (queue m) \<notin> set (aborted m)) \<and> (\<forall>q\<in>set (queue m). read_bound m < q)"

text \<open>The operations that are tracked and not aborted.\<close>

definition live :: "mvcc \<Rightarrow> hybrid_time list" where
  "live m = filter (\<lambda>t. t \<notin> set (aborted m)) (queue m)"

lemma traced_simps [simp]:
  "queue (traced v m) = queue m" "aborted (traced v m) = aborted m"
  "last_replicated (traced v m) = last_replicated m" "propagated_safe_time (traced v m) = propagated_safe_time m"
  "max_with_lease (traced v m) = max_with_lease m" "max_without_lease (traced v m) = max_without_lease m"
  "max_for_follower (traced v m) = max_for_follower m" "leader_only_mode (traced v m) = leader_only_mode m"
  by (simp_all add: traced_def)

lemma bound_traced [simp]:
  "read_bound (traced v m) = read_bound m" "served (traced v m) = served m" "live (traced v m) = live m"
  "mvcc_ok (traced v m) = mvcc_ok m" "follower_candidate (traced v m) = follower_candidate m"
  by (simp_all add: read_bound_def served_def live_def mvcc_ok_def follower_candidate_def)

lemma trace_bounded: "length (items t) \<le> capacity t \<Longrightarrow> length (items (trace_Add v t)) \<le> capacity t"
  by (simp add: trace_Add_def)

lemma pop_aborted_ok:
  assumes "sorted_wrt (<) q" "sorted_wrt (<) ab" "set ab \<subseteq> set q"
  obtains q' ab' where "pop_aborted q ab = Inr (q', ab')" "sorted_wrt (<) q'" "sorted_wrt (<) ab'"
    "set ab' \<subseteq> set q'" "q' \<noteq> [] \<longrightarrow> hd q' \<notin> set ab'" "set q' \<subseteq> set q"
    "filter (\<lambda>t. t \<notin> set ab') q' = filter (\<lambda>t. t \<notin> set ab) q"
  using assms
proof (induction q ab arbitrary: thesis rule: pop_aborted.induct)
  case (3 x q a ab)
  show ?case
  proof (cases "x = a")
    case True
    with "3.prems"(2,3) have lt: "\<forall>y\<in>set q. a < y" "\<forall>y\<in>set ab. a < y" by auto
    have sub: "set ab \<subseteq> set q"
    proof
      fix y assume "y \<in> set ab"
      with lt(2) True show "y \<in> set q" using "3.prems"(4) by auto
    qed
    have f: "filter (\<lambda>t. t \<notin> set (a # ab)) (x # q) = filter (\<lambda>t. t \<notin> set ab) q"
      using True lt(1) by (auto intro!: filter_cong)
    show ?thesis
    proof (rule "3.IH" [OF _ _ _ _ sub])
      fix q' ab'
      assume "pop_aborted q ab = Inr (q', ab')" "sorted_wrt (<) q'" "sorted_wrt (<) ab'" "set ab' \<subseteq> set q'"
        "q' \<noteq> [] \<longrightarrow> hd q' \<notin> set ab'" "set q' \<subseteq> set q"
        "filter (\<lambda>t. t \<notin> set ab') q' = filter (\<lambda>t. t \<notin> set ab) q"
      with True f show thesis by (intro "3.prems"(1) [of q' ab']) auto
    qed (use True "3.prems" in auto)
  next
    case False
    with "3.prems" have "x < a" by auto
    moreover from this "3.prems"(3) have "x \<notin> set (a # ab)" by auto
    ultimately show ?thesis using "3.prems" False by (intro "3.prems"(1) [of "x # q" "a # ab"]) auto
  qed
qed auto

lemma drop_run_ok:
  assumes "drop_run q ab = Inr (q', ab')" "sorted_wrt (<) q" "sorted_wrt (<) ab" "set ab \<subseteq> set q"
  shows "sorted_wrt (<) q' \<and> sorted_wrt (<) ab' \<and> set ab' \<subseteq> set q' \<and> set q' \<subseteq> set q \<and> set ab' \<subseteq> set ab \<and>
    filter (\<lambda>t. t \<notin> set ab') q' = filter (\<lambda>t. t \<notin> set ab) q"
  using assms
proof (induction q ab rule: drop_run.induct)
  case (3 x q a ab)
  show ?case
  proof (cases "x = a")
    case True
    with "3.prems"(2,3) have lt: "\<forall>y\<in>set q. a < y" "\<forall>y\<in>set ab. a < y" by auto
    have sub: "set ab \<subseteq> set q"
    proof
      fix y assume "y \<in> set ab"
      with lt(2) True show "y \<in> set q" using "3.prems"(4) by auto
    qed
    have f: "filter (\<lambda>t. t \<notin> set (a # ab)) (x # q) = filter (\<lambda>t. t \<notin> set ab) q"
      using True lt(1) by (auto intro!: filter_cong)
    show ?thesis unfolding f using "3.IH" [OF True] "3.prems" True sub by auto
  next
    case False
    with "3.prems" show ?thesis by auto
  qed
qed auto

lemma PopFront_ok:
  assumes "mvcc_ok m" "queue m = t # q" "set (aborted m) \<subseteq> set q"
  obtains q' ab' where "PopFront (traced v m) = Inr ((traced v m)\<lparr>queue := q', aborted := ab'\<rparr>)" "sorted_wrt (<) q'" "sorted_wrt (<) ab'"
    "set ab' \<subseteq> set q'" "q' \<noteq> [] \<longrightarrow> hd q' \<notin> set ab'" "set q' \<subseteq> set q"
    "filter (\<lambda>t. t \<notin> set ab') q' = filter (\<lambda>t. t \<notin> set (aborted m)) q"
proof -
  have s: "sorted_wrt (<) q" "sorted_wrt (<) (aborted m)" using assms(1,2) by (simp_all add: mvcc_ok_def)
  have "length (aborted m) \<le> length q"
    using card_mono [OF _ assms(3)] s strict_sorted_iff
    by (metis List.finite_set distinct_card)
  then have pop: "PopFront (traced v m) = bind_result (pop_aborted q (aborted m)) (\<lambda>(q, ab). Inr ((traced v m)\<lparr>queue := q, aborted := ab\<rparr>))"
    using assms(2) by (simp add: PopFront_def)
  show thesis
    by (rule pop_aborted_ok [OF s assms(3)], rule that, simp add: pop; assumption)
qed

lemma front_live: "mvcc_ok m \<Longrightarrow> queue m = t # q \<Longrightarrow> set (aborted m) \<subseteq> set q \<and> t \<notin> set (aborted m) \<and> (\<forall>x\<in>set q. t < x)"
  by (auto simp: mvcc_ok_def)

lemma Replicated_result:
  assumes "mvcc_ok m" "queue m = t # q"
  obtains m' where "mvcc_Replicated t m = Inr (m', True)" "mvcc_ok m'" "live m = t # live m'"
    "last_replicated m' = t" "served m' = served m" "set (queue m') \<subseteq> set q" "propagated_safe_time m' = propagated_safe_time m"
proof -
  note fl = front_live [OF assms]
  obtain q' ab' where p: "PopFront (traced (ReplicatedItem t) m) = Inr ((traced (ReplicatedItem t) m)\<lparr>queue := q', aborted := ab'\<rparr>)"
    "sorted_wrt (<) q'" "sorted_wrt (<) ab'" "set ab' \<subseteq> set q'" "q' \<noteq> [] \<longrightarrow> hd q' \<notin> set ab'" "set q' \<subseteq> set q"
    "filter (\<lambda>t. t \<notin> set ab') q' = filter (\<lambda>t. t \<notin> set (aborted m)) q"
    by (rule PopFront_ok [OF assms conjunct1 [OF fl]])
  let ?m = "(traced (ReplicatedItem t) m)\<lparr>queue := q', aborted := ab', last_replicated := t\<rparr>"
  have "served m < x" if "x \<in> set q" for x
    using that assms by (auto simp: mvcc_ok_def read_bound_def)
  then have "mvcc_ok ?m" using p fl by (auto simp: mvcc_ok_def read_bound_def served_def)
  moreover have "live m = t # live ?m" using p(7) fl assms(2) by (simp add: live_def)
  ultimately show thesis
    using p assms(2) by (intro that [of ?m]) (auto simp: mvcc_Replicated_def served_def)
qed

lemma Aborted_front:
  assumes "mvcc_ok m" "queue m = t # q"
  obtains m' where "mvcc_Aborted t m = Inr (m', True)" "mvcc_ok m'" "live m = t # live m'"
    "last_replicated m' = last_replicated m" "served m' = served m" "set (queue m') \<subseteq> set q"
    "propagated_safe_time m' = propagated_safe_time m"
proof -
  note fl = front_live [OF assms]
  obtain q' ab' where p: "PopFront (traced (AbortedItem t) m) = Inr ((traced (AbortedItem t) m)\<lparr>queue := q', aborted := ab'\<rparr>)"
    "sorted_wrt (<) q'" "sorted_wrt (<) ab'" "set ab' \<subseteq> set q'" "q' \<noteq> [] \<longrightarrow> hd q' \<notin> set ab'" "set q' \<subseteq> set q"
    "filter (\<lambda>t. t \<notin> set ab') q' = filter (\<lambda>t. t \<notin> set (aborted m)) q"
    by (rule PopFront_ok [OF assms conjunct1 [OF fl]])
  let ?m = "(traced (AbortedItem t) m)\<lparr>queue := q', aborted := ab'\<rparr>"
  have "read_bound m < x" if "x \<in> set q" for x using that assms by (auto simp: mvcc_ok_def)
  then have "mvcc_ok ?m" using p by (auto simp: mvcc_ok_def read_bound_def served_def)
  moreover have "live m = t # live ?m" using p(7) fl assms(2) by (simp add: live_def)
  ultimately show thesis
    using p assms(2) by (intro that [of ?m]) (auto simp: mvcc_Aborted_def served_def)
qed

lemma Aborted_middle:
  assumes "mvcc_ok m" "queue m = x # q" "t \<noteq> x" "t \<in> set (live m)"
  shows "mvcc_Aborted t m = Inr ((traced (AbortedItem t) m)\<lparr>aborted := insort t (aborted m)\<rparr>, False)"
    "mvcc_ok ((traced (AbortedItem t) m)\<lparr>aborted := insort t (aborted m)\<rparr>)"
    "live ((traced (AbortedItem t) m)\<lparr>aborted := insort t (aborted m)\<rparr>) = remove1 t (live m)"
proof -
  let ?m = "(traced (AbortedItem t) m)\<lparr>aborted := insort t (aborted m)\<rparr>"
  have t: "t \<notin> set (aborted m)" "t \<in> set (queue m)" using assms(4) by (auto simp: live_def)
  show "mvcc_Aborted t m = Inr (?m, False)" using assms(2,3) by (simp add: mvcc_Aborted_def Let_def)
  have "sorted_wrt (<) (insort t (aborted m))"
    using assms(1) t(1) strict_sorted_iff by (metis distinct_insort mvcc_ok_def sorted_insort)
  then show "mvcc_ok ?m"
    using assms t by (auto simp: mvcc_ok_def read_bound_def served_def set_insort_key)
  have "distinct (live m)" using assms(1) by (simp add: live_def mvcc_ok_def strict_sorted_iff)
  then show "live ?m = remove1 t (live m)"
    by (auto simp: live_def distinct_remove1_removeAll set_insort_key removeAll_filter_not_eq intro!: filter_cong)
qed

lemma drop_tail_ok:
  assumes "mvcc_ok m" "drop_aborted_tail ht m = Inr m'"
  obtains q' ab' where "m' = m\<lparr>queue := q', aborted := ab'\<rparr>" "mvcc_ok m'" "live m' = live m"
    "q' = [] \<longleftrightarrow> queue m = []" "hd q' = hd (queue m)"
proof (cases "queue m \<noteq> [] \<and> ht \<le> last (queue m) \<and> aborted m \<noteq> []")
  case False
  then show thesis using assms that [of "aborted m" "queue m"] by (auto simp: drop_aborted_tail_def)
next
  case True
  define a where "a = hd (aborted m)"
  define before where "before = takeWhile (\<lambda>x. x < a) (queue m)"
  define start where "start = dropWhile (\<lambda>x. x < a) (queue m)"
  have q: "queue m = before @ start" by (simp add: before_def start_def)
  obtain ab where ab: "aborted m = a # ab" using True by (cases "aborted m") (simp_all add: a_def)
  have ok: "sorted_wrt (<) before" "sorted_wrt (<) start" "\<forall>x\<in>set before. \<forall>y\<in>set start. x < y"
    "sorted_wrt (<) (a # ab)" "set (a # ab) \<subseteq> set (queue m)" "hd (queue m) \<notin> set (a # ab)"
    "\<forall>x\<in>set (queue m). read_bound m < x"
    using assms(1) True q ab by (simp_all add: mvcc_ok_def sorted_wrt_append)
  have lt: "\<forall>x\<in>set before. x < a" unfolding before_def using set_takeWhileD by fast
  have ge: "\<forall>y\<in>set (a # ab). a \<le> y" using ok(4) by auto
  have sub: "set (a # ab) \<subseteq> set start"
  proof
    fix y assume y: "y \<in> set (a # ab)"
    then have "y \<notin> set before" using lt ge by (meson not_less)
    moreover have "y \<in> set before \<union> set start" using ok(5) y unfolding q by (auto simp del: set_simps)
    ultimately show "y \<in> set start" by simp
  qed
  obtain rest ab' where r: "drop_run start (a # ab) = Inr (rest, ab')" "m' = m\<lparr>queue := before @ rest, aborted := ab'\<rparr>"
    using assms(2) True sub unfolding drop_aborted_tail_def Let_def a_def [symmetric] before_def [symmetric] start_def [symmetric]
    by (auto simp: bind_result_eq_Inr ab split: if_splits)
  note d = drop_run_ok [OF r(1) ok(2,4) sub]
  have nb: "before \<noteq> []"
  proof
    assume "before = []"
    then have "hd (queue m) \<ge> a"
      using True unfolding before_def by (cases "queue m") (auto split: if_splits)
    moreover have "hd (queue m) \<le> a"
      using ok(5) assms(1) True by (cases "queue m") (auto simp: mvcc_ok_def)
    ultimately show False using ok(6) by simp
  qed
  have notin: "\<forall>x\<in>set before. x \<notin> set (a # ab) \<and> x \<notin> set ab'" using lt ge d by (meson not_less subsetD)
  have "live m' = live m" using r(2) d notin unfolding live_def q ab by (simp add: filter_id_conv)
  moreover have "mvcc_ok m'"
  proof -
    have "sorted_wrt (<) (before @ rest)" using ok(1,3) d by (auto simp: sorted_wrt_append)
    moreover have "hd (before @ rest) \<notin> set ab'" using notin nb by simp
    moreover have "read_bound m < x" if "x \<in> set (before @ rest)" for x
      using that ok(7) d unfolding q by auto
    moreover have "read_bound m' = read_bound m" by (simp add: r(2) read_bound_def served_def)
    ultimately show ?thesis using d unfolding mvcc_ok_def by (simp add: r(2) le_supI2)
  qed
  ultimately show thesis using that [OF r(2)] nb q by auto
qed

lemma fold_max_ge: "x \<le> fold max xs (x :: 'a :: linorder) \<and> (\<forall>y\<in>set xs. y \<le> fold max xs x)"
proof (induction xs arbitrary: x)
  case (Cons a xs)
  show ?case using Cons [of "max a x"] by auto
qed simp

lemma sanity_bound:
  "read_bound m \<le> sanity_check_lower_bound m" "propagated_safe_time m \<le> sanity_check_lower_bound m"
  "queue m \<noteq> [] \<Longrightarrow> last (queue m) \<le> sanity_check_lower_bound m"
proof -
  let ?xs = "[safe_time (max_without_lease m), safe_time (max_for_follower m), propagated_safe_time m,
    last_replicated m, if queue m = [] then kMinHybridTimeValue else last (queue m)]"
  have "safe_time (max_with_lease m) \<le> sanity_check_lower_bound m" "\<forall>y\<in>set ?xs. y \<le> sanity_check_lower_bound m"
    unfolding sanity_check_lower_bound_def using fold_max_ge [of "safe_time (max_with_lease m)" ?xs] by blast+
  then show "read_bound m \<le> sanity_check_lower_bound m" "propagated_safe_time m \<le> sanity_check_lower_bound m"
    "queue m \<noteq> [] \<Longrightarrow> last (queue m) \<le> sanity_check_lower_bound m"
    by (simp_all add: read_bound_def served_def)
qed

lemma sorted_last: "sorted_wrt (<) (xs :: 'a :: linorder list) \<Longrightarrow> x \<in> set xs \<Longrightarrow> x \<le> last xs"
  by (induction xs) (auto split: if_splits intro: less_imp_le)

lemma AddPending_result:
  assumes "mvcc_ok m" "AddPending nd provided now m = Inr (m', t)"
  shows "mvcc_ok m'" "live m' = live m @ [t]" "last_replicated m' = last_replicated m" "served m' = served m"
    "read_bound m < t" "\<forall>x\<in>set (live m). x < t" "propagated_safe_time m < t"
    "propagated_safe_time m' = propagated_safe_time m" "follower_candidate m' = follower_candidate m"
proof -
  let ?ht = "if is_valid provided then provided else now"
  obtain m1 where m1: "drop_aborted_tail ?ht m = Inr m1" "sanity_check_lower_bound m1 < t"
    "m' = (traced (AddPendingItem provided t) m1)\<lparr>queue := queue m1 @ [t]\<rparr>"
    using assms(2) unfolding AddPending_def Let_def bind_result_eq_Inr by (auto simp: not_le split: if_splits)
  obtain q' ab' where d: "m1 = m\<lparr>queue := q', aborted := ab'\<rparr>" "mvcc_ok m1" "live m1 = live m"
    "q' = [] \<longleftrightarrow> queue m = []" "hd q' = hd (queue m)"
    by (rule drop_tail_ok [OF assms(1) m1(1)])
  have rb: "read_bound m1 = read_bound m" "propagated_safe_time m1 = propagated_safe_time m"
    by (simp_all add: d(1) read_bound_def served_def)
  have last: "\<forall>x\<in>set (queue m1). x < t"
    using m1(2) sanity_bound(3) [of m1] sorted_last d(2) unfolding mvcc_ok_def
    by (metis empty_iff empty_set le_less_trans)
  show r: "read_bound m < t" "propagated_safe_time m < t" using m1(2) sanity_bound(1,2) [of m1] rb by simp_all
  have notin: "t \<notin> set (aborted m1)" using last d(2) by (auto simp: mvcc_ok_def)
  have "read_bound m' = read_bound m" by (simp add: m1(3) d(1) read_bound_def served_def)
  then show "mvcc_ok m'"
    using d(2) last notin r(1) rb(1) m1(3)
    by (auto simp: mvcc_ok_def sorted_wrt_append hd_append)
  show "live m' = live m @ [t]" using notin d(3) m1(3) by (simp add: live_def)
  have "set (live m1) \<subseteq> set (queue m1)" by (auto simp: live_def)
  then show "\<forall>x\<in>set (live m). x < t" using last d(3) by auto
  show "last_replicated m' = last_replicated m" "served m' = served m" "propagated_safe_time m' = propagated_safe_time m"
    by (simp_all add: m1(3) d(1) served_def)
  show "follower_candidate m' = follower_candidate m"
    using r d(4,5) by (simp add: m1(3) d(1) follower_candidate_def hd_append)
qed

lemma Decremented_less: "x < y \<Longrightarrow> Decremented y < y \<and> x \<le> Decremented y"
proof -
  assume "x < y"
  then have "unat x < unat y" by (simp add: word_less_nat_alt)
  then show ?thesis by (simp add: word_less_nat_alt word_le_nat_alt unat_Decremented)
qed

lemma candidate_bounds:
  assumes "mvcc_ok m"
  shows "\<forall>q\<in>set (queue m). safe_time (safe_time_candidate l now m) < q"
    "last_replicated m \<le> safe_time (safe_time_candidate l now m)"
    "\<forall>q\<in>set (queue m). safe_time (follower_candidate m) < q"
    "last_replicated m \<le> safe_time (follower_candidate m)"
proof -
  have front: "hd (queue m) \<le> q \<and> last_replicated m < hd (queue m) \<and> Decremented (hd (queue m)) < hd (queue m) \<and>
      last_replicated m \<le> Decremented (hd (queue m))" if "q \<in> set (queue m)" for q
  proof -
    have "hd (queue m) \<le> q" using that assms by (cases "queue m") (auto simp: mvcc_ok_def)
    moreover have "last_replicated m < hd (queue m)"
      using that assms by (cases "queue m") (auto simp: mvcc_ok_def read_bound_def)
    ultimately show ?thesis using Decremented_less by blast
  qed
  show "last_replicated m \<le> safe_time (safe_time_candidate l now m)"
    by (simp add: safe_time_candidate_def Let_def split: prod.split)
  have "safe_time (safe_time_candidate l now m) \<le> max (Decremented (hd (queue m))) (last_replicated m)" if "queue m \<noteq> []"
    using that by (auto simp: safe_time_candidate_def Let_def max_def)
  then show "\<forall>q\<in>set (queue m). safe_time (safe_time_candidate l now m) < q"
    using front by (fastforce simp: max_def split: if_splits)
  show "\<forall>q\<in>set (queue m). safe_time (follower_candidate m) < q"
    using front by (fastforce simp: follower_candidate_def)
  show "last_replicated m \<le> safe_time (follower_candidate m)"
    using front [OF hd_in_set] by (auto simp: follower_candidate_def)
qed

lemma DoGetSafeTime_result:
  assumes "mvcc_ok m" "DoGetSafeTime nd lo d l now at m = Inr (Some (m', t))"
  shows "mvcc_ok m' \<and> queue m' = queue m \<and> aborted m' = aborted m \<and> last_replicated m' = last_replicated m \<and>
    propagated_safe_time m' = propagated_safe_time m \<and> served m \<le> served m' \<and>
    (t = kInvalidHybridTimeValue \<and> m' = m \<or>
     t = safe_time (safe_time_candidate l now m) \<and> lo \<le> t \<and> last_replicated m \<le> t \<and> t \<le> served m' \<and>
       (\<forall>q\<in>set (queue m). t < q))"
proof -
  note c = candidate_bounds(1,2) [OF assms(1), of l now]
  let ?r = "safe_time_candidate l now m"
  let ?m = "if \<not> lease_empty l then m\<lparr>max_with_lease := ?r\<rparr> else m\<lparr>max_without_lease := ?r\<rparr>"
  consider "t = kInvalidHybridTimeValue" "m' = m"
    | "m' = ?m" "t = safe_time ?r" "lo \<le> t"
      "(if \<not> lease_empty l then safe_time (max_with_lease m) else safe_time (max_without_lease m)) \<le> t"
    using assms(2) unfolding DoGetSafeTime_def Let_def by (auto simp: not_less split: if_splits)
  then show ?thesis
  proof cases
    case 1
    then show ?thesis using assms(1) by simp
  next
    case 2
    have s: "served m \<le> served ?m" "t \<le> served ?m" using 2(2,4) by (auto simp: served_def le_max_iff_disj)
    have "read_bound ?m \<le> max (read_bound m) t" using 2(2) by (auto simp: read_bound_def served_def le_max_iff_disj)
    moreover have "\<forall>q\<in>set (queue m). max (read_bound m) t < q" using c(1) assms(1) 2(2) by (auto simp: mvcc_ok_def)
    ultimately have "\<forall>q\<in>set (queue m). read_bound ?m < q" using le_less_trans by blast
    then have "mvcc_ok ?m" using assms(1) by (auto simp: mvcc_ok_def)
    with s c 2 show ?thesis by auto
  qed
qed

lemma follower_result:
  assumes "mvcc_ok m" "SafeTimeForFollower nd lo d now at m = Inr (Some (m', t))"
  shows "mvcc_ok m' \<and> queue m' = queue m \<and> last_replicated m' = last_replicated m \<and> served m \<le> served m' \<and>
    (t = kInvalidHybridTimeValue \<and> m' = m \<or> lo \<le> t \<and> last_replicated m \<le> t \<and> t \<le> served m' \<and> (\<forall>q\<in>set (queue m). t < q))"
proof (cases "leader_only_mode m")
  case True
  then have "DoGetSafeTime nd lo d default_lease now at m = Inr (Some (m', t))"
    using assms(2) by (simp add: SafeTimeForFollower_def)
  from DoGetSafeTime_result [OF assms(1) this] show ?thesis by auto
next
  case False
  note c = candidate_bounds(3,4) [OF assms(1)]
  let ?r = "follower_candidate m" let ?m = "m\<lparr>max_for_follower := ?r\<rparr>"
  consider "t = kInvalidHybridTimeValue" "m' = m"
    | "m' = traced (SafeTimeForFollowerItem lo d ?r) ?m" "t = safe_time ?r" "lo \<le> t" "safe_time (max_for_follower m) \<le> t"
    using assms(2) False unfolding SafeTimeForFollower_def Let_def by (auto simp: not_less split: if_splits)
  then show ?thesis
  proof cases
    case 1
    then show ?thesis using assms(1) by simp
  next
    case 2
    have s: "served m \<le> served ?m" "t \<le> served ?m" using 2(2,4) by (auto simp: served_def le_max_iff_disj)
    have "read_bound ?m \<le> max (read_bound m) t" using 2(2) by (auto simp: read_bound_def served_def le_max_iff_disj)
    moreover have "\<forall>q\<in>set (queue m). max (read_bound m) t < q" using c(1) assms(1) 2(2) by (auto simp: mvcc_ok_def)
    ultimately have "\<forall>q\<in>set (queue m). read_bound ?m < q" using le_less_trans by blast
    then have "mvcc_ok ?m" using assms(1) by (auto simp: mvcc_ok_def)
    with s c 2 show ?thesis by auto
  qed
qed

lemma Replicated_front:
  assumes "mvcc_Replicated t m = Inr r"
  obtains q where "queue m = t # q"
  using assms by (cases "queue m") (auto simp: mvcc_Replicated_def Let_def split: if_splits)

lemma returned_event: "x \<in> set (returned t) \<longleftrightarrow> x = Safe t \<and> is_valid t"
  by (simp add: returned_def)

definition event_step_ok :: "mvcc \<Rightarrow> mvcc_event list \<Rightarrow> mvcc \<Rightarrow> bool" where
  "event_step_ok m e m' \<longleftrightarrow>
     mvcc_ok m' \<and> last_replicated m \<le> last_replicated m' \<and> served m \<le> served m' \<and> length e \<le> 1 \<and>
     (\<forall>x\<in>set e. event_ok (last_replicated m) (served m) x (last_replicated m') (served m'))"

lemma silent_step:
  "mvcc_ok m' \<Longrightarrow> last_replicated m \<le> last_replicated m' \<Longrightarrow> served m \<le> served m' \<Longrightarrow> event_step_ok m [] m'"
  by (simp add: event_step_ok_def)

lemma read_step:
  assumes "mvcc_ok m'" "last_replicated m' = last_replicated m" "served m \<le> served m'"
    "t = kInvalidHybridTimeValue \<or> (last_replicated m \<le> t \<and> t \<le> served m')"
  shows "event_step_ok m (returned t) m'"
  using assms by (auto simp: event_step_ok_def returned_def is_valid_def)

lemma last_below_front: "mvcc_ok m \<Longrightarrow> queue m = t # q \<Longrightarrow> max (last_replicated m) (served m) < t"
  by (simp add: mvcc_ok_def read_bound_def)

lemma replicate_step:
  assumes ok: "mvcc_ok m" and r: "mvcc_Replicated t m = Inr (m', b)"
  shows "event_step_ok m [Visible t] m'"
proof -
  obtain q where q: "queue m = t # q" by (rule Replicated_front [OF r])
  show ?thesis
    by (rule Replicated_result [OF ok q])
      (use r last_below_front [OF ok q] in \<open>auto simp: event_step_ok_def\<close>)
qed

lemma abort_step:
  assumes ok: "mvcc_ok m" and t: "t \<in> set (live m)" and r: "mvcc_Aborted t m = Inr (m', b)"
  shows "event_step_ok m [] m'"
proof -
  obtain x q where q: "queue m = x # q" using t by (cases "queue m") (auto simp: live_def)
  show ?thesis
  proof (cases "t = x")
    case True
    show ?thesis
      by (rule Aborted_front [OF ok q]) (use r True in \<open>auto simp: event_step_ok_def\<close>)
  next
    case False
    then show ?thesis
      using Aborted_middle [OF ok q False t] r by (intro silent_step) (auto simp: served_def)
  qed
qed

lemma set_last_step:
  assumes ok: "mvcc_ok m" and p: "permitted (SetLast t) m"
  shows "event_step_ok m [] (fst (SetLastReplicated t m))"
proof -
  let ?m = "(traced (SetLastReplicatedItem t) m)\<lparr>last_replicated := t\<rparr>"
  have "\<forall>q\<in>set (queue m). max t (served m) < q"
    using ok p by (auto simp: mvcc_ok_def read_bound_def list_all_iff)
  moreover have sv: "served ?m = served m" by (simp add: served_def)
  ultimately have "mvcc_ok ?m" using ok unfolding mvcc_ok_def read_bound_def sv by simp
  then show ?thesis using p sv by (intro silent_step) (simp_all add: SetLastReplicated_def)
qed

lemma mode_and_propagated [simp]:
  "mvcc_ok (m\<lparr>propagated_safe_time := t\<rparr>) = mvcc_ok m" "served (m\<lparr>propagated_safe_time := t\<rparr>) = served m"
  "mvcc_ok (m\<lparr>leader_only_mode := b\<rparr>) = mvcc_ok m" "served (m\<lparr>leader_only_mode := b\<rparr>) = served m"
  by (simp_all add: mvcc_ok_def read_bound_def served_def)

lemma update_step:
  assumes ok: "mvcc_ok m" and u: "UpdatePropagatedSafeTimeOnLeader nd l now at m = Inr r"
  shows "event_step_ok m [] (fst (finished m r (\<lambda>_. [])))"
proof -
  obtain r1 where r1: "DoGetSafeTime nd kMinHybridTimeValue None l now at m = Inr r1"
    using u by (auto simp: UpdatePropagatedSafeTimeOnLeader_def bind_result_eq_Inr)
  show ?thesis
  proof (cases r1)
    case None
    with r1 u ok show ?thesis
      by (auto simp: UpdatePropagatedSafeTimeOnLeader_def finished_def intro!: silent_step)
  next
    case (Some mt)
    obtain m1 t where mt: "mt = (m1, t)" by (cases mt)
    note d = DoGetSafeTime_result [OF ok r1 [unfolded Some mt]]
    show ?thesis
      using d r1 Some mt u
      by (auto simp: UpdatePropagatedSafeTimeOnLeader_def finished_def intro!: silent_step split: if_splits)
  qed
qed

text \<open>One evaluation of the predicate of a waiting read.\<close>

lemma waiting_step:
  assumes ok: "mvcc_ok m" and "(m', e) = finished m r returned"
    and "\<And>m1 t. r = Some (m1, t) \<Longrightarrow>
      mvcc_ok m1 \<and> last_replicated m1 = last_replicated m \<and> served m \<le> served m1 \<and>
      (t = kInvalidHybridTimeValue \<or> last_replicated m \<le> t \<and> t \<le> served m1)"
  shows "event_step_ok m e m'"
proof (cases r)
  case None
  with assms show ?thesis by (auto simp: finished_def intro!: silent_step)
next
  case (Some mt)
  obtain m1 t where "mt = (m1, t)" by (cases mt)
  with Some assms show ?thesis by (auto simp: finished_def intro!: read_step)
qed

lemma read_follower_step:
  assumes ok: "mvcc_ok m" and r: "SafeTimeForFollower nd t d now at m = Inr r" "(m', e) = finished m r returned"
  shows "event_step_ok m e m'"
  by (rule waiting_step [OF ok r(2)]) (use follower_result [OF ok] r(1) in blast)

lemma read_leader_step:
  assumes ok: "mvcc_ok m" and r: "SafeTime nd t d l now at m = Inr r" "(m', e) = finished m r returned"
  shows "event_step_ok m e m'"
proof (rule waiting_step [OF ok r(2)])
  fix m1 s assume "r = Some (m1, s)"
  with r(1) obtain m2 where "DoGetSafeTime nd t d l now at m = Inr (Some (m2, s))" "m1 = traced (SafeTimeItem t d l s) m2"
    by (auto simp: SafeTime_def bind_result_eq_Inr)
  with DoGetSafeTime_result [OF ok this(1)]
  show "mvcc_ok m1 \<and> last_replicated m1 = last_replicated m \<and> served m \<le> served m1 \<and>
      (s = kInvalidHybridTimeValue \<or> last_replicated m \<le> s \<and> s \<le> served m1)" by auto
qed

lemma add_step:
  "mvcc_ok m \<Longrightarrow> AddPending nd t now m = Inr (m', t') \<Longrightarrow> event_step_ok m [Assigned t'] m'"
  using AddPending_result [of m nd t now m' t'] by (simp add: event_step_ok_def read_bound_def)

lemma mvcc_exec_ok:
  assumes ok: "mvcc_ok m" and p: "permitted op m" and ex: "mvcc_exec nd op m = Inr (m', e)"
  shows "event_step_ok m e m'"
proof (cases op)
  case (Abort t)
  then show ?thesis using ex p abort_step [OF ok, of t] by (auto simp: bind_result_eq_Inr live_def)
next
  case (UpdatePropagated l now at)
  then obtain r where "UpdatePropagatedSafeTimeOnLeader nd l now at m = Inr r" "(m', e) = finished m r (\<lambda>_. [])"
    using ex by (auto simp: bind_result_eq_Inr)
  moreover from this have "e = []" by (auto simp: finished_def split: option.splits)
  ultimately show ?thesis using update_step [OF ok] by (metis fst_conv)
next
  case (SetLast t)
  then show ?thesis using ex p set_last_step [OF ok, of t] by auto
qed (use ex ok p replicate_step add_step read_follower_step read_leader_step in
    \<open>auto simp: bind_result_eq_Inr SetPropagatedSafeTimeOnFollower_def SetLeaderOnlyMode_def
      LastReplicatedHybridTime_def Let_def intro!: silent_step split: if_splits\<close>)

interpretation mvcc_reads: safe_reads mvcc_ok last_replicated served "mvcc_step nd" for nd
  using mvcc_exec_ok by unfold_locales (auto simp: mvcc_step_def event_step_ok_def)

lemma MvccManager_ok: "mvcc_ok (MvccManager n)"
  by (simp add: MvccManager_def mvcc_ok_def)

section \<open>Properties\<close>

lemma drop_run_all: "drop_run ab ab = Inr ([], [])"
  by (induction ab) auto

lemma drop_tail_whole:
  assumes "mvcc_ok m" "queue m = pre @ aborted m"
  shows "drop_aborted_tail ht m = Inr m \<or> drop_aborted_tail ht m = Inr (m\<lparr>queue := pre, aborted := []\<rparr>)"
proof (cases "aborted m")
  case Nil
  then show ?thesis by (simp add: drop_aborted_tail_def)
next
  case (Cons a ab)
  have "sorted_wrt (<) (pre @ a # ab)" using assms Cons by (simp add: mvcc_ok_def)
  then have "takeWhile (\<lambda>x. x < a) (pre @ a # ab) = pre" "dropWhile (\<lambda>x. x < a) (pre @ a # ab) = a # ab"
    by (auto simp: sorted_wrt_append takeWhile_append2 dropWhile_append2)
  then show ?thesis using assms(2) Cons drop_run_all [of "a # ab"] by (auto simp: drop_aborted_tail_def Let_def)
qed

lemma fold_max_mono: "x \<le> y \<Longrightarrow> list_all2 (\<le>) xs ys \<Longrightarrow> fold max xs (x :: 'a :: linorder) \<le> fold max ys y"
proof (induction xs arbitrary: ys x y)
  case (Cons a xs)
  then show ?case by (auto simp: list_all2_Cons1 max.coboundedI1 max.coboundedI2)
qed simp

lemma sanity_drop:
  assumes "mvcc_ok m" "queue m = pre @ aborted m"
  shows "sanity_check_lower_bound (m\<lparr>queue := pre, aborted := []\<rparr>) \<le> sanity_check_lower_bound m"
proof -
  have "(if pre = [] then kMinHybridTimeValue else last pre) \<le> (if queue m = [] then kMinHybridTimeValue else last (queue m))"
    using assms sorted_last [of "queue m" "last pre"] by (auto simp: mvcc_ok_def kMinHybridTimeValue_def)
  then show ?thesis unfolding sanity_check_lower_bound_def by (intro fold_max_mono) (auto split: if_splits)
qed

lemma Incremented_greater: "b < kInvalidHybridTimeValue \<Longrightarrow> b < Incremented b"
proof -
  assume "b < kInvalidHybridTimeValue"
  then have "unat b < 2 ^ 64 - 2" by (simp add: word_less_nat_alt kInvalidHybridTimeValue_def kMaxHybridTimeValue_def)
  then have "unat (b + 1) = unat b + 1" by (simp add: unat_word_ariths)
  then show ?thesis using \<open>b < _\<close> by (simp add: Incremented_def not_le [symmetric]) (simp add: word_le_nat_alt)
qed

text \<open>C2. Reads at a safe time are complete and repeatable. In every run of a tablet's manager from its
  construction, operations become visible in the order of their times; a time returned as safe is not
  below an operation that is visible already; and every operation that becomes visible, or is given its
  time, after that lies above it. This covers leader and follower reads, leader changes that abort
  operations, and reads that had to wait.\<close>

theorem mvcc_reads_repeatable:
  assumes "event_run (mvcc_step nd) (MvccManager n) es m"
  shows "sorted_wrt mvcc_before es"
  using mvcc_reads.run_ok [OF assms MvccManager_ok] by simp

definition sample_lease :: fixed_lease where "sample_lease = \<lparr>lease_time = 15, lease = 20\<rparr>"

lemmas mvcc_eval = mvcc_step_def MvccManager_def AddPending_def drop_aborted_tail_def sanity_check_lower_bound_def
  no_safe_time_def ht_consts is_valid_def traced_def Let_def SafeTime_def DoGetSafeTime_def safe_time_candidate_def
  lease_empty_def GetPhysicalValueMicros_def kMaxHybridTimePhysicalMicros_def sample_lease_def Decremented_def
  finished_def returned_def mvcc_Replicated_def PopFront_def

lemma sample_run:
  "event_run (mvcc_step True) (MvccManager 0) [Assigned 10, Safe 9, Visible 10, Safe 15]
     ((MvccManager 0)\<lparr>last_replicated := 10, max_with_lease := \<lparr>safe_time = 15, source = kNow\<rparr>\<rparr>)"
proof -
  let ?m = "MvccManager 0" let ?n = "\<lparr>safe_time = 9, source = kNextInQueue\<rparr>"
  have "event_run (mvcc_step True) ?m ([] @ [Assigned 10]) (?m\<lparr>queue := [10]\<rparr>)"
    by (rule event_run.more [OF event_run.start]) (auto simp: mvcc_eval intro!: exI [of _ "Add 10 0"])
  then have "event_run (mvcc_step True) ?m (([] @ [Assigned 10]) @ [Safe 9]) (?m\<lparr>queue := [10], max_with_lease := ?n\<rparr>)"
    by (rule event_run.more) (auto simp: mvcc_eval intro!: exI [of _ "Read 5 None sample_lease 0 0"])
  then have "event_run (mvcc_step True) ?m ((([] @ [Assigned 10]) @ [Safe 9]) @ [Visible 10])
      (?m\<lparr>last_replicated := 10, max_with_lease := ?n\<rparr>)"
    by (rule event_run.more) (auto simp: mvcc_eval intro!: exI [of _ "Replicate 10"])
  then have "event_run (mvcc_step True) ?m (((([] @ [Assigned 10]) @ [Safe 9]) @ [Visible 10]) @ [Safe 15])
      (?m\<lparr>last_replicated := 10, max_with_lease := \<lparr>safe_time = 15, source = kNow\<rparr>\<rparr>)"
    by (rule event_run.more) (auto simp: mvcc_eval intro!: exI [of _ "Read 5 None sample_lease 0 0"])
  then show ?thesis by simp
qed

theorem mvcc_reads_repeatable_witness: "sorted_wrt mvcc_before [Assigned 10, Safe 9, Visible 10, Safe 15]"
  using mvcc_reads_repeatable [OF sample_run] .

text \<open>C8. The queue with its heap of aborted operations implements the plain list of live operations. The
  queue is empty, and has a front, exactly as that list. \<open>Replicated\<close> succeeds for its head only and
  removes it, \<open>Aborted\<close> succeeds for every member and removes it, and a successful \<open>AddPending\<close> appends a
  time above all of it, whether or not it first drops an aborted tail.\<close>

theorem mvcc_refines_live_list:
  assumes "mvcc_ok m"
  shows "(queue m = [] \<longleftrightarrow> live m = []) \<and> (live m \<noteq> [] \<longrightarrow> hd (queue m) = hd (live m)) \<and>
    ((\<exists>m'. mvcc_Replicated t m = Inr (m', True) \<and> live m' = tl (live m)) \<longleftrightarrow> live m \<noteq> [] \<and> t = hd (live m)) \<and>
    (t \<in> set (live m) \<longrightarrow> (\<exists>m' b. mvcc_Aborted t m = Inr (m', b) \<and> live m' = remove1 t (live m))) \<and>
    (AddPending nd p now m = Inr (m1, t') \<longrightarrow> live m1 = live m @ [t'] \<and> (\<forall>x\<in>set (live m). x < t'))"
proof (cases "queue m")
  case Nil
  have "live m = []" using Nil by (simp add: live_def)
  moreover have "mvcc_Replicated t m = Inl Fatal" using Nil by (simp add: mvcc_Replicated_def)
  ultimately show ?thesis using Nil AddPending_result [OF assms] by auto
next
  case (Cons x q)
  have hd: "live m = x # filter (\<lambda>t. t \<notin> set (aborted m)) q" using front_live [OF assms Cons] Cons by (simp add: live_def)
  have rep: "(\<exists>m'. mvcc_Replicated t m = Inr (m', True) \<and> live m' = tl (live m)) \<longleftrightarrow> t = x"
  proof
    assume "\<exists>m'. mvcc_Replicated t m = Inr (m', True) \<and> live m' = tl (live m)"
    then show "t = x" using Cons Replicated_front [of t m] by auto
  next
    assume "t = x"
    then show "\<exists>m'. mvcc_Replicated t m = Inr (m', True) \<and> live m' = tl (live m)"
      using Replicated_result [OF assms Cons] by (metis list.sel(3))
  qed
  have ab: "\<exists>m' b. mvcc_Aborted t m = Inr (m', b) \<and> live m' = remove1 t (live m)" if t: "t \<in> set (live m)"
  proof (cases "t = x")
    case True
    then show ?thesis using Aborted_front [OF assms Cons] by (metis remove1.simps(2))
  next
    case False
    then show ?thesis using Aborted_middle [OF assms Cons False t] by blast
  qed
  show ?thesis using Cons hd rep ab AddPending_result [OF assms] by simp
qed

theorem mvcc_refines_live_list_witness:
  "mvcc_ok ((MvccManager 0)\<lparr>queue := [3, 5, 8], aborted := [5]\<rparr>) \<and>
   (\<exists>m'. mvcc_Replicated 3 ((MvccManager 0)\<lparr>queue := [3, 5, 8], aborted := [5]\<rparr>) = Inr (m', True) \<and> live m' = [8])"
proof -
  let ?m = "(MvccManager 0)\<lparr>queue := [3, 5, 8], aborted := [5]\<rparr>"
  have ok: "mvcc_ok ?m" by (simp add: mvcc_ok_def MvccManager_def read_bound_def served_def no_safe_time_def ht_consts)
  have "live ?m = [3, 8]" by (simp add: live_def)
  then show ?thesis using ok mvcc_refines_live_list [OF ok, of 3] by simp
qed

text \<open>C34. A leader is never stopped by its clock. In a release build, while the aborted operations are a
  tail of the queue and the bound on new times is below the reserved values, \<open>AddPending\<close> for a new
  operation always succeeds, and with the time of the clock where that is above the bound.\<close>

theorem add_pending_on_leader:
  assumes "mvcc_ok m" "queue m = pre @ aborted m" "sanity_check_lower_bound m < kInvalidHybridTimeValue"
  shows "\<exists>m' t. AddPending True kInvalidHybridTimeValue now m = Inr (m', t) \<and> (sanity_check_lower_bound m < now \<longrightarrow> t = now)"
proof -
  obtain m1 where m1: "drop_aborted_tail now m = Inr m1" "sanity_check_lower_bound m1 \<le> sanity_check_lower_bound m"
    using drop_tail_whole [OF assms(1,2), of now] sanity_drop [OF assms(1,2)] by auto
  let ?b = "sanity_check_lower_bound m1"
  have b: "?b < kInvalidHybridTimeValue" using m1(2) assms(3) by simp
  then have "?b < Incremented ?b" "is_valid ?b" "?b \<noteq> kMaxHybridTimeValue"
    using Incremented_greater by (auto simp: is_valid_def kInvalidHybridTimeValue_def kMaxHybridTimeValue_def)
  then show ?thesis
    using m1 by (cases "now \<le> ?b") (auto simp: AddPending_def Let_def is_valid_def not_le dest: le_less_trans)
qed

theorem add_pending_on_leader_witness:
  "\<exists>m' t. AddPending True kInvalidHybridTimeValue 7 ((MvccManager 0)\<lparr>queue := [3, 5, 8], aborted := [5, 8]\<rparr>) = Inr (m', t)"
proof -
  let ?m = "(MvccManager 0)\<lparr>queue := [3, 5, 8], aborted := [5, 8]\<rparr>"
  have "mvcc_ok ?m" by (simp add: mvcc_ok_def MvccManager_def read_bound_def served_def no_safe_time_def ht_consts)
  moreover have "sanity_check_lower_bound ?m < kInvalidHybridTimeValue"
    by (simp add: sanity_check_lower_bound_def MvccManager_def no_safe_time_def ht_consts)
  ultimately show ?thesis using add_pending_on_leader [of ?m "[3]" 7] by auto
qed

text \<open>When the aborted operations are not a tail, the loop that drops them reads the top of the empty heap.\<close>

lemma add_pending_empty_top:
  "AddPending nd 9 0 ((MvccManager 0)\<lparr>queue := [3, 5, 8, 12], aborted := [5]\<rparr>) = Inl Undefined"
  by (simp add: AddPending_def drop_aborted_tail_def is_valid_def ht_consts Let_def)

text \<open>C35. A leader with a lease can always compute a safe time. With a valid lease and a valid time, \<open>SafeTime\<close>
  fails no check; what it returns is at least the time asked for, at least every safe time returned with
  a lease before, below every pending operation, and above the lease only if an earlier safe time or a
  replicated operation is. This is not the bound in the header, which lets only replicated operations exceed the lease:
  after a safe time above a lease that is given later, and with nothing pending, it is the earlier safe time that is returned.\<close>

theorem safe_time_with_lease:
  assumes "mvcc_ok m" "is_valid (lease l)" "lo \<le> lease l" "\<not> lease_empty l" "is_valid (lease_time l)"
  shows "(\<exists>r. SafeTime nd lo d l now at m = Inr r) \<and>
    (SafeTime nd lo d l now at m = Inr (Some (m', t)) \<and> t \<noteq> kInvalidHybridTimeValue \<longrightarrow>
       lo \<le> t \<and> safe_time (max_with_lease m) \<le> t \<and> last_replicated m \<le> t \<and> (\<forall>q\<in>set (queue m). t < q) \<and>
       t \<le> max (lease l) (max (safe_time (max_with_lease m)) (last_replicated m))) \<and>
    (queue m = [] \<and> lease l < safe_time (max_with_lease m) \<and> last_replicated m \<le> safe_time (max_with_lease m) \<longrightarrow>
       (\<exists>m''. SafeTime nd lo d l now at m = Inr (Some (m'', safe_time (max_with_lease m)))))"
proof -
  let ?r = "safe_time_candidate l now m" let ?w = "safe_time (max_with_lease m)"
  have front: "?w \<le> Decremented (hd (queue m))" if "queue m \<noteq> []"
    using Decremented_less [of ?w "hd (queue m)"] assms(1) that by (auto simp: mvcc_ok_def read_bound_def served_def)
  let ?a = "if queue m = [] then max ?w (lease_time l) else Decremented (hd (queue m))"
  have c: "safe_time ?r = max (min ?a (max (lease l) ?w)) (last_replicated m)"
  proof -
    define u where "u = max (lease l) ?w"
    define a where "a = ?a"
    have "safe_time ?r = max (if u < a then u else a) (last_replicated m)"
      using assms(4,5) unfolding safe_time_candidate_def Let_def u_def [symmetric]
      by (cases "queue m = []") (simp_all add: a_def split: prod.split)
    then show ?thesis unfolding u_def [symmetric] a_def [symmetric] by (simp add: min_def not_less leD)
  qed
  have "?w \<le> ?a" using front by simp
  then have w: "?w \<le> safe_time ?r" unfolding c by (intro max.coboundedI1 min.boundedI max.cobounded2)
  have u: "safe_time ?r \<le> max (lease l) (max ?w (last_replicated m))"
    unfolding c max.assoc [symmetric] by (intro max.mono min.cobounded2 order_refl)
  have r: "DoGetSafeTime nd lo d l now at m =
      (if lo \<le> safe_time ?r then Inr (Some (m\<lparr>max_with_lease := ?r\<rparr>, safe_time ?r))
       else Inr (if timed_out d at then Some (m, kInvalidHybridTimeValue) else None))"
    using assms w by (auto simp: DoGetSafeTime_def Let_def not_less)
  then have "\<exists>r. SafeTime nd lo d l now at m = Inr r" by (simp add: SafeTime_def split: if_splits)
  moreover have "t = safe_time ?r \<and> lo \<le> t" if "SafeTime nd lo d l now at m = Inr (Some (m', t))" "t \<noteq> kInvalidHybridTimeValue"
    using that r by (auto simp: SafeTime_def split: if_splits)
  moreover have "\<exists>m''. SafeTime nd lo d l now at m = Inr (Some (m'', ?w))"
    if "queue m = []" "lease l < ?w" "last_replicated m \<le> ?w"
  proof -
    have "safe_time ?r = ?w" unfolding c using that by simp
    moreover have "lo \<le> ?w" using assms(3) that(2) by simp
    ultimately show ?thesis using r assms(4) by (auto simp: SafeTime_def)
  qed
  ultimately show ?thesis using w u candidate_bounds(1,2) [OF assms(1), of l now] by blast
qed

theorem safe_time_with_lease_witness:
  "(\<exists>r. SafeTime False 5 None sample_lease 0 0 ((MvccManager 0)\<lparr>queue := [10]\<rparr>) = Inr r) \<and>
   (\<exists>m. SafeTime False 5 None \<lparr>lease_time = 10, lease = 12\<rparr> 0 0
      ((MvccManager 0)\<lparr>last_replicated := 5, max_with_lease := \<lparr>safe_time = 15, source = kNow\<rparr>\<rparr>) = Inr (Some (m, 15)))"
proof
  have "mvcc_ok ((MvccManager 0)\<lparr>queue := [10]\<rparr>)"
    by (simp add: mvcc_ok_def MvccManager_def read_bound_def served_def no_safe_time_def ht_consts)
  then show "\<exists>r. SafeTime False 5 None sample_lease 0 0 ((MvccManager 0)\<lparr>queue := [10]\<rparr>) = Inr r"
    using safe_time_with_lease [of "(MvccManager 0)\<lparr>queue := [10]\<rparr>" sample_lease 5 False None 0 0] by (simp add: mvcc_eval)
  let ?m = "(MvccManager 0)\<lparr>last_replicated := 5, max_with_lease := \<lparr>safe_time = 15, source = kNow\<rparr>\<rparr>"
  have "mvcc_ok ?m" by (simp add: mvcc_ok_def MvccManager_def)
  moreover have "queue ?m = []" "safe_time (max_with_lease ?m) = 15" "last_replicated ?m = 5" by (simp_all add: MvccManager_def)
  moreover have "is_valid 12" "is_valid 10" "\<not> lease_empty \<lparr>lease_time = 10, lease = 12\<rparr>"
    by (simp_all add: is_valid_def ht_consts lease_empty_def GetPhysicalValueMicros_def kMaxHybridTimePhysicalMicros_def)
  ultimately show "\<exists>m. SafeTime False 5 None \<lparr>lease_time = 10, lease = 12\<rparr> 0 0 ?m = Inr (Some (m, 15))"
    using safe_time_with_lease [of ?m "\<lparr>lease_time = 10, lease = 12\<rparr>" 5 False None 0 0] by simp
qed

end
