(* ===== verification/OpIds.thy ===== *)
theory OpIds
  imports Prelude
begin

text \<open>
  Identifiers of log entries, \<^verbatim>\<open>src/yb/util/opid.h\<close>, \<^verbatim>\<open>opid.cc\<close> and \<^verbatim>\<open>src/yb/consensus/opid_util.cc\<close>: a term and an
  index, ordered by term first. The order is made the library's linear order on the type.
\<close>

section \<open>Operations\<close>

datatype op_id = OpId (op_term: int) (op_index: int)

definition OpId_empty :: "op_id \<Rightarrow> bool" where
  "OpId_empty x \<longleftrightarrow> op_term x = 0 \<and> op_index x = 0"

definition OpId_valid :: "op_id \<Rightarrow> bool" where
  "OpId_valid x \<longleftrightarrow> op_term x \<ge> 0 \<and> op_index x \<ge> 0"

instantiation op_id :: linorder
begin

definition less_op_id :: "op_id \<Rightarrow> op_id \<Rightarrow> bool" where
  "less_op_id l r \<longleftrightarrow> op_term l < op_term r \<or> (op_term l = op_term r \<and> op_index l < op_index r)"

definition less_eq_op_id :: "op_id \<Rightarrow> op_id \<Rightarrow> bool" where
  "less_eq_op_id l r \<longleftrightarrow> \<not> r < (l :: op_id)"

instance
  by standard (auto simp: less_op_id_def less_eq_op_id_def op_id.expand)

end

definition OpId_MakeAtLeast :: "op_id \<Rightarrow> op_id \<Rightarrow> op_id" where
  "OpId_MakeAtLeast rhs x =
     (if OpId_empty rhs then x
      else if OpId_empty x then rhs
      else if op_term rhs > op_term x \<or> (op_term rhs = op_term x \<and> op_index rhs > op_index x) then rhs else x)"

definition OpId_MakeAtMost :: "op_id \<Rightarrow> op_id \<Rightarrow> op_id" where
  "OpId_MakeAtMost rhs x =
     (if OpId_empty rhs then x
      else if OpId_empty x then rhs
      else if op_term rhs < op_term x \<or> (op_term rhs = op_term x \<and> op_index rhs < op_index x) then rhs else x)"

definition OpIdCompare :: "op_id \<Rightarrow> op_id \<Rightarrow> int" where
  "OpIdCompare x y =
     (if op_term x = op_term y then if op_index x < op_index y then - 1 else if op_index x = op_index y then 0 else 1
      else if op_term x < op_term y then - 1 else 1)"

definition OpIdEquals :: "op_id \<Rightarrow> op_id \<Rightarrow> bool" where
  "OpIdEquals l r \<longleftrightarrow> op_term l = op_term r \<and> op_index l = op_index r"

definition OpIdLessThan :: "op_id \<Rightarrow> op_id \<Rightarrow> bool" where
  "OpIdLessThan l r =
     (if op_term l < op_term r then True else if op_term l > op_term r then False else op_index l < op_index r)"

definition OpIdBiggerThan :: "op_id \<Rightarrow> op_id \<Rightarrow> bool" where
  "OpIdBiggerThan l r =
     (if op_term l > op_term r then True else if op_term l < op_term r then False else op_index l > op_index r)"

text \<open>An uninitialized message is \<^const>\<open>None\<close>; the new target and whether it was copied.\<close>

definition CopyIfOpIdLessThan :: "op_id option \<Rightarrow> op_id option \<Rightarrow> op_id option \<times> bool" where
  "CopyIfOpIdLessThan to_compare target =
     (case to_compare of
        Some x \<Rightarrow> (case target of None \<Rightarrow> (Some x, True)
                  | Some y \<Rightarrow> if OpIdLessThan x y then (Some x, True) else (target, False))
      | None \<Rightarrow> (target, False))"

definition MinimumOpId :: op_id where "MinimumOpId = OpId 0 0"
definition MaximumOpId :: op_id where "MaximumOpId = OpId (2 ^ 63 - 1) (2 ^ 63 - 1)"

section \<open>One order\<close>

named_theorems op_id_order \<open>the comparisons of the code as the order on identifiers\<close>

lemma compare_order [op_id_order]:
  "OpIdLessThan x y \<longleftrightarrow> x < y" "OpIdBiggerThan x y \<longleftrightarrow> y < x" "OpIdEquals x y \<longleftrightarrow> x = y"
  "OpIdCompare x y = (if x < y then - 1 else if x = y then 0 else 1)"
  by (auto simp: OpIdLessThan_def OpIdBiggerThan_def OpIdEquals_def OpIdCompare_def less_op_id_def op_id.expand)

lemma bounds_order [op_id_order]:
  "OpId_MakeAtLeast rhs x = (if OpId_empty rhs then x else if OpId_empty x then rhs else max x rhs)"
  "OpId_MakeAtMost rhs x = (if OpId_empty rhs then x else if OpId_empty x then rhs else min x rhs)"
  by (auto simp: OpId_MakeAtLeast_def OpId_MakeAtMost_def max_def min_def less_op_id_def less_eq_op_id_def op_id.expand)

end
