(* ===== verification/RetryableRequests.thy ===== *)
theory RetryableRequests
  imports OpIds "HOL-Library.AList"
begin

text \<open>
  Retries of writes, \<^verbatim>\<open>src/yb/consensus/retryable_requests.cc\<close>, as compiled for release: per client, the requests that
  are running, and the identifiers of the replicated ones as ranges. The container of ranges is a list in
  the order of the last identifiers; its second index, by operation, gives the order of cleaning and makes an
  insertion fail, and a change erase the range, when the operation is there already. Times are integers, and 0 is
  the unset one. Gauges and the rendering of the state are left out. Identifiers are integers that do not wrap: the code
  adds up to two to a 64-bit one, which is undefined at the maximum.
\<close>

section \<open>State\<close>

record write_request =
  client_id1 :: uint64
  client_id2 :: uint64
  request_id :: int
  wr_min_running_request_id :: int

record replicate_msg =
  msg_id :: op_id
  write_request :: "write_request option"

record consensus_round =
  round_number :: nat
  round_msg :: replicate_msg

type_synonym client_id = "uint64 \<times> uint64"

record running_request =
  running_id :: int
  running_op_id :: op_id
  running_time :: int
  duplicate_rounds :: "consensus_round list"

record replicated_range =
  first_id :: int
  last_id :: int
  min_op_id :: op_id
  min_time :: int
  max_time :: int

record client_requests =
  running_requests :: "running_request list"
  replicated :: "replicated_range list"
  min_running_request_id :: int
  empty_since :: int

type_synonym retryable_requests = "(client_id \<times> client_requests) list"

definition new_client :: client_requests where
  "new_client = \<lparr>running_requests = [], replicated = [], min_running_request_id = 0, empty_since = 0\<rparr>"

definition client_of :: "client_id \<Rightarrow> retryable_requests \<Rightarrow> client_requests" where
  "client_of k s = (case map_of s k of None \<Rightarrow> new_client | Some c \<Rightarrow> c)"

definition FromMsg :: "replicate_msg \<Rightarrow> (client_id \<times> write_request \<times> op_id) option" where
  "FromMsg m = (case write_request m of
     None \<Rightarrow> None
   | Some w \<Rightarrow> if (client_id1 w, client_id2 w) = (0, 0) then None else Some ((client_id1 w, client_id2 w), w, msg_id m))"

section \<open>Ranges\<close>

definition new_range :: "int \<Rightarrow> op_id \<Rightarrow> int \<Rightarrow> replicated_range" where
  "new_range i op t = \<lparr>first_id = i, last_id = i, min_op_id = op, min_time = t, max_time = t\<rparr>"

definition InsertTime :: "int \<Rightarrow> replicated_range \<Rightarrow> replicated_range" where
  "InsertTime t r = r\<lparr>min_time := min (min_time r) t, max_time := max (max_time r) t\<rparr>"

definition PrepareJoinWithPrev :: "replicated_range \<Rightarrow> replicated_range \<Rightarrow> replicated_range" where
  "PrepareJoinWithPrev prev r =
     r\<lparr>min_time := min (min_time r) (min_time prev), max_time := max (max_time r) (max_time prev), first_id := first_id prev\<rparr>"

text \<open>The list is split where \<open>lower_bound\<close> points: \<open>pre\<close> ends below the identifier, \<open>r # post\<close> does not.\<close>

definition below :: "int \<Rightarrow> replicated_range \<Rightarrow> bool" where
  "below i r \<longleftrightarrow> last_id r < i"

definition UpdateMinOpId :: "replicated_range list \<Rightarrow> replicated_range \<Rightarrow> replicated_range list \<Rightarrow> op_id \<Rightarrow> replicated_range list" where
  "UpdateMinOpId pre r post op =
     (if op < min_op_id r
      then if op \<in> min_op_id ` set (pre @ post) then pre @ post else pre @ r\<lparr>min_op_id := op\<rparr> # post
      else pre @ r # post)"

definition TryJoinRanges ::
  "int \<Rightarrow> replicated_range list \<Rightarrow> replicated_range \<Rightarrow> replicated_range list \<Rightarrow> op_id \<Rightarrow> replicated_range list option" where
  "TryJoinRanges limit pre r post op =
     (if pre = [] then None
      else let prev = last pre in
        if last_id prev + 2 \<noteq> first_id r then None
        else if max_time r > min_time prev + limit then None
        else Some (UpdateMinOpId (butlast pre) (PrepareJoinWithPrev prev r) post (min op (min_op_id prev))))"

definition TryJoinToEndOfRange ::
  "int \<Rightarrow> replicated_range list \<Rightarrow> replicated_range list \<Rightarrow> op_id \<Rightarrow> int \<Rightarrow> int \<Rightarrow> replicated_range list option" where
  "TryJoinToEndOfRange limit pre post op i t =
     (if pre = [] then None
      else let r = last pre in
        if last_id r + 1 \<noteq> i then None
        else if t > min_time r + limit then None
        else let op = min (min_op_id r) op; r = InsertTime t r; r = r\<lparr>last_id := last_id r + 1\<rparr>
             in Some (UpdateMinOpId (butlast pre) r post op))"

definition found :: "int \<Rightarrow> replicated_range list \<Rightarrow> bool" where
  "found i rs = (case dropWhile (below i) rs of [] \<Rightarrow> False | r # _ \<Rightarrow> first_id r \<le> i)"

definition AddReplicated :: "int \<Rightarrow> op_id \<Rightarrow> int \<Rightarrow> int \<Rightarrow> replicated_range list \<Rightarrow> replicated_range list" where
  "AddReplicated limit op i t rs =
     (let pre = takeWhile (below i) rs; post = dropWhile (below i) rs in
      if found i rs then rs
      else if post \<noteq> [] \<and> first_id (hd post) = i + 1
      then let op = min (min_op_id (hd post)) op; r = InsertTime t (hd post) in
           (case TryJoinRanges limit pre r (tl post) op of
              Some rs' \<Rightarrow> rs'
            | None \<Rightarrow> UpdateMinOpId pre (r\<lparr>first_id := first_id r - 1\<rparr>) (tl post) op)
      else (case TryJoinToEndOfRange limit pre post op i t of
              Some rs' \<Rightarrow> rs'
            | None \<Rightarrow> if op \<in> min_op_id ` set rs then rs else pre @ new_range i op t # post))"

definition CleanupReplicatedRequests :: "int \<Rightarrow> client_requests \<Rightarrow> client_requests" where
  "CleanupReplicatedRequests new_min c =
     (if new_min > min_running_request_id c
      then let rest = (case dropWhile (below new_min) (replicated c) of
                         [] \<Rightarrow> []
                       | r # rs \<Rightarrow> (if first_id r < new_min then r\<lparr>first_id := new_min\<rparr> else r) # rs)
           in c\<lparr>replicated := rest, min_running_request_id := new_min\<rparr>
      else c)"

section \<open>Operations\<close>

definition add_duplicate :: "consensus_round \<Rightarrow> running_request \<Rightarrow> client_requests \<Rightarrow> client_requests" where
  "add_duplicate round q c = c\<lparr>running_requests :=
     map (\<lambda>p. if running_id p = running_id q then p\<lparr>duplicate_rounds := duplicate_rounds p @ [round]\<rparr> else p) (running_requests c)\<rparr>"

text \<open>The running request that prevents an insertion: the one with this identifier, else with this operation.\<close>

definition blocking :: "int \<Rightarrow> op_id \<Rightarrow> client_requests \<Rightarrow> running_request option" where
  "blocking i op c = (case find (\<lambda>q. running_id q = i) (running_requests c) of
     Some q \<Rightarrow> Some q | None \<Rightarrow> find (\<lambda>q. running_op_id q = op) (running_requests c))"

text \<open>The rounds that are notified, with their status, and whether the request is to be replicated.\<close>

definition Register :: "int \<Rightarrow> consensus_round \<Rightarrow> int \<Rightarrow> retryable_requests \<Rightarrow>
  retryable_requests \<times> (consensus_round \<times> status) list \<times> bool" where
  "Register now round entry_time s =
     (case FromMsg (round_msg round) of
        None \<Rightarrow> (s, [], True)
      | Some (k, w, op) \<Rightarrow>
          let entry_time = (if entry_time = 0 then now else entry_time);
              c = CleanupReplicatedRequests (wr_min_running_request_id w) (client_of k s);
              i = request_id w
          in if i < min_running_request_id c then (AList.update k c s, [(round, Expired)], False)
             else if found i (replicated c) then (AList.update k c s, [(round, AlreadyPresent)], False)
             else case blocking i op c of
               Some q \<Rightarrow> (AList.update k (add_duplicate round q c) s, [], False)
             | None \<Rightarrow>
                 let q = \<lparr>running_id = i, running_op_id = op, running_time = entry_time, duplicate_rounds = []\<rparr>
                 in (AList.update k (c\<lparr>running_requests := q # running_requests c\<rparr>) s, [], True))"

text \<open>One client of \<open>CleanExpiredReplicatedAndGetMinOpId\<close>: its first remaining operation, and what is left of it.\<close>

definition clean_client :: "int \<Rightarrow> int \<Rightarrow> client_requests \<Rightarrow> op_id option \<times> client_requests option" where
  "clean_client now clean_start c =
     (let kept = dropWhile (\<lambda>r. max_time r < clean_start) (sort_key min_op_id (replicated c));
          c = c\<lparr>replicated := filter (\<lambda>r. r \<in> set kept) (replicated c)\<rparr>
      in (case kept of [] \<Rightarrow> None | r # _ \<Rightarrow> Some (min_op_id r),
          if replicated c = [] \<and> running_requests c = []
          then if empty_since c = 0 then Some (c\<lparr>empty_since := now\<rparr>)
               else if empty_since c < clean_start then None else Some c
          else Some c))"

fun clean_clients :: "int \<Rightarrow> int \<Rightarrow> retryable_requests \<Rightarrow> op_id \<Rightarrow> retryable_requests \<times> op_id" where
  "clean_clients now clean_start [] res = ([], res)"
| "clean_clients now clean_start ((k, c) # s) res =
     (case clean_client now clean_start c of (op, c') \<Rightarrow>
        case clean_clients now clean_start s (case op of None \<Rightarrow> res | Some x \<Rightarrow> min res x) of (s', res') \<Rightarrow>
          ((case c' of None \<Rightarrow> s' | Some c \<Rightarrow> (k, c) # s'), res'))"

definition CleanExpiredReplicatedAndGetMinOpId :: "int \<Rightarrow> int \<Rightarrow> retryable_requests \<Rightarrow> retryable_requests \<times> op_id" where
  "CleanExpiredReplicatedAndGetMinOpId now timeout s = clean_clients now (now - timeout) s MaximumOpId"

text \<open>\<open>err\<close> is the status of the replication, where it failed.\<close>

definition ReplicationFinished :: "int \<Rightarrow> replicate_msg \<Rightarrow> status option \<Rightarrow> retryable_requests \<Rightarrow>
  retryable_requests \<times> (consensus_round \<times> status) list" where
  "ReplicationFinished limit msg err s =
     (case FromMsg msg of
        None \<Rightarrow> (s, [])
      | Some (k, w, op) \<Rightarrow>
          let c = client_of k s in
          case find (\<lambda>q. running_id q = request_id w) (running_requests c) of
            None \<Rightarrow> (AList.update k c s, [])
          | Some q \<Rightarrow>
              let notes = map (\<lambda>d. (d, case err of None \<Rightarrow> AlreadyPresent | Some e \<Rightarrow> e)) (duplicate_rounds q);
                  c = c\<lparr>running_requests := remove1 q (running_requests c)\<rparr>;
                  c = (if err = None then c\<lparr>replicated := AddReplicated limit op (request_id w) (running_time q) (replicated c)\<rparr> else c)
              in (AList.update k c s, notes))"

definition Bootstrap :: "int \<Rightarrow> replicate_msg \<Rightarrow> int \<Rightarrow> retryable_requests \<Rightarrow> retryable_requests" where
  "Bootstrap limit msg entry_time s =
     (case FromMsg msg of
        None \<Rightarrow> s
      | Some (k, w, op) \<Rightarrow>
          let c = client_of k s in
          if \<exists>q\<in>set (running_requests c). running_id q = request_id w then AList.update k c s
          else let c = CleanupReplicatedRequests (wr_min_running_request_id w) c
               in AList.update k (c\<lparr>replicated := AddReplicated limit op (request_id w) entry_time (replicated c)\<rparr>) s)"

definition MinRunningRequestId :: "client_id \<Rightarrow> retryable_requests \<Rightarrow> int result" where
  "MinRunningRequestId k s = (case map_of s k of None \<Rightarrow> Inl NotFound | Some c \<Rightarrow> Inr (min_running_request_id c))"

section \<open>Ranges as a set of identifiers\<close>

definition ids :: "replicated_range list \<Rightarrow> int set" where
  "ids rs = (\<Union>r\<in>set rs. {first_id r..last_id r})"

definition ranges_ok :: "replicated_range list \<Rightarrow> bool" where
  "ranges_ok rs \<longleftrightarrow> sorted_wrt (\<lambda>a b. last_id a < first_id b) rs \<and> (\<forall>r\<in>set rs. first_id r \<le> last_id r) \<and>
     distinct (map min_op_id rs)"

text \<open>The request was replicated with a time not above that of its range.\<close>

definition covered :: "int \<Rightarrow> int \<Rightarrow> replicated_range list \<Rightarrow> bool" where
  "covered i t rs \<longleftrightarrow> (\<exists>r\<in>set rs. first_id r \<le> i \<and> i \<le> last_id r \<and> t \<le> max_time r)"

lemma ids_simps [simp]:
  "ids [] = {}" "ids (r # rs) = {first_id r..last_id r} \<union> ids rs" "ids (rs @ rs') = ids rs \<union> ids rs'"
  by (auto simp: ids_def)

lemma covered_simps [simp]:
  "covered i t (r # rs) \<longleftrightarrow> first_id r \<le> i \<and> i \<le> last_id r \<and> t \<le> max_time r \<or> covered i t rs"
  "covered i t (rs @ rs') \<longleftrightarrow> covered i t rs \<or> covered i t rs'" "\<not> covered i t []"
  by (auto simp: covered_def)

lemma covered_ids: "covered i t rs \<Longrightarrow> i \<in> ids rs"
  by (auto simp: covered_def ids_def)

lemma ranges_ok_Nil [simp]: "ranges_ok []"
  by (simp add: ranges_ok_def)

lemma ranges_ok_app: "ranges_ok (pre @ r # post) \<longleftrightarrow>
    ranges_ok (pre @ post) \<and> (\<forall>p\<in>set pre. last_id p < first_id r) \<and> (\<forall>p\<in>set post. last_id r < first_id p) \<and>
    first_id r \<le> last_id r \<and> min_op_id r \<notin> min_op_id ` set (pre @ post)"
  by (auto simp: ranges_ok_def sorted_wrt_append)

lemma split_below:
  assumes "ranges_ok rs" "rs = pre @ post" "pre = takeWhile (below i) rs" "post = dropWhile (below i) rs"
  shows "\<forall>p\<in>set pre. last_id p < i" "\<forall>p\<in>set post. i \<le> last_id p"
proof -
  show "\<forall>p\<in>set pre. last_id p < i" using assms(3) by (auto simp: below_def dest: set_takeWhileD)
  show "\<forall>p\<in>set post. i \<le> last_id p"
  proof (cases post)
    case (Cons r post')
    then have "i \<le> last_id r" using assms(4) hd_dropWhile [of "below i" rs] by (simp add: below_def)
    moreover have "\<forall>p\<in>set post'. last_id r < first_id p \<and> first_id p \<le> last_id p"
      using assms(1,2) Cons by (auto simp: ranges_ok_def sorted_wrt_append)
    ultimately show ?thesis using Cons by fastforce
  qed simp
qed

lemma found_iff:
  assumes "ranges_ok rs"
  shows "found i rs \<longleftrightarrow> i \<in> ids rs"
proof -
  define pre post where "pre = takeWhile (below i) rs" and "post = dropWhile (below i) rs"
  have rs: "rs = pre @ post" by (simp add: pre_def post_def)
  note b = split_below [OF assms rs pre_def post_def]
  have "i \<notin> ids pre" using b(1) by (auto simp: ids_def)
  moreover have "found i rs \<longleftrightarrow> i \<in> ids post"
  proof (cases post)
    case (Cons r post')
    have "\<forall>p\<in>set post'. last_id r < first_id p" using assms rs Cons by (auto simp: ranges_ok_def sorted_wrt_append)
    then have "i \<in> ids post \<longleftrightarrow> first_id r \<le> i" using b(2) Cons by (fastforce simp: ids_def)
    then show ?thesis using Cons by (simp add: found_def flip: post_def)
  qed (simp add: found_def flip: post_def)
  ultimately show ?thesis using rs by simp
qed

lemma UpdateMinOpId_fresh:
  assumes "op \<notin> min_op_id ` set (pre @ post)"
  shows "UpdateMinOpId pre r post op = pre @ r\<lparr>min_op_id := min (min_op_id r) op\<rparr> # post"
  using assms by (auto simp: UpdateMinOpId_def min_def not_less)

lemma last_split:
  assumes "pre \<noteq> []"
  obtains pre' p where "pre = pre' @ [p]" "butlast pre = pre'" "last pre = p"
  using assms append_butlast_last_id by metis

definition adds :: "op_id \<Rightarrow> int \<Rightarrow> int \<Rightarrow> replicated_range list \<Rightarrow> replicated_range list \<Rightarrow> bool" where
  "adds op i t rs rs' \<longleftrightarrow> ranges_ok rs' \<and> ids rs' = insert i (ids rs) \<and>
     min_op_id ` set rs' \<subseteq> insert op (min_op_id ` set rs) \<and> covered i t rs' \<and> (\<forall>x u. covered x u rs \<longrightarrow> covered x u rs')"

lemma min_cases: "min a b = a \<or> min a b = (b :: op_id)"
  by (simp add: min_def)

lemma join_next:
  assumes "ranges_ok (pre @ r # post)" "op \<notin> min_op_id ` set (pre @ r # post)" "first_id r = i + 1"
    "\<forall>p\<in>set pre. last_id p < i"
  shows "adds op i t (pre @ r # post)
    (UpdateMinOpId pre ((InsertTime t r)\<lparr>first_id := first_id r - 1\<rparr>) post (min (min_op_id r) op))"
proof -
  have ok: "ranges_ok (pre @ post)" "\<forall>p\<in>set post. last_id r < first_id p" "first_id r \<le> last_id r"
    "min_op_id r \<notin> min_op_id ` set (pre @ post)"
    using assms(1) ranges_ok_app by auto
  have m: "min (min_op_id r) op \<notin> min_op_id ` set (pre @ post)"
    using min_cases [of "min_op_id r" op] ok(4) assms(2) by auto
  let ?r = "(InsertTime t r)\<lparr>first_id := i, min_op_id := min (min_op_id r) op\<rparr>"
  have u: "UpdateMinOpId pre ((InsertTime t r)\<lparr>first_id := first_id r - 1\<rparr>) post (min (min_op_id r) op) = pre @ ?r # post"
    using UpdateMinOpId_fresh [OF m] assms(3) by (simp add: InsertTime_def)
  have "ranges_ok (pre @ ?r # post)"
    unfolding ranges_ok_app using ok m assms(3,4) by (auto simp: InsertTime_def)
  moreover have "ids (pre @ ?r # post) = insert i (ids (pre @ r # post))"
    using ok(3) assms(3) by (auto simp: InsertTime_def)
  moreover have "min_op_id ` set (pre @ ?r # post) \<subseteq> insert op (min_op_id ` set (pre @ r # post))"
    using min_cases [of "min_op_id r" op] by auto
  ultimately show ?thesis unfolding adds_def u using ok(3) assms(3) by (auto simp: InsertTime_def)
qed

lemma join_ranges:
  assumes "ranges_ok (pre @ p # r # post)" "op \<notin> min_op_id ` set (pre @ p # r # post)" "first_id r = i + 1" "last_id p + 2 = first_id r"
  shows "adds op i t (pre @ p # r # post)
    (UpdateMinOpId pre (PrepareJoinWithPrev p (InsertTime t r)) post (min (min (min_op_id r) op) (min_op_id p)))"
proof -
  have ok: "ranges_ok (pre @ post)" "\<forall>q\<in>set post. last_id r < first_id q" "first_id r \<le> last_id r" "first_id p \<le> last_id p"
    "\<forall>q\<in>set pre. last_id q < first_id p" "min_op_id r \<notin> min_op_id ` set (pre @ post)" "min_op_id p \<notin> min_op_id ` set (pre @ post)"
    using assms(1) ranges_ok_app [of pre p "r # post"] ranges_ok_app [of pre r post] by auto
  let ?m = "min (min (min_op_id r) op) (min_op_id p)"
  have c: "?m = min_op_id r \<or> ?m = op \<or> ?m = min_op_id p" by (simp add: min_def)
  have m: "?m \<notin> min_op_id ` set (pre @ post)" using c ok(6,7) assms(2) by auto
  have le: "min (min_op_id r) ?m = ?m" by (simp add: min.assoc min.left_commute)
  let ?r = "(PrepareJoinWithPrev p (InsertTime t r))\<lparr>min_op_id := ?m\<rparr>"
  have u: "UpdateMinOpId pre (PrepareJoinWithPrev p (InsertTime t r)) post ?m = pre @ ?r # post"
    using UpdateMinOpId_fresh [OF m] le by (simp add: InsertTime_def PrepareJoinWithPrev_def)
  have "ranges_ok (pre @ ?r # post)"
    unfolding ranges_ok_app using ok m assms(3,4) by (auto simp: InsertTime_def PrepareJoinWithPrev_def)
  moreover have "ids (pre @ ?r # post) = insert i (ids (pre @ p # r # post))"
    using ok(3,4) assms(3,4) by (auto simp: InsertTime_def PrepareJoinWithPrev_def)
  moreover have "min_op_id ` set (pre @ ?r # post) \<subseteq> insert op (min_op_id ` set (pre @ p # r # post))"
    using c by auto
  ultimately show ?thesis
    unfolding adds_def u using ok(3,4) assms(3,4) by (auto simp: InsertTime_def PrepareJoinWithPrev_def)
qed

lemma join_end:
  assumes "ranges_ok (pre @ r # post)" "op \<notin> min_op_id ` set (pre @ r # post)" "last_id r + 1 = i"
    "\<forall>p\<in>set post. i < first_id p"
  shows "adds op i t (pre @ r # post)
    (UpdateMinOpId pre ((InsertTime t r)\<lparr>last_id := last_id r + 1\<rparr>) post (min (min_op_id r) op))"
proof -
  have ok: "ranges_ok (pre @ post)" "\<forall>p\<in>set pre. last_id p < first_id r" "first_id r \<le> last_id r"
    "min_op_id r \<notin> min_op_id ` set (pre @ post)"
    using assms(1) ranges_ok_app by auto
  have m: "min (min_op_id r) op \<notin> min_op_id ` set (pre @ post)"
    using min_cases [of "min_op_id r" op] ok(4) assms(2) by auto
  let ?r = "(InsertTime t r)\<lparr>last_id := i, min_op_id := min (min_op_id r) op\<rparr>"
  have u: "UpdateMinOpId pre ((InsertTime t r)\<lparr>last_id := last_id r + 1\<rparr>) post (min (min_op_id r) op) = pre @ ?r # post"
    using UpdateMinOpId_fresh [OF m] assms(3) by (simp add: InsertTime_def)
  have "ranges_ok (pre @ ?r # post)"
    unfolding ranges_ok_app using ok m assms(3,4) by (auto simp: InsertTime_def)
  moreover have "ids (pre @ ?r # post) = insert i (ids (pre @ r # post))"
    using ok(3) assms(3) by (auto simp: InsertTime_def)
  moreover have "min_op_id ` set (pre @ ?r # post) \<subseteq> insert op (min_op_id ` set (pre @ r # post))"
    using min_cases [of "min_op_id r" op] by auto
  ultimately show ?thesis unfolding adds_def u using ok(3) assms(3) by (auto simp: InsertTime_def)
qed

lemma new_range_adds:
  assumes "ranges_ok (pre @ post)" "op \<notin> min_op_id ` set (pre @ post)" "\<forall>p\<in>set pre. last_id p < i" "\<forall>p\<in>set post. i < first_id p"
  shows "adds op i t (pre @ post) (pre @ new_range i op t # post)"
  unfolding adds_def ranges_ok_app using assms by (auto simp: new_range_def)

lemma AddReplicated_adds:
  assumes ok: "ranges_ok rs" and i: "i \<notin> ids rs" and op: "op \<notin> min_op_id ` set rs"
  shows "adds op i t rs (AddReplicated limit op i t rs)"
proof -
  define pre post where "pre = takeWhile (below i) rs" and "post = dropWhile (below i) rs"
  have rs: "rs = pre @ post" by (simp add: pre_def post_def)
  note b = split_below [OF ok rs pre_def post_def]
  have nf: "\<not> found i rs" using found_iff [OF ok] i by simp
  have add: "AddReplicated limit op i t rs =
     (if post \<noteq> [] \<and> first_id (hd post) = i + 1
      then let op = min (min_op_id (hd post)) op; r = InsertTime t (hd post) in
           (case TryJoinRanges limit pre r (tl post) op of
              Some rs' \<Rightarrow> rs'
            | None \<Rightarrow> UpdateMinOpId pre (r\<lparr>first_id := first_id r - 1\<rparr>) (tl post) op)
      else (case TryJoinToEndOfRange limit pre post op i t of
              Some rs' \<Rightarrow> rs'
            | None \<Rightarrow> if op \<in> min_op_id ` set rs then rs else pre @ new_range i op t # post))"
    using nf by (simp add: AddReplicated_def Let_def flip: pre_def post_def)
  have after: "\<forall>p\<in>set post. i < first_id p"
  proof
    fix p assume "p \<in> set post"
    then have "p \<in> set rs" "i \<le> last_id p" using rs b(2) by auto
    then show "i < first_id p" using i by (force simp: ids_def)
  qed
  show ?thesis
  proof (cases "post \<noteq> [] \<and> first_id (hd post) = i + 1")
    case True
    then obtain r post' where p: "post = r # post'" "first_id r = i + 1" by (cases post) auto
    have ins: "first_id (InsertTime t r) = first_id r" "min_op_id (InsertTime t r) = min_op_id r" by (simp_all add: InsertTime_def)
    show ?thesis
    proof (cases "TryJoinRanges limit pre (InsertTime t r) post' (min (min_op_id r) op)")
      case None
      then have "AddReplicated limit op i t rs = UpdateMinOpId pre ((InsertTime t r)\<lparr>first_id := first_id r - 1\<rparr>) post' (min (min_op_id r) op)"
        using add True p ins by (simp add: Let_def)
      then show ?thesis using join_next [of pre r post' op i t] ok op rs p b(1) by simp
    next
      case (Some rs')
      then have "pre \<noteq> []" by (auto simp: TryJoinRanges_def)
      then obtain pre' q where q: "pre = pre' @ [q]" "butlast pre = pre'" "last pre = q" by (rule last_split)
      have "last_id q + 2 = first_id r"
        "rs' = UpdateMinOpId pre' (PrepareJoinWithPrev q (InsertTime t r)) post' (min (min (min_op_id r) op) (min_op_id q))"
        using Some \<open>pre \<noteq> []\<close> q(2,3) ins by (auto simp: TryJoinRanges_def Let_def split: if_splits)
      moreover have "AddReplicated limit op i t rs = rs'" using add True p Some by (simp add: Let_def)
      ultimately show ?thesis using join_ranges [of pre' q r post' op i t] ok op rs p q(1) by simp
    qed
  next
    case False
    show ?thesis
    proof (cases "TryJoinToEndOfRange limit pre post op i t")
      case None
      then have "AddReplicated limit op i t rs = pre @ new_range i op t # post" using add False op by simp
      then show ?thesis using new_range_adds [of pre post op i t] ok op rs b(1) after by simp
    next
      case (Some rs')
      then have "pre \<noteq> []" by (auto simp: TryJoinToEndOfRange_def)
      then obtain pre' q where q: "pre = pre' @ [q]" "butlast pre = pre'" "last pre = q" by (rule last_split)
      have "last_id q + 1 = i"
        "rs' = UpdateMinOpId pre' ((InsertTime t q)\<lparr>last_id := last_id q + 1\<rparr>) post (min (min_op_id q) op)"
        using Some \<open>pre \<noteq> []\<close> q(2,3) by (auto simp: TryJoinToEndOfRange_def Let_def InsertTime_def split: if_splits)
      moreover have "AddReplicated limit op i t rs = rs'" using add False Some by simp
      ultimately show ?thesis using join_end [of pre' q post op i t] ok op rs q(1) after by simp
    qed
  qed
qed

lemma Cleanup_ok:
  fixes m c defines "c' \<equiv> CleanupReplicatedRequests m c"
  assumes ok: "ranges_ok (replicated c)"
  shows "ranges_ok (replicated c')" "ids (replicated c') = {i \<in> ids (replicated c). min_running_request_id c < m \<longrightarrow> m \<le> i}"
    "min_running_request_id c' = max m (min_running_request_id c)" "running_requests c' = running_requests c"
    "min_op_id ` set (replicated c') \<subseteq> min_op_id ` set (replicated c)"
    "\<And>i t. m \<le> i \<Longrightarrow> covered i t (replicated c) \<Longrightarrow> covered i t (replicated c')"
proof -
  define pre post where "pre = takeWhile (below m) (replicated c)" and "post = dropWhile (below m) (replicated c)"
  have rs: "replicated c = pre @ post" by (simp add: pre_def post_def)
  note b = split_below [OF ok rs pre_def post_def]
  show "min_running_request_id c' = max m (min_running_request_id c)" "running_requests c' = running_requests c"
    by (simp_all add: c'_def CleanupReplicatedRequests_def Let_def)
  have "ranges_ok (replicated c') \<and> ids (replicated c') = {i \<in> ids (replicated c). min_running_request_id c < m \<longrightarrow> m \<le> i} \<and>
      min_op_id ` set (replicated c') \<subseteq> min_op_id ` set (replicated c) \<and>
      (\<forall>i t. m \<le> i \<longrightarrow> covered i t (replicated c) \<longrightarrow> covered i t (replicated c'))"
  proof (cases "m > min_running_request_id c")
    case False
    then have "c' = c" by (simp add: c'_def CleanupReplicatedRequests_def)
    then show ?thesis using ok False by auto
  next
    case True
    have pre: "\<forall>i\<in>ids pre. i < m" "\<And>i t. m \<le> i \<Longrightarrow> \<not> covered i t pre" using b(1) by (force simp: ids_def covered_def)+
    show ?thesis
    proof (cases post)
      case Nil
      then have "replicated c' = []" using True by (simp add: c'_def CleanupReplicatedRequests_def Let_def flip: post_def)
      then show ?thesis using rs Nil pre True by auto
    next
      case (Cons r post')
      let ?r = "if first_id r < m then r\<lparr>first_id := m\<rparr> else r"
      have c': "replicated c' = ?r # post'"
        using True Cons by (simp add: c'_def CleanupReplicatedRequests_def Let_def flip: post_def)
      have "ranges_ok (r # post')" using ok rs Cons by (auto simp: ranges_ok_def sorted_wrt_append)
      then have r: "ranges_ok post'" "\<forall>p\<in>set post'. last_id r < first_id p" "first_id r \<le> last_id r"
          "min_op_id r \<notin> min_op_id ` set post'"
        using ranges_ok_app [of "[]" r post'] by auto
      have m: "m \<le> last_id r" using b(2) Cons by simp
      have "ranges_ok (?r # post')" using r m ranges_ok_app [of "[]" ?r post'] by auto
      moreover have post': "\<forall>i\<in>ids post'. m \<le> i" using r(2) m by (force simp: ids_def)
      ultimately show ?thesis using rs Cons pre c' True by (auto split: if_splits)
    qed
  qed
  then show "ranges_ok (replicated c')" "ids (replicated c') = {i \<in> ids (replicated c). min_running_request_id c < m \<longrightarrow> m \<le> i}"
    "min_op_id ` set (replicated c') \<subseteq> min_op_id ` set (replicated c)"
    "\<And>i t. m \<le> i \<Longrightarrow> covered i t (replicated c) \<Longrightarrow> covered i t (replicated c')" by blast+
qed

lemma clean_client_ok:
  assumes "snd (clean_client now clean_start c) = Some c'" "ranges_ok (replicated c)"
  shows "ranges_ok (replicated c')" "set (replicated c') \<subseteq> set (replicated c)" "running_requests c' = running_requests c"
    "min_running_request_id c' = min_running_request_id c"
    "\<And>i t. clean_start \<le> t \<Longrightarrow> covered i t (replicated c) \<Longrightarrow> covered i t (replicated c')"
proof -
  let ?kept = "dropWhile (\<lambda>r. max_time r < clean_start) (sort_key min_op_id (replicated c))"
  have r: "replicated c' = filter (\<lambda>r. r \<in> set ?kept) (replicated c)" "running_requests c' = running_requests c"
    "min_running_request_id c' = min_running_request_id c"
    using assms(1) by (auto simp: clean_client_def Let_def split: if_splits)
  then show "running_requests c' = running_requests c" "min_running_request_id c' = min_running_request_id c" by simp_all
  show "ranges_ok (replicated c')" using assms(2) r(1) by (simp add: ranges_ok_def sorted_wrt_filter distinct_map_filter)
  show "set (replicated c') \<subseteq> set (replicated c)" using r(1) by auto
  fix i t assume t: "clean_start \<le> t" "covered i t (replicated c)"
  then obtain q where q: "q \<in> set (replicated c)" "first_id q \<le> i" "i \<le> last_id q" "t \<le> max_time q" by (auto simp: covered_def)
  have "q \<in> set (takeWhile (\<lambda>r. max_time r < clean_start) (sort_key min_op_id (replicated c))) \<or> q \<in> set ?kept"
    using q(1) by (metis Un_iff set_append set_sort takeWhile_dropWhile_id)
  then have "q \<in> set ?kept" using t(1) q(4) by (auto dest: set_takeWhileD)
  then show "covered i t (replicated c')" using q r(1) by (auto simp: covered_def)
qed

lemma clean_client_none:
  assumes "snd (clean_client now clean_start c) = None" "clean_start \<le> t"
  shows "\<not> covered i t (replicated c)"
proof
  let ?kept = "dropWhile (\<lambda>r. max_time r < clean_start) (sort_key min_op_id (replicated c))"
  assume "covered i t (replicated c)"
  then obtain q where q: "q \<in> set (replicated c)" "t \<le> max_time q" by (auto simp: covered_def)
  have "q \<in> set (takeWhile (\<lambda>r. max_time r < clean_start) (sort_key min_op_id (replicated c))) \<or> q \<in> set ?kept"
    using q(1) by (metis Un_iff set_append set_sort takeWhile_dropWhile_id)
  then have "q \<in> set ?kept" using assms(2) q(2) by (auto dest: set_takeWhileD)
  then have "filter (\<lambda>r. r \<in> set ?kept) (replicated c) \<noteq> []" using q(1) by (auto simp: filter_empty_conv)
  then show False using assms(1) by (auto simp: clean_client_def Let_def split: if_splits)
qed

lemma clean_clients_map:
  "clean_clients now st s res = (s', res') \<Longrightarrow> distinct (map fst s) \<Longrightarrow>
   distinct (map fst s') \<and> set (map fst s') \<subseteq> set (map fst s) \<and>
   map_of s' k = (case map_of s k of None \<Rightarrow> None | Some c \<Rightarrow> snd (clean_client now st c))"
proof (induction now st s res arbitrary: s' res' rule: clean_clients.induct)
  case (2 now st k' c s res)
  obtain op c' where c: "clean_client now st c = (op, c')" by (meson surj_pair)
  obtain s1 res1 where s1: "clean_clients now st s (case op of None \<Rightarrow> res | Some x \<Rightarrow> min res x) = (s1, res1)" by (meson surj_pair)
  have s': "s' = (case c' of None \<Rightarrow> s1 | Some c \<Rightarrow> (k', c) # s1)" using 2(2) c s1 by simp
  have "distinct (map fst s1) \<and> set (map fst s1) \<subseteq> set (map fst s) \<and>
      map_of s1 k = (case map_of s k of None \<Rightarrow> None | Some c \<Rightarrow> snd (clean_client now st c))"
    using 2(1) [OF c [symmetric]] s1 2(3) by simp
  moreover have "map_of s k' = None" using 2(3) by (simp add: map_of_eq_None_iff)
  ultimately show ?case using s' c 2(3) by (cases c') (auto split: option.splits)
qed simp

section \<open>Runs\<close>

text \<open>
  What happened so far: the requests replicated, with their times; the lowest identifiers that the clients declared as still
  running; the operations of replicated requests; and the times before which ranges were cleaned. Operations that
  are replicated have different identifiers, and a log that is replayed has each request once.
\<close>

record history =
  finished :: "(client_id \<times> int \<times> int) set"
  declared :: "client_id \<Rightarrow> int"
  used_ops :: "op_id set"
  clean_starts :: "int set"

definition declare_min :: "client_id \<Rightarrow> write_request \<Rightarrow> history \<Rightarrow> history" where
  "declare_min k w h = h\<lparr>declared := (declared h)(k := max (wr_min_running_request_id w) (declared h k))\<rparr>"

definition finish :: "client_id \<Rightarrow> int \<Rightarrow> int \<Rightarrow> op_id \<Rightarrow> history \<Rightarrow> history" where
  "finish k i t op h = h\<lparr>finished := insert (k, i, t) (finished h), used_ops := insert op (used_ops h)\<rparr>"

text \<open>
  The runs. That the replication of a request that is not running succeeds, which the code reports as an error and
  ignores, is not a step: the callers finish only what they registered.
\<close>

inductive retry_reachable :: "int \<Rightarrow> retryable_requests \<Rightarrow> history \<Rightarrow> bool" for limit where
  start: "retry_reachable limit [] \<lparr>finished = {}, declared = \<lambda>_. 0, used_ops = {}, clean_starts = {}\<rparr>"
| register: "retry_reachable limit s h \<Longrightarrow> FromMsg (round_msg round) = Some (k, w, op) \<Longrightarrow>
    Register now round t s = (s', notes, fresh) \<Longrightarrow> retry_reachable limit s' (declare_min k w h)"
| replicated: "retry_reachable limit s h \<Longrightarrow> FromMsg msg = Some (k, w, op) \<Longrightarrow> op \<notin> used_ops h \<Longrightarrow>
    find (\<lambda>q. running_id q = request_id w) (running_requests (client_of k s)) = Some q \<Longrightarrow>
    ReplicationFinished limit msg None s = (s', notes) \<Longrightarrow>
    retry_reachable limit s' (finish k (request_id w) (running_time q) op h)"
| failed: "retry_reachable limit s h \<Longrightarrow> ReplicationFinished limit msg (Some err) s = (s', notes) \<Longrightarrow> retry_reachable limit s' h"
| replay: "retry_reachable limit s h \<Longrightarrow> FromMsg msg = Some (k, w, op) \<Longrightarrow> op \<notin> used_ops h \<Longrightarrow>
    \<forall>t. (k, request_id w, t) \<notin> finished h \<Longrightarrow> \<forall>q\<in>set (running_requests (client_of k s)). running_id q \<noteq> request_id w \<Longrightarrow>
    retry_reachable limit (Bootstrap limit msg t s) (declare_min k w (finish k (request_id w) t op h))"
| clean: "retry_reachable limit s h \<Longrightarrow> CleanExpiredReplicatedAndGetMinOpId now timeout s = (s', op) \<Longrightarrow>
    retry_reachable limit s' (h\<lparr>clean_starts := insert (now - timeout) (clean_starts h)\<rparr>)"

definition client_ok :: "history \<Rightarrow> client_id \<Rightarrow> client_requests \<Rightarrow> bool" where
  "client_ok h k c \<longleftrightarrow>
     ranges_ok (replicated c) \<and> min_op_id ` set (replicated c) \<subseteq> used_ops h \<and>
     distinct (map running_id (running_requests c)) \<and> (\<forall>q\<in>set (running_requests c). running_id q \<notin> ids (replicated c)) \<and>
     min_running_request_id c \<le> declared h k \<and> 0 \<le> declared h k \<and>
     (\<forall>i\<in>ids (replicated c). \<exists>t. (k, i, t) \<in> finished h) \<and>
     (\<forall>i t. (k, i, t) \<in> finished h \<longrightarrow> declared h k \<le> i \<longrightarrow> (\<forall>x\<in>clean_starts h. x \<le> t) \<longrightarrow> covered i t (replicated c))"

definition retry_ok :: "retryable_requests \<Rightarrow> history \<Rightarrow> bool" where
  "retry_ok s h \<longleftrightarrow> distinct (map fst s) \<and> (\<forall>k. client_ok h k (client_of k s))"

lemma client_of_update [simp]: "client_of k (AList.update k' c s) = (if k = k' then c else client_of k s)"
  by (simp add: client_of_def update_conv')

lemma retry_update:
  assumes "retry_ok s h" "client_ok h' k c" "\<And>k' c'. k' \<noteq> k \<Longrightarrow> client_ok h k' c' \<Longrightarrow> client_ok h' k' c'"
  shows "retry_ok (AList.update k c s) h'"
  using assms by (simp add: retry_ok_def distinct_update)

lemma cleanup_client:
  assumes "client_ok h k c"
  shows "client_ok (declare_min k w h) k (CleanupReplicatedRequests (wr_min_running_request_id w) c)"
proof -
  have r: "ranges_ok (replicated c)" using assms by (simp add: client_ok_def)
  note cl = Cleanup_ok [OF r, of "wr_min_running_request_id w"]
  show ?thesis
    using assms cl(1,2,3,4,5) cl(6) unfolding client_ok_def declare_min_def by fastforce
qed

lemma declare_other: "k' \<noteq> k \<Longrightarrow> client_ok h k' c \<Longrightarrow> client_ok (declare_min k w h) k' c"
  by (simp add: client_ok_def declare_min_def)

lemma finish_other: "k' \<noteq> k \<Longrightarrow> client_ok h k' c \<Longrightarrow> client_ok (finish k i t op h) k' c"
  by (auto simp: client_ok_def finish_def)

lemma running_client:
  assumes "client_ok h k c" "distinct (map running_id qs)" "running_id ` set qs \<inter> ids (replicated c) = {}"
  shows "client_ok h k (c\<lparr>running_requests := qs\<rparr>)"
  using assms by (auto simp: client_ok_def)

lemma finish_client:
  assumes "client_ok h k c" "op \<notin> used_ops h" "i \<notin> ids (replicated c)" "i \<notin> running_id ` set (running_requests c)"
  shows "client_ok (finish k i t op h) k (c\<lparr>replicated := AddReplicated limit op i t (replicated c)\<rparr>)"
proof -
  have r: "ranges_ok (replicated c)" "op \<notin> min_op_id ` set (replicated c)" using assms(1,2) by (auto simp: client_ok_def)
  have a: "adds op i t (replicated c) (AddReplicated limit op i t (replicated c))" by (rule AddReplicated_adds [OF r(1) assms(3) r(2)])
  then have "min_op_id ` set (AddReplicated limit op i t (replicated c)) \<subseteq> insert op (min_op_id ` set (replicated c))"
    by (simp add: adds_def)
  moreover have "min_op_id ` set (replicated c) \<subseteq> used_ops h" using assms(1) by (simp add: client_ok_def)
  ultimately have u: "min_op_id ` set (AddReplicated limit op i t (replicated c)) \<subseteq> used_ops (finish k i t op h)"
    by (auto simp: finish_def)
  have "covered x y (AddReplicated limit op i t (replicated c))"
    if "(k, x, y) \<in> finished (finish k i t op h)" "declared h k \<le> x" "\<forall>z\<in>clean_starts h. z \<le> y" for x y
    using that a assms(1) by (auto simp: adds_def client_ok_def finish_def)
  moreover have "\<exists>y. (k, x, y) \<in> finished (finish k i t op h)" if "x \<in> ids (AddReplicated limit op i t (replicated c))" for x
    using that a assms(1) by (auto simp: adds_def client_ok_def finish_def)
  moreover have "declared (finish k i t op h) = declared h" "clean_starts (finish k i t op h) = clean_starts h"
    by (simp_all add: finish_def)
  moreover have "\<forall>q\<in>set (running_requests c). running_id q \<noteq> i" using assms(4) by auto
  ultimately show ?thesis using assms(1) a u unfolding client_ok_def adds_def by simp
qed

lemma register_ok:
  assumes ok: "retry_ok s h" and m: "FromMsg (round_msg round) = Some (k, w, op)" and r: "Register now round t s = (s', notes, fresh)"
  shows "retry_ok s' (declare_min k w h)"
proof -
  let ?c = "CleanupReplicatedRequests (wr_min_running_request_id w) (client_of k s)"
  have c: "client_ok (declare_min k w h) k ?c" by (rule cleanup_client) (use ok in \<open>unfold retry_ok_def, blast\<close>)
  have up: "retry_ok (AList.update k c' s) (declare_min k w h)" if "client_ok (declare_min k w h) k c'" for c'
    by (rule retry_update [OF ok that declare_other])
  have dup: "client_ok (declare_min k w h) k (add_duplicate round q ?c)" for q
    unfolding add_duplicate_def by (rule running_client [OF c]) (use c in \<open>auto simp: client_ok_def o_def if_distrib cong: if_cong\<close>)
  have new: "client_ok (declare_min k w h) k (?c\<lparr>running_requests := q # running_requests ?c\<rparr>)"
    if "\<not> found (request_id w) (replicated ?c)" "blocking (request_id w) op ?c = None" "running_id q = request_id w" for q
  proof (rule running_client [OF c])
    have "ranges_ok (replicated ?c)" using c by (simp add: client_ok_def)
    then have "request_id w \<notin> ids (replicated ?c)" using found_iff that(1) by blast
    then show "running_id ` set (q # running_requests ?c) \<inter> ids (replicated ?c) = {}"
      using c that(3) by (auto simp: client_ok_def)
    show "distinct (map running_id (q # running_requests ?c))"
      using c that(2,3) by (auto simp: client_ok_def blocking_def find_None_iff split: option.splits)
  qed
  show ?thesis
    using r m up [OF c] up [OF dup] up [OF new] by (auto simp: Register_def Let_def split: if_splits option.splits)
qed

lemma find_running:
  assumes "client_ok h k c" "find (\<lambda>q. running_id q = i) (running_requests c) = Some q"
  shows "i \<notin> ids (replicated c)" "client_ok h k (c\<lparr>running_requests := remove1 q (running_requests c)\<rparr>)"
    "i \<notin> running_id ` set (remove1 q (running_requests c))"
proof -
  have q: "q \<in> set (running_requests c)" "running_id q = i" using assms(2) by (auto simp: find_Some_iff)
  then show "i \<notin> ids (replicated c)" using assms(1) by (auto simp: client_ok_def)
  have d: "distinct (map running_id (running_requests c))" using assms(1) by (simp add: client_ok_def)
  then have "distinct (running_requests c)" by (simp add: distinct_map)
  then have s: "set (remove1 q (running_requests c)) = set (running_requests c) - {q}" by simp
  show "i \<notin> running_id ` set (remove1 q (running_requests c))"
    using d q s by (auto simp: distinct_map inj_on_def)
  have "distinct (map running_id (remove1 q (running_requests c)))"
    using d by (simp add: distinct_map distinct_remove1 s inj_on_diff)
  then show "client_ok h k (c\<lparr>running_requests := remove1 q (running_requests c)\<rparr>)"
    by (intro running_client [OF assms(1)]) (use assms(1) s in \<open>auto simp: client_ok_def\<close>)
qed

lemma retry_client: "retry_ok s h \<Longrightarrow> client_ok h k (client_of k s)"
  unfolding retry_ok_def by blast

lemma replicated_ok:
  assumes ok: "retry_ok s h" and m: "FromMsg msg = Some (k, w, op)" "op \<notin> used_ops h"
    and q: "find (\<lambda>q. running_id q = request_id w) (running_requests (client_of k s)) = Some q"
    and r: "ReplicationFinished limit msg None s = (s', notes)"
  shows "retry_ok s' (finish k (request_id w) (running_time q) op h)"
proof -
  note f = find_running [OF retry_client [OF ok] q]
  let ?c = "(client_of k s)\<lparr>running_requests := remove1 q (running_requests (client_of k s))\<rparr>"
  have c: "client_ok (finish k (request_id w) (running_time q) op h) k
      (?c\<lparr>replicated := AddReplicated limit op (request_id w) (running_time q) (replicated ?c)\<rparr>)"
    by (rule finish_client [OF f(2) m(2)]) (use f(1,3) in simp_all)
  have "s' = AList.update k (?c\<lparr>replicated := AddReplicated limit op (request_id w) (running_time q) (replicated ?c)\<rparr>) s"
    using r m(1) q by (simp add: ReplicationFinished_def Let_def)
  then show ?thesis using retry_update [OF ok c finish_other] by simp
qed

lemma failed_ok:
  assumes ok: "retry_ok s h" and r: "ReplicationFinished limit msg (Some err) s = (s', notes)"
  shows "retry_ok s' h"
proof (cases "FromMsg msg")
  case (Some x)
  then obtain k w op where m: "FromMsg msg = Some (k, w, op)" by (cases x) auto
  show ?thesis
  proof (cases "find (\<lambda>q. running_id q = request_id w) (running_requests (client_of k s))")
    case None
    then have "s' = AList.update k (client_of k s) s" using r m by (simp add: ReplicationFinished_def Let_def)
    then show ?thesis using retry_update [OF ok retry_client [OF ok]] by simp
  next
    case (Some q)
    then have "s' = AList.update k ((client_of k s)\<lparr>running_requests := remove1 q (running_requests (client_of k s))\<rparr>) s"
      using r m by (simp add: ReplicationFinished_def Let_def)
    then show ?thesis using retry_update [OF ok find_running(2) [OF retry_client [OF ok] Some]] by simp
  qed
qed (use ok r in \<open>simp add: ReplicationFinished_def\<close>)

lemma replay_ok:
  assumes ok: "retry_ok s h" and m: "FromMsg msg = Some (k, w, op)" "op \<notin> used_ops h"
    and n: "\<forall>t. (k, request_id w, t) \<notin> finished h" "\<forall>q\<in>set (running_requests (client_of k s)). running_id q \<noteq> request_id w"
  shows "retry_ok (Bootstrap limit msg t s) (declare_min k w (finish k (request_id w) t op h))"
proof -
  let ?c = "CleanupReplicatedRequests (wr_min_running_request_id w) (client_of k s)"
  have c: "client_ok (declare_min k w h) k ?c" by (rule cleanup_client [OF retry_client [OF ok]])
  have run: "running_requests ?c = running_requests (client_of k s)" by (simp add: CleanupReplicatedRequests_def Let_def)
  have "client_ok (finish k (request_id w) t op (declare_min k w h)) k
      (?c\<lparr>replicated := AddReplicated limit op (request_id w) t (replicated ?c)\<rparr>)"
  proof (rule finish_client [OF c])
    show "op \<notin> used_ops (declare_min k w h)" using m(2) by (simp add: declare_min_def)
    have "\<forall>i\<in>ids (replicated ?c). \<exists>t. (k, i, t) \<in> finished h" using c by (simp add: client_ok_def declare_min_def)
    then show "request_id w \<notin> ids (replicated ?c)" using n(1) by blast
    show "request_id w \<notin> running_id ` set (running_requests ?c)" using n(2) run by auto
  qed
  moreover have "finish k (request_id w) t op (declare_min k w h) = declare_min k w (finish k (request_id w) t op h)"
    by (simp add: finish_def declare_min_def)
  moreover have "Bootstrap limit msg t s = AList.update k (?c\<lparr>replicated := AddReplicated limit op (request_id w) t (replicated ?c)\<rparr>) s"
    using m(1) n(2) by (auto simp: Bootstrap_def Let_def)
  ultimately show ?thesis using retry_update [OF ok] declare_other finish_other by metis
qed

lemma clean_ok:
  assumes ok: "retry_ok s h" and c: "CleanExpiredReplicatedAndGetMinOpId now timeout s = (s', op)"
  shows "retry_ok s' (h\<lparr>clean_starts := insert (now - timeout) (clean_starts h)\<rparr>)" (is "retry_ok s' ?h")
proof -
  have m: "distinct (map fst s')" "map_of s' k = (case map_of s k of None \<Rightarrow> None | Some c \<Rightarrow> snd (clean_client now (now - timeout) c))" for k
    using clean_clients_map [of now "now - timeout" s MaximumOpId s' op k] c ok
    by (simp_all add: retry_ok_def CleanExpiredReplicatedAndGetMinOpId_def)
  have "client_ok ?h k (client_of k s')" for k
  proof (cases "map_of s k")
    case None
    then have "client_of k s' = client_of k s" using m(2) [of k] by (simp add: client_of_def)
    then show ?thesis using retry_client [OF ok, of k] by (simp add: client_ok_def)
  next
    case (Some c)
    have cok: "client_ok h k c" using retry_client [OF ok, of k] Some by (simp add: client_of_def)
    then have r: "ranges_ok (replicated c)" by (simp add: client_ok_def)
    show ?thesis
    proof (cases "snd (clean_client now (now - timeout) c)")
      case None
      then have "client_of k s' = new_client" using m(2) [of k] Some by (simp add: client_of_def)
      moreover have "\<not> (\<forall>x\<in>clean_starts ?h. x \<le> t)" if "(k, i, t) \<in> finished h" "declared h k \<le> i" for i t
      proof
        assume "\<forall>x\<in>clean_starts ?h. x \<le> t"
        then have x: "\<forall>x\<in>clean_starts h. x \<le> t" "now - timeout \<le> t" by simp_all
        have "covered i t (replicated c)" using cok that x(1) unfolding client_ok_def by blast
        then show False using clean_client_none [OF None x(2)] by simp
      qed
      ultimately show ?thesis using cok by (simp add: client_ok_def new_client_def)
    next
      case c': (Some c')
      then have "client_of k s' = c'" using m(2) [of k] Some by (simp add: client_of_def)
      moreover have "ids (replicated c') \<subseteq> ids (replicated c)" using clean_client_ok(2) [OF c' r] by (auto simp: ids_def)
      ultimately show ?thesis
        using clean_client_ok [OF c' r] cok unfolding client_ok_def by (auto simp: subset_iff)
    qed
  qed
  then show ?thesis using m(1) by (simp add: retry_ok_def)
qed

lemma retry_reachable_ok:
  assumes "retry_reachable limit s h"
  shows "retry_ok s h"
  using assms
proof induction
  case start
  show ?case by (simp add: retry_ok_def client_ok_def client_of_def new_client_def)
qed (blast intro: register_ok replicated_ok failed_ok replay_ok clean_ok)+

text \<open>C11. The ranges of a client implement a set of identifiers. In every reachable state the search by last
  identifier decides membership. Adding a request that is not in the set, with a fresh operation, adds exactly its identifier,
  whether a range is extended at either end, two are joined, or a new one is made. A declared minimum above
  the last one removes exactly the identifiers below it.\<close>

theorem replicated_ranges_refine_set:
  assumes "retry_reachable limit s h" "c = client_of k s"
  shows "(found i (replicated c) \<longleftrightarrow> i \<in> ids (replicated c)) \<and>
    (i \<notin> ids (replicated c) \<longrightarrow> op \<notin> used_ops h \<longrightarrow>
      ids (AddReplicated limit op i t (replicated c)) = insert i (ids (replicated c))) \<and>
    (min_running_request_id c < m \<longrightarrow>
      ids (replicated (CleanupReplicatedRequests m c)) = {i \<in> ids (replicated c). m \<le> i})"
proof -
  have ok: "client_ok h k c" using retry_client [OF retry_reachable_ok [OF assms(1)]] assms(2) by simp
  then have r: "ranges_ok (replicated c)" by (simp add: client_ok_def)
  have "ids (AddReplicated limit op i t (replicated c)) = insert i (ids (replicated c))"
    if "i \<notin> ids (replicated c)" "op \<notin> used_ops h"
  proof -
    have "op \<notin> min_op_id ` set (replicated c)" using ok that(2) by (auto simp: client_ok_def)
    then show ?thesis using AddReplicated_adds [OF r that(1), of op t limit] by (simp add: adds_def)
  qed
  moreover have "ids (replicated (CleanupReplicatedRequests m c)) = {i \<in> ids (replicated c). m \<le> i}" if "min_running_request_id c < m"
    using Cleanup_ok(2) [OF r, of m] that by simp
  ultimately show ?thesis using found_iff [OF r, of i] by simp
qed

text \<open>C10. A replicated request is not replicated again. In every run of registrations, finished and failed replications,
  replays of the log and cleanings: once a request was replicated, registering it again is refused as a duplicate,
  as long as no cleaning has passed its time and its client has not declared it as no longer running.\<close>

theorem finished_request_is_refused:
  assumes "retry_reachable limit s h" "FromMsg (round_msg round) = Some (k, w, op)"
    and "(k, request_id w, t) \<in> finished h" "\<forall>x\<in>clean_starts h. x \<le> t"
    and "declared h k \<le> request_id w" "wr_min_running_request_id w \<le> request_id w"
  shows "snd (Register now round entry_time s) = ([(round, AlreadyPresent)], False)"
proof -
  let ?c = "CleanupReplicatedRequests (wr_min_running_request_id w) (client_of k s)"
  have ok: "client_ok h k (client_of k s)" by (rule retry_client [OF retry_reachable_ok [OF assms(1)]])
  then have r: "ranges_ok (replicated (client_of k s))" "covered (request_id w) t (replicated (client_of k s))"
    using assms(3,4,5) by (auto simp: client_ok_def)
  note cl = Cleanup_ok [OF r(1), of "wr_min_running_request_id w"]
  have "request_id w \<in> ids (replicated ?c)" using cl(6) [OF assms(6) r(2)] by (rule covered_ids)
  then have "found (request_id w) (replicated ?c)" using found_iff [OF cl(1)] by blast
  moreover have "\<not> request_id w < min_running_request_id ?c" using cl(3) ok assms(5,6) by (simp add: client_ok_def not_less)
  ultimately show ?thesis using assms(2) by (simp add: Register_def Let_def)
qed

definition sample_round :: "nat \<Rightarrow> consensus_round" where
  "sample_round n = \<lparr>round_number = n, round_msg = \<lparr>msg_id = OpId 1 (int n),
     write_request = Some \<lparr>client_id1 = 1, client_id2 = 0, request_id = 5, wr_min_running_request_id = 5\<rparr>\<rparr>\<rparr>"

definition sample_requests :: retryable_requests where
  "sample_requests = [((1, 0), \<lparr>running_requests = [], replicated = [new_range 5 (OpId 1 7) 100],
     min_running_request_id = 5, empty_since = 0\<rparr>)]"

definition sample_events :: history where
  "sample_events = finish (1, 0) 5 100 (OpId 1 7)
     (declare_min (1, 0) \<lparr>client_id1 = 1, client_id2 = 0, request_id = 5, wr_min_running_request_id = 5\<rparr>
       \<lparr>finished = {}, declared = \<lambda>_. 0, used_ops = {}, clean_starts = {}\<rparr>)"

lemma sample_requests_reachable: "retry_reachable 30 sample_requests sample_events"
proof -
  let ?w = "\<lparr>client_id1 = 1, client_id2 = 0, request_id = 5, wr_min_running_request_id = 5\<rparr> :: write_request"
  let ?q = "\<lparr>running_id = 5, running_op_id = OpId 1 7, running_time = 100, duplicate_rounds = []\<rparr>"
  let ?s = "[((1, 0), \<lparr>running_requests = [?q], replicated = [], min_running_request_id = 5, empty_since = 0\<rparr>)] :: retryable_requests"
  have m: "FromMsg (round_msg (sample_round 7)) = Some ((1, 0), ?w, OpId 1 7)" by (simp add: FromMsg_def sample_round_def)
  have "Register 100 (sample_round 7) 0 [] = (?s, [], True)"
    by (simp add: Register_def m client_of_def new_client_def CleanupReplicatedRequests_def found_def blocking_def Let_def)
  from retry_reachable.register [OF retry_reachable.start m this]
  have r: "retry_reachable 30 ?s (declare_min (1, 0) ?w \<lparr>finished = {}, declared = \<lambda>_. 0, used_ops = {}, clean_starts = {}\<rparr>)" .
  have "ReplicationFinished 30 (round_msg (sample_round 7)) None ?s = (sample_requests, [])"
    by (simp add: ReplicationFinished_def m client_of_def AddReplicated_def found_def TryJoinToEndOfRange_def sample_requests_def Let_def)
  from retry_reachable.replicated [OF r m _ _ this] show ?thesis
    by (simp add: client_of_def sample_events_def declare_min_def)
qed

theorem replicated_ranges_refine_set_witness:
  "ids (AddReplicated 30 (OpId 1 8) 6 101 [new_range 5 (OpId 1 7) 100]) = {5, 6}"
proof -
  have c: "replicated (client_of (1, 0) sample_requests) = [new_range 5 (OpId 1 7) 100]"
    by (simp add: client_of_def sample_requests_def)
  have "OpId 1 8 \<notin> used_ops sample_events" by (simp add: sample_events_def finish_def declare_min_def)
  then have "ids (AddReplicated 30 (OpId 1 8) 6 101 [new_range 5 (OpId 1 7) 100]) = insert 6 (ids [new_range 5 (OpId 1 7) 100])"
    using replicated_ranges_refine_set [OF sample_requests_reachable refl, of 6 "(1, 0)" "OpId 1 8" 101] c
    by (simp add: new_range_def)
  then show ?thesis by (auto simp: new_range_def)
qed

theorem finished_request_is_refused_witness:
  "snd (Register 200 (sample_round 9) 0 sample_requests) = ([(sample_round 9, AlreadyPresent)], False)"
  by (rule finished_request_is_refused [OF sample_requests_reachable, of _ "(1, 0)"
        "\<lparr>client_id1 = 1, client_id2 = 0, request_id = 5, wr_min_running_request_id = 5\<rparr>" "OpId 1 9" 100])
    (simp_all add: sample_events_def finish_def declare_min_def sample_round_def FromMsg_def)

end
