(* ===== verification/Quorum.thy ===== *)
theory Quorum
  imports Prelude
begin

text \<open>
  Raft configurations, \<^verbatim>\<open>src/yb/consensus/quorum_util.cc\<close>, with the messages of \<^verbatim>\<open>metadata.proto\<close> as
  records: an optional field is an option, and reading an unset one gives its default. Which address
  of a peer to use comes from \<^verbatim>\<open>src/yb/common/wire_protocol.cc\<close>.
\<close>

section \<open>Messages\<close>

datatype role = FOLLOWER | LEADER | LEARNER | NON_PARTICIPANT | READ_REPLICA | UNKNOWN_ROLE
datatype member_type = UNKNOWN_MEMBER_TYPE | PRE_VOTER | VOTER | PRE_OBSERVER | OBSERVER
datatype config_state = UNCOMMITTED_QUORUM | COMMITTED_QUORUM

type_synonym uuid = string

record host_port =
  host :: string
  port :: uint32

record cloud_info =
  placement_cloud :: string
  placement_region :: string
  placement_zone :: string

record raft_peer =
  peer_uuid :: "uuid option"
  peer_member_type :: "member_type option"
  last_known_private_addr :: "host_port list"
  last_known_broadcast_addr :: "host_port list"
  peer_cloud_info :: cloud_info

record raft_config =
  opid_index :: "int option"
  peers :: "raft_peer list"

record consensus_state =
  cs_current_term :: "int option"
  cs_leader_uuid :: "uuid option"
  cs_config :: "raft_config option"

record change_config_request =
  use_host :: "bool option"
  server :: raft_peer

definition permanent_uuid :: "raft_peer \<Rightarrow> uuid" where
  "permanent_uuid p = (case peer_uuid p of None \<Rightarrow> '''' | Some u \<Rightarrow> u)"

definition member_type_of :: "raft_peer \<Rightarrow> member_type" where
  "member_type_of p = (case peer_member_type p of None \<Rightarrow> UNKNOWN_MEMBER_TYPE | Some t \<Rightarrow> t)"

definition leader_uuid :: "consensus_state \<Rightarrow> uuid" where
  "leader_uuid c = (case cs_leader_uuid c of None \<Rightarrow> '''' | Some u \<Rightarrow> u)"

definition config :: "consensus_state \<Rightarrow> raft_config" where
  "config c = (case cs_config c of None \<Rightarrow> \<lparr>opid_index = None, peers = []\<rparr> | Some g \<Rightarrow> g)"

section \<open>Addresses\<close>

datatype private_ip_mode = mode_cloud | mode_region | mode_zone | mode_never

definition HasHostPortPB :: "host_port list \<Rightarrow> host_port \<Rightarrow> bool" where
  "HasHostPortPB hps hp = list_ex (\<lambda>i. host i = host hp \<and> port i = port hp) hps"

definition UsePublicIp :: "private_ip_mode \<Rightarrow> cloud_info \<Rightarrow> cloud_info \<Rightarrow> bool" where
  "UsePublicIp mode connect_to connect_from =
     (if mode = mode_never then True
      else if placement_cloud connect_to \<noteq> placement_cloud connect_from then True
      else if mode = mode_cloud then False
      else if placement_region connect_to \<noteq> placement_region connect_from then True
      else if mode = mode_region then False
      else if placement_zone connect_to \<noteq> placement_zone connect_from then True
      else mode \<noteq> mode_zone)"

definition DesiredHostPort :: "private_ip_mode \<Rightarrow> host_port list \<Rightarrow> host_port list \<Rightarrow> cloud_info \<Rightarrow> cloud_info \<Rightarrow> host_port" where
  "DesiredHostPort mode broadcast private connect_to connect_from =
     (if broadcast \<noteq> [] \<and> UsePublicIp mode connect_to connect_from then hd broadcast
      else if private \<noteq> [] then hd private
      else \<lparr>host = '''', port = 0\<rparr>)"

section \<open>Operations on configurations\<close>

definition IsRaftConfigMember :: "uuid \<Rightarrow> raft_config \<Rightarrow> bool" where
  "IsRaftConfigMember u g = list_ex (\<lambda>p. permanent_uuid p = u) (peers g)"

definition IsRaftConfigVoter :: "uuid \<Rightarrow> raft_config \<Rightarrow> bool" where
  "IsRaftConfigVoter u g =
     (case find (\<lambda>p. permanent_uuid p = u) (peers g) of None \<Rightarrow> False | Some p \<Rightarrow> member_type_of p = VOTER)"

definition GetRaftConfigMember :: "raft_config \<Rightarrow> uuid \<Rightarrow> raft_peer result" where
  "GetRaftConfigMember g u =
     (case find (\<lambda>p. permanent_uuid p = u) (peers g) of None \<Rightarrow> Inl NotFound | Some p \<Rightarrow> Inr p)"

text \<open>The mutable pointer into the configuration is the index of the peer.\<close>

definition GetMutableRaftConfigMember :: "raft_config \<Rightarrow> uuid \<Rightarrow> nat result" where
  "GetMutableRaftConfigMember g u =
     (case find (\<lambda>i. permanent_uuid (peers g ! i) = u) [0..<length (peers g)] of
        None \<Rightarrow> Inl NotFound | Some i \<Rightarrow> Inr i)"

definition GetRaftConfigLeader :: "consensus_state \<Rightarrow> raft_peer result" where
  "GetRaftConfigLeader c =
     (if cs_leader_uuid c = None \<or> leader_uuid c = '''' then Inl NotFound
      else GetRaftConfigMember (config c) (leader_uuid c))"

text \<open>The last argument tells whether the caller passed a place for the result.\<close>

definition GetHostPortFromConfig ::
  "private_ip_mode \<Rightarrow> raft_config \<Rightarrow> uuid \<Rightarrow> cloud_info \<Rightarrow> bool \<Rightarrow> host_port result" where
  "GetHostPortFromConfig mode g u connect_from has_hp =
     (if \<not> has_hp then Inl InvalidArgument
      else case find (\<lambda>p. permanent_uuid p = u) (peers g) of
        None \<Rightarrow> Inl NotFound
      | Some p \<Rightarrow> Inr (DesiredHostPort mode (last_known_broadcast_addr p) (last_known_private_addr p)
                        (peer_cloud_info p) connect_from))"

definition RemoveFromRaftConfig :: "raft_config \<Rightarrow> change_config_request \<Rightarrow> bool \<times> raft_config" where
  "RemoveFromRaftConfig g req =
     (let by_host = (use_host req = Some True) in
      if by_host \<and> length (last_known_private_addr (server req)) \<noteq> 1 then (False, g)
      else let matches = (\<lambda>p.
               if by_host
               then HasHostPortPB (last_known_private_addr p) (last_known_private_addr (server req) ! 0) \<or>
                    HasHostPortPB (last_known_broadcast_addr p) (last_known_private_addr (server req) ! 0)
               else permanent_uuid p = permanent_uuid (server req))
           in if list_ex matches (peers g) then (True, g\<lparr>peers := filter (\<lambda>p. \<not> matches p) (peers g)\<rparr>)
              else (False, g))"

definition CountMemberType :: "raft_config \<Rightarrow> member_type \<Rightarrow> uuid \<Rightarrow> nat" where
  "CountMemberType g t ignore_uuid =
     foldl (\<lambda>count p. if member_type_of p = t \<and> permanent_uuid p \<noteq> ignore_uuid then count + 1 else count) 0 (peers g)"

definition CountVoters :: "raft_config \<Rightarrow> nat" where
  "CountVoters g = CountMemberType g VOTER ''''"

definition CountVotersInTransition :: "raft_config \<Rightarrow> nat" where
  "CountVotersInTransition g = CountMemberType g PRE_VOTER ''''"

definition CountServersInTransition :: "raft_config \<Rightarrow> uuid \<Rightarrow> nat" where
  "CountServersInTransition g ignore_uuid =
     CountMemberType g PRE_VOTER ignore_uuid + CountMemberType g PRE_OBSERVER ignore_uuid"

definition MajoritySize :: "nat \<Rightarrow> nat" where
  "MajoritySize num_voters = num_voters div 2 + 1"

definition GetConsensusMemberType :: "uuid \<Rightarrow> consensus_state \<Rightarrow> member_type" where
  "GetConsensusMemberType u c =
     (case find (\<lambda>p. permanent_uuid p = u) (peers (config c)) of None \<Rightarrow> UNKNOWN_MEMBER_TYPE | Some p \<Rightarrow> member_type_of p)"

fun role_of_member :: "member_type \<Rightarrow> role" where
  "role_of_member VOTER = FOLLOWER"
| "role_of_member PRE_VOTER = LEARNER"
| "role_of_member PRE_OBSERVER = LEARNER"
| "role_of_member OBSERVER = READ_REPLICA"
| "role_of_member UNKNOWN_MEMBER_TYPE = UNKNOWN_ROLE"

definition GetConsensusRole :: "uuid \<Rightarrow> consensus_state \<Rightarrow> role" where
  "GetConsensusRole u c =
     (if leader_uuid c = u
      then if IsRaftConfigVoter u (config c) then LEADER else NON_PARTICIPANT
      else case find (\<lambda>p. permanent_uuid p = u) (peers (config c)) of
             None \<Rightarrow> NON_PARTICIPANT | Some p \<Rightarrow> role_of_member (member_type_of p))"

text \<open>The loop of \<open>VerifyRaftConfig\<close>, with the uuids seen so far.\<close>

fun verify_peers :: "nat \<Rightarrow> uuid list \<Rightarrow> raft_peer list \<Rightarrow> unit result" where
  "verify_peers num_peers uuids [] = Inr ()"
| "verify_peers num_peers uuids (p # ps) =
     (if peer_uuid p = None \<or> permanent_uuid p = '''' then Inl IllegalState
      else if permanent_uuid p \<in> set uuids then Inl IllegalState
      else if num_peers > 1 \<and> last_known_private_addr p = [] then Inl IllegalState
      else if peer_member_type p = None then Inl IllegalState
      else verify_peers num_peers (permanent_uuid p # uuids) ps)"

definition VerifyRaftConfig :: "raft_config \<Rightarrow> config_state \<Rightarrow> unit result" where
  "VerifyRaftConfig g t =
     (if peers g = [] then Inl IllegalState
      else if t = COMMITTED_QUORUM \<and> opid_index g = None then Inl IllegalState
      else if t = UNCOMMITTED_QUORUM \<and> opid_index g \<noteq> None then Inl IllegalState
      else verify_peers (length (peers g)) [] (peers g))"

definition VerifyConsensusState :: "consensus_state \<Rightarrow> config_state \<Rightarrow> unit result" where
  "VerifyConsensusState c t =
     (if cs_current_term c = None then Inl IllegalState
      else if cs_config c = None then Inl IllegalState
      else bind_result (VerifyRaftConfig (config c) t) (\<lambda>_.
        if cs_leader_uuid c \<noteq> None \<and> leader_uuid c \<noteq> '''' \<and> \<not> IsRaftConfigVoter (leader_uuid c) (config c)
        then Inl IllegalState else Inr ()))"

section \<open>Quorums\<close>

text \<open>What agreement needs of quorums: any two of them meet, so voters who back one
  candidate each cannot give quorums to two candidates.\<close>

locale quorum_system =
  fixes quorum :: "'v set \<Rightarrow> bool"
  assumes meet: "quorum A \<Longrightarrow> quorum B \<Longrightarrow> A \<inter> B \<noteq> {}"
begin

lemma one_winner:
  assumes "quorum A" "quorum B" "\<And>v. v \<in> A \<Longrightarrow> backs v = Some a" "\<And>v. v \<in> B \<Longrightarrow> backs v = Some b"
  shows "a = b"
proof -
  obtain v where "v \<in> A" "v \<in> B" using meet [OF assms(1,2)] by blast
  with assms(3,4) show ?thesis by fastforce
qed

end

definition voters :: "raft_config \<Rightarrow> uuid set" where
  "voters g = permanent_uuid ` {p \<in> set (peers g). member_type_of p = VOTER \<and> permanent_uuid p \<noteq> ''''}"

definition majority :: "raft_config \<Rightarrow> uuid set \<Rightarrow> bool" where
  "majority g A \<longleftrightarrow> A \<subseteq> voters g \<and> MajoritySize (CountVoters g) \<le> card A"

lemma CountMemberType_filter:
  "CountMemberType g t u = length (filter (\<lambda>p. member_type_of p = t \<and> permanent_uuid p \<noteq> u) (peers g))"
proof -
  have "foldl (\<lambda>count p. if member_type_of p = t \<and> permanent_uuid p \<noteq> u then count + 1 else count) n ps =
      n + length (filter (\<lambda>p. member_type_of p = t \<and> permanent_uuid p \<noteq> u) ps)" for n ps
    by (induction ps arbitrary: n) auto
  then show ?thesis by (simp add: CountMemberType_def)
qed

lemma voters_set:
  "voters g = set (map permanent_uuid (filter (\<lambda>p. member_type_of p = VOTER \<and> permanent_uuid p \<noteq> '''') (peers g)))"
  by (auto simp: voters_def)

lemma card_voters: "finite (voters g)" "card (voters g) \<le> CountVoters g"
proof -
  show "finite (voters g)" unfolding voters_set by (rule finite_set)
  have "card (set (map permanent_uuid ps)) \<le> length ps" for ps using card_length [of "map permanent_uuid ps"] by simp
  then show "card (voters g) \<le> CountVoters g" unfolding voters_set CountVoters_def CountMemberType_filter .
qed

lemma majorities_large: "v \<le> n \<Longrightarrow> n \<le> k + 1 \<Longrightarrow> MajoritySize n \<le> a \<Longrightarrow> MajoritySize k \<le> b \<Longrightarrow> v < a + b"
  unfolding MajoritySize_def by arith

lemma large_sets_meet:
  assumes "finite V" "A \<subseteq> V" "B \<subseteq> V" "card V < card A + card B"
  shows "A \<inter> B \<noteq> {}"
proof
  assume "A \<inter> B = {}"
  then have "card A + card B = card (A \<union> B)"
    using assms(1-3) by (metis card_Un_disjoint finite_subset)
  also have "\<dots> \<le> card V" using assms(1-3) by (intro card_mono) auto
  finally show False using assms(4) by simp
qed

interpretation config_quorum: quorum_system "majority g" for g
proof
  fix A B assume m: "majority g A" "majority g B"
  then have "card (voters g) < card A + card B"
    using majorities_large [OF card_voters(2), of g "CountVoters g" "card A" "card B"] by (simp add: majority_def)
  with m show "A \<inter> B \<noteq> {}" by (intro large_sets_meet [OF card_voters(1), of A g B]) (simp_all add: majority_def)
qed

section \<open>Verified configurations\<close>

definition peer_ok :: "nat \<Rightarrow> raft_peer \<Rightarrow> bool" where
  "peer_ok n p \<longleftrightarrow> peer_uuid p \<noteq> None \<and> permanent_uuid p \<noteq> '''' \<and>
     (n > 1 \<longrightarrow> last_known_private_addr p \<noteq> []) \<and> peer_member_type p \<noteq> None"

lemma verify_peers_iff:
  "verify_peers n us ps = Inr () \<longleftrightarrow>
     (\<forall>p\<in>set ps. peer_ok n p) \<and> distinct (map permanent_uuid ps) \<and> permanent_uuid ` set ps \<inter> set us = {}"
  by (induction ps arbitrary: us) (auto simp: peer_ok_def)

lemma VerifyRaftConfig_iff:
  "VerifyRaftConfig g t = Inr () \<longleftrightarrow>
     peers g \<noteq> [] \<and> (\<forall>p\<in>set (peers g). peer_ok (length (peers g)) p) \<and> distinct (map permanent_uuid (peers g)) \<and>
     (opid_index g \<noteq> None \<longleftrightarrow> t = COMMITTED_QUORUM)"
  by (cases t) (auto simp: VerifyRaftConfig_def verify_peers_iff)

definition wf_config :: "raft_config \<Rightarrow> bool" where
  "wf_config g \<longleftrightarrow> (\<forall>p\<in>set (peers g). permanent_uuid p \<noteq> '''') \<and> distinct (map permanent_uuid (peers g))"

lemma verified_wf: "VerifyRaftConfig g t = Inr () \<Longrightarrow> wf_config g"
  by (simp add: VerifyRaftConfig_iff wf_config_def peer_ok_def)

lemma wf_voters:
  assumes "wf_config g"
  shows "voters g = permanent_uuid ` {p \<in> set (peers g). member_type_of p = VOTER}" "card (voters g) = CountVoters g"
proof -
  show "voters g = permanent_uuid ` {p \<in> set (peers g). member_type_of p = VOTER}"
    using assms by (auto simp: voters_def wf_config_def)
  have "distinct (map permanent_uuid (filter f (peers g)))" for f
    using assms by (simp add: wf_config_def distinct_map_filter)
  from distinct_card [OF this] show "card (voters g) = CountVoters g"
    unfolding voters_set CountVoters_def CountMemberType_filter length_map .
qed

lemma find_distinct:
  "distinct (map f xs) \<Longrightarrow> x \<in> set xs \<Longrightarrow> find (\<lambda>y. f y = f x) xs = Some x"
  by (induction xs) auto

lemma find_uuid: "find (\<lambda>p. permanent_uuid p = u) ps = Some p \<Longrightarrow> p \<in> set ps \<and> permanent_uuid p = u"
  by (auto simp: find_Some_iff)

lemma remove_by_uuid:
  assumes "use_host req \<noteq> Some True"
  shows "snd (RemoveFromRaftConfig g req) = g\<lparr>peers := filter (\<lambda>p. permanent_uuid p \<noteq> permanent_uuid (server req)) (peers g)\<rparr>"
proof (cases "list_ex (\<lambda>p. permanent_uuid p = permanent_uuid (server req)) (peers g)")
  case False
  then have "filter (\<lambda>p. permanent_uuid p \<noteq> permanent_uuid (server req)) (peers g) = peers g"
    by (auto simp: list_ex_iff filter_id_conv)
  then show ?thesis using assms False by (simp add: RemoveFromRaftConfig_def)
qed (use assms in \<open>simp add: RemoveFromRaftConfig_def\<close>)

lemma length_remove_one:
  "distinct (map f xs) \<Longrightarrow> length xs \<le> length (filter (\<lambda>x. f x \<noteq> u) xs) + 1"
proof (induction xs)
  case (Cons x xs)
  show ?case
  proof (cases "f x = u")
    case True
    with Cons.prems have "filter (\<lambda>x. f x \<noteq> u) xs = xs" by (force simp: filter_id_conv image_iff)
    with True show ?thesis by simp
  next
    case False
    with Cons show ?thesis by simp
  qed
qed simp

lemma removed_wf:
  assumes "wf_config g" "use_host req \<noteq> Some True"
  shows "wf_config (snd (RemoveFromRaftConfig g req))"
  using assms by (simp add: remove_by_uuid wf_config_def distinct_map_filter)

text \<open>Configurations of which one has all voters of the other and at most one more: their majorities meet.\<close>

definition one_voter_apart :: "raft_config \<Rightarrow> raft_config \<Rightarrow> bool" where
  "one_voter_apart g h \<longleftrightarrow>
     voters h \<subseteq> voters g \<and> CountVoters g \<le> CountVoters h + 1 \<or> voters g \<subseteq> voters h \<and> CountVoters h \<le> CountVoters g + 1"

lemma apart_meet:
  assumes "one_voter_apart g h" "majority g A" "majority h B"
  shows "A \<inter> B \<noteq> {}"
proof -
  have le: "A \<inter> B \<noteq> {}" if "majority g A" "majority h B" "voters h \<subseteq> voters g" "CountVoters g \<le> CountVoters h + 1" for g h A B
  proof -
    have "card (voters g) < card A + card B"
      using that majorities_large [OF card_voters(2) that(4)] by (simp add: majority_def)
    moreover have "A \<subseteq> voters g" "B \<subseteq> voters g" using that by (auto simp: majority_def)
    ultimately show ?thesis by (intro large_sets_meet [OF card_voters(1)])
  qed
  show ?thesis using assms le [of g A h B] le [of h B g A] unfolding one_voter_apart_def by (metis Int_commute)
qed

lemma removed_apart:
  assumes "wf_config g" "use_host req \<noteq> Some True"
  shows "one_voter_apart g (snd (RemoveFromRaftConfig g req))"
proof -
  let ?v = "\<lambda>p. member_type_of p = VOTER \<and> permanent_uuid p \<noteq> ''''"
  let ?u = "permanent_uuid (server req)"
  let ?g = "snd (RemoveFromRaftConfig g req)"
  have g: "peers ?g = filter (\<lambda>p. permanent_uuid p \<noteq> ?u) (peers g)" using remove_by_uuid [OF assms(2)] by simp
  have "distinct (map permanent_uuid (filter ?v (peers g)))"
    using assms(1) by (simp add: wf_config_def distinct_map_filter)
  then have "length (filter ?v (peers g)) \<le> length (filter (\<lambda>p. permanent_uuid p \<noteq> ?u) (filter ?v (peers g))) + 1"
    by (rule length_remove_one)
  then have "CountVoters g \<le> CountVoters ?g + 1"
    by (simp add: CountVoters_def CountMemberType_filter g conj_commute)
  moreover have "voters ?g \<subseteq> voters g" by (auto simp: voters_def g)
  ultimately show ?thesis by (simp add: one_voter_apart_def)
qed

text \<open>
  While one configuration replaces another, a replica has the peers of the one or of the other in force. The index is
  the one of the old configuration, none while the change is pending, and that of the change once it is committed.
\<close>

definition change_configs :: "raft_config \<Rightarrow> raft_config \<Rightarrow> raft_config set" where
  "change_configs g g' = {h. peers h = peers g \<or> peers h = peers g'}"

lemma same_peers:
  assumes "peers h = peers g"
  shows "majority h A = majority g A" "wf_config h = wf_config g"
  using assms by (simp_all add: majority_def voters_def CountVoters_def CountMemberType_def wf_config_def)

definition change_majority :: "raft_config \<Rightarrow> raft_config \<Rightarrow> uuid set \<Rightarrow> bool" where
  "change_majority g g' A \<longleftrightarrow> one_voter_apart g g' \<and> (\<exists>h \<in> change_configs g g'. majority h A)"

interpretation change_quorum: quorum_system "change_majority g g'" for g g'
proof
  fix A B assume m: "change_majority g g' A" "change_majority g g' B"
  then have "majority g A \<or> majority g' A" "majority g B \<or> majority g' B" "one_voter_apart g g'"
    unfolding change_majority_def change_configs_def using same_peers(1) by blast+
  then show "A \<inter> B \<noteq> {}"
    using apart_meet [of g g' A B] apart_meet [of g g' B A] config_quorum.meet [of _ A B] by (metis Int_commute)
qed

text \<open>C36. Removing a peer by its uuid from a verified configuration is a safe configuration change: every
  majority of the old configuration and every majority of the new one have a voter in common.\<close>

theorem config_change_majorities_meet:
  assumes "VerifyRaftConfig g t = Inr ()" "use_host req \<noteq> Some True" "RemoveFromRaftConfig g req = (True, g')"
    and "majority g A" "majority g' B"
  shows "A \<inter> B \<noteq> {}"
  using apart_meet [OF removed_apart [OF verified_wf [OF assms(1)] assms(2)] assms(4)] assms(3,5) by simp

definition sample_peer :: "uuid \<Rightarrow> raft_peer" where
  "sample_peer u = \<lparr>peer_uuid = Some u, peer_member_type = Some VOTER,
     last_known_private_addr = [\<lparr>host = ''h'', port = 7100\<rparr>], last_known_broadcast_addr = [],
     peer_cloud_info = \<lparr>placement_cloud = ''c'', placement_region = ''r'', placement_zone = ''z''\<rparr>\<rparr>"

definition sample_config :: raft_config where
  "sample_config = \<lparr>opid_index = Some 1, peers = [sample_peer ''a'', sample_peer ''b'', sample_peer ''c'']\<rparr>"

lemma sample_verified: "VerifyRaftConfig sample_config COMMITTED_QUORUM = Inr ()"
  by (simp add: VerifyRaftConfig_def sample_config_def sample_peer_def permanent_uuid_def)

theorem config_change_majorities_meet_witness: "{''a'', ''b''} \<inter> {''b'', ''c''} \<noteq> ({} :: uuid set)"
proof -
  let ?req = "\<lparr>use_host = None, server = sample_peer ''a''\<rparr>"
  let ?g = "\<lparr>opid_index = Some 1, peers = [sample_peer ''b'', sample_peer ''c'']\<rparr>"
  have r: "RemoveFromRaftConfig sample_config ?req = (True, ?g)"
    by (simp add: RemoveFromRaftConfig_def sample_config_def sample_peer_def permanent_uuid_def)
  have "majority sample_config {''a'', ''b''}" "majority ?g {''b'', ''c''}"
    by (simp_all add: majority_def voters_set CountVoters_def CountMemberType_filter MajoritySize_def sample_config_def
        sample_peer_def permanent_uuid_def member_type_of_def)
  then show ?thesis by (intro config_change_majorities_meet [OF sample_verified _ r]) simp_all
qed

text \<open>C37. Verification. \<open>VerifyRaftConfig\<close> accepts exactly the configurations that have a peer, different
  nonempty uuids, a member type for each peer, an address for each peer when there are several, and an
  index exactly when committed. In a verified consensus state with a leader, the leader is found as a
  voter of the configuration, it has the role LEADER, and no other uuid has that role.\<close>

theorem verified_state_has_leader:
  "(VerifyRaftConfig g t = Inr () \<longleftrightarrow>
      peers g \<noteq> [] \<and> distinct (map permanent_uuid (peers g)) \<and> (opid_index g \<noteq> None \<longleftrightarrow> t = COMMITTED_QUORUM) \<and>
      (\<forall>p\<in>set (peers g). peer_uuid p \<noteq> None \<and> permanent_uuid p \<noteq> '''' \<and> peer_member_type p \<noteq> None \<and>
         (length (peers g) > 1 \<longrightarrow> last_known_private_addr p \<noteq> []))) \<and>
   (VerifyConsensusState c t = Inr () \<and> leader_uuid c \<noteq> '''' \<longrightarrow>
      (\<exists>p. GetRaftConfigLeader c = Inr p \<and> permanent_uuid p = leader_uuid c \<and> member_type_of p = VOTER) \<and>
      (\<forall>v. GetConsensusRole v c = LEADER \<longleftrightarrow> v = leader_uuid c))"
proof -
  have "(\<exists>p. GetRaftConfigLeader c = Inr p \<and> permanent_uuid p = leader_uuid c \<and> member_type_of p = VOTER) \<and>
      (\<forall>v. GetConsensusRole v c = LEADER \<longleftrightarrow> v = leader_uuid c)"
    if v: "VerifyConsensusState c t = Inr ()" "leader_uuid c \<noteq> ''''"
  proof -
    have some: "cs_leader_uuid c \<noteq> None" using v(2) by (auto simp: leader_uuid_def split: option.splits)
    then have voter: "IsRaftConfigVoter (leader_uuid c) (config c)"
      using v by (auto simp: VerifyConsensusState_def bind_result_eq_Inr split: if_splits)
    then obtain p where p: "find (\<lambda>p. permanent_uuid p = leader_uuid c) (peers (config c)) = Some p" "member_type_of p = VOTER"
      by (auto simp: IsRaftConfigVoter_def split: option.splits)
    have "role_of_member x \<noteq> LEADER" for x by (cases x) simp_all
    then have "GetConsensusRole v c \<noteq> LEADER" if "v \<noteq> leader_uuid c" for v
      using that by (simp add: GetConsensusRole_def split: option.split)
    moreover have "GetConsensusRole (leader_uuid c) c = LEADER" using voter by (simp add: GetConsensusRole_def)
    ultimately show ?thesis
      using p some v(2) find_uuid [OF p(1)] by (auto simp: GetRaftConfigLeader_def GetRaftConfigMember_def)
  qed
  then show ?thesis unfolding VerifyRaftConfig_iff peer_ok_def by blast
qed

theorem verified_state_has_leader_witness:
  "GetConsensusRole ''b'' \<lparr>cs_current_term = Some 3, cs_leader_uuid = Some ''b'', cs_config = Some sample_config\<rparr> = LEADER"
proof -
  let ?c = "\<lparr>cs_current_term = Some 3, cs_leader_uuid = Some ''b'', cs_config = Some sample_config\<rparr>"
  have "leader_uuid ?c = ''b''" "config ?c = sample_config" by (simp_all add: leader_uuid_def config_def)
  moreover have "IsRaftConfigVoter ''b'' sample_config"
    by (simp add: IsRaftConfigVoter_def sample_config_def sample_peer_def permanent_uuid_def member_type_of_def)
  ultimately have "VerifyConsensusState ?c COMMITTED_QUORUM = Inr ()"
    using sample_verified by (simp add: VerifyConsensusState_def)
  then show ?thesis
    using verified_state_has_leader [of sample_config COMMITTED_QUORUM ?c] \<open>leader_uuid ?c = ''b''\<close> by simp
qed

end
