(* ===== verification/LeaderElection.thy ===== *)
theory LeaderElection
  imports Quorum OpIds
begin

text \<open>
  Leader elections, \<^verbatim>\<open>src/yb/consensus/leader_election.cc\<close> with \<^verbatim>\<open>leader_lease.h\<close>, as compiled for release. The
  methods run on the candidate's thread and on the threads of the vote responses; the spinlock makes each
  locked section one step, and the sections interleave freely. The responses themselves, and whether an
  RPC failed, are inputs. Coarse times are in nanoseconds. Messages for people are left out.
\<close>

section \<open>Leases\<close>

record 'a lease_data =
  holder_uuid :: uuid
  expiration :: 'a

definition kNoCoarseTime :: int where "kNoCoarseTime = - (2 ^ 63)"
definition kNoMicrosTime :: uint64 where "kNoMicrosTime = 0"

definition lease_Reset :: "'a \<Rightarrow> 'a lease_data \<Rightarrow> 'a lease_data" where
  "lease_Reset none l = l\<lparr>holder_uuid := '''', expiration := none\<rparr>"

definition TryUpdate :: "'a :: linorder lease_data \<Rightarrow> 'a lease_data \<Rightarrow> 'a lease_data" where
  "TryUpdate rhs l =
     (if expiration l < expiration rhs
      then let l = l\<lparr>expiration := expiration rhs\<rparr>
           in if holder_uuid rhs \<noteq> holder_uuid l then l\<lparr>holder_uuid := holder_uuid rhs\<rparr> else l
      else l)"

section \<open>Counting votes\<close>

datatype election_vote = kDenied | kGranted | kVoteUnknown

record vote_counter =
  num_voters :: int
  majority_size :: int
  votes :: "uuid \<rightharpoonup> election_vote"
  yes_votes :: int
  no_votes :: int

definition VoteCounter :: "int \<Rightarrow> int \<Rightarrow> vote_counter result" where
  "VoteCounter n m =
     (if \<not> m \<le> n \<or> \<not> n > 0 \<or> \<not> m > 0 then Inl Fatal
      else Inr \<lparr>num_voters = n, majority_size = m, votes = Map.empty, yes_votes = 0, no_votes = 0\<rparr>)"

text \<open>The counter after the call, and the status with the duplicate flag.\<close>

definition RegisterVote :: "uuid \<Rightarrow> election_vote \<Rightarrow> vote_counter \<Rightarrow> vote_counter \<times> bool result" where
  "RegisterVote u v c =
     (case votes c u of
        Some prior \<Rightarrow> (c, if prior \<noteq> v then Inl InvalidArgument else Inr True)
      | None \<Rightarrow>
          if yes_votes c + no_votes c = num_voters c then (c, Inl InvalidArgument)
          else let c = c\<lparr>votes := (votes c)(u \<mapsto> v)\<rparr> in
            case v of
              kGranted \<Rightarrow> (c\<lparr>yes_votes := yes_votes c + 1\<rparr>, Inr False)
            | kDenied \<Rightarrow> (c\<lparr>no_votes := no_votes c + 1\<rparr>, Inr False)
            | kVoteUnknown \<Rightarrow> (c, Inl InvalidArgument))"

definition GetDecision :: "vote_counter \<Rightarrow> election_vote" where
  "GetDecision c =
     (if yes_votes c \<ge> majority_size c then kGranted
      else if no_votes c > num_voters c - majority_size c then kDenied
      else kVoteUnknown)"

definition GetTotalVotesCounted :: "vote_counter \<Rightarrow> int" where
  "GetTotalVotesCounted c = yes_votes c + no_votes c"

definition AreAllVotesIn :: "vote_counter \<Rightarrow> bool" where
  "AreAllVotesIn c \<longleftrightarrow> GetTotalVotesCounted c = num_voters c"

section \<open>One election\<close>

record vote_request =
  candidate_uuid :: uuid
  candidate_term :: int
  ignore_live_leader :: bool
  request_preelection :: bool
  last_received :: op_id

datatype consensus_error = INVALID_TERM | LAST_OPID_TOO_OLD | ALREADY_VOTED | CONSENSUS_BUSY | LEADER_IS_ALIVE

record vote_response =
  responder_uuid :: uuid
  responder_term :: int
  vote_granted :: bool
  remaining_leader_lease_duration_ms :: "int option"
  leader_lease_uuid :: uuid
  leader_ht_lease_expiration :: "uint64 option"
  leader_ht_lease_uuid :: uuid
  response_preelection :: bool
  consensus_error :: "consensus_error option"
  has_error :: bool

record election_result =
  preelection :: bool
  preelections_not_supported_by_uuid :: uuid
  election_term :: int
  decision :: election_vote
  higher_term :: "int option"
  old_leader_lease :: "int lease_data"
  old_leader_ht_lease :: "uint64 lease_data"

record election =
  has_responded :: bool
  request :: vote_request
  election_result :: election_result
  counter :: vote_counter
  voting_follower_uuids :: "uuid list"

definition decided :: "election_result \<Rightarrow> bool" where
  "decided r \<longleftrightarrow> decision r \<noteq> kVoteUnknown"

definition ElectionResult :: "bool \<Rightarrow> int \<Rightarrow> election_result" where
  "ElectionResult pre term =
     \<lparr>preelection = pre, preelections_not_supported_by_uuid = '''', election_term = term,
      decision = kVoteUnknown, higher_term = None,
      old_leader_lease = \<lparr>holder_uuid = '''', expiration = kNoCoarseTime\<rparr>,
      old_leader_ht_lease = \<lparr>holder_uuid = '''', expiration = kNoMicrosTime\<rparr>\<rparr>"

fun collect_followers :: "uuid \<Rightarrow> raft_peer list \<Rightarrow> uuid list \<Rightarrow> uuid list result" where
  "collect_followers candidate [] acc = Inr acc"
| "collect_followers candidate (p # ps) acc =
     (if candidate = permanent_uuid p then collect_followers candidate ps acc
      else if member_type_of p \<noteq> VOTER then collect_followers candidate ps acc
      else if permanent_uuid p \<in> set acc then Inl Fatal
      else collect_followers candidate ps (acc @ [permanent_uuid p]))"

definition LeaderElection :: "raft_config \<Rightarrow> vote_request \<Rightarrow> vote_counter \<Rightarrow> bool \<Rightarrow> election result" where
  "LeaderElection g req c pre =
     bind_result (collect_followers (candidate_uuid req) (peers g) []) (\<lambda>followers.
       if GetTotalVotesCounted c \<noteq> 1 then Inl Fatal
       else if GetTotalVotesCounted c + int (length followers) \<noteq> num_voters c then Inl Fatal
       else Inr \<lparr>has_responded = False, request = req, election_result = ElectionResult pre (candidate_term req),
                 counter = c, voting_follower_uuids = followers\<rparr>)"

text \<open>How \<^verbatim>\<open>RaftConsensus::CreateElectionUnlocked\<close> sets an election up: the candidate counts its own vote
  first.\<close>

definition CreateElection :: "raft_config \<Rightarrow> vote_request \<Rightarrow> election result" where
  "CreateElection active_config req =
     (let n = CountVoters active_config in
      bind_result (VoteCounter (int n) (int (MajoritySize n))) (\<lambda>c.
        case RegisterVote (candidate_uuid req) kGranted c of
          (_, Inl err) \<Rightarrow> Inl err
        | (c, Inr duplicate) \<Rightarrow>
            if duplicate then Inl Fatal
            else LeaderElection active_config req c (request_preelection req)))"

definition consensus_term :: "election \<Rightarrow> int" where
  "consensus_term e = candidate_term (request e) - (if preelection (election_result e) then 1 else 0)"

text \<open>The locked section of \<open>CheckForDecision\<close>; the flag is \<open>to_respond\<close>.\<close>

definition CheckForDecision :: "election \<Rightarrow> election \<times> bool" where
  "CheckForDecision e =
     (let d = GetDecision (counter e);
          e = (if \<not> decided (election_result e) \<and> d \<noteq> kVoteUnknown
               then e\<lparr>election_result := (election_result e)\<lparr>decision := d\<rparr>\<rparr> else e)
      in if decided (election_result e) \<and> \<not> has_responded e then (e\<lparr>has_responded := True\<rparr>, True) else (e, False))"

definition RecordVoteUnlocked :: "uuid \<Rightarrow> election_vote \<Rightarrow> election \<Rightarrow> election" where
  "RecordVoteUnlocked u v e = e\<lparr>counter := fst (RegisterVote u v (counter e))\<rparr>"

definition HandleHigherTermUnlocked :: "vote_response \<Rightarrow> election \<Rightarrow> election" where
  "HandleHigherTermUnlocked resp e =
     (if \<not> decided (election_result e)
      then e\<lparr>election_result := (election_result e)\<lparr>decision := kDenied, higher_term := Some (responder_term resp)\<rparr>\<rparr>
      else e)"

definition HandleVoteGrantedUnlocked :: "int \<Rightarrow> uuid \<Rightarrow> vote_response \<Rightarrow> election \<Rightarrow> election" where
  "HandleVoteGrantedUnlocked now u resp e =
     (let r = election_result e;
          r = (case remaining_leader_lease_duration_ms resp of
                 None \<Rightarrow> r
               | Some d \<Rightarrow> r\<lparr>old_leader_lease :=
                   TryUpdate \<lparr>holder_uuid = leader_lease_uuid resp, expiration = now + d * 1000000\<rparr> (old_leader_lease r)\<rparr>);
          r = (case leader_ht_lease_expiration resp of
                 None \<Rightarrow> r
               | Some x \<Rightarrow> r\<lparr>old_leader_ht_lease :=
                   TryUpdate \<lparr>holder_uuid = leader_ht_lease_uuid resp, expiration = x\<rparr> (old_leader_ht_lease r)\<rparr>)
      in RecordVoteUnlocked u kGranted (e\<lparr>election_result := r\<rparr>))"

definition HandleVoteDeniedUnlocked :: "uuid \<Rightarrow> vote_response \<Rightarrow> election \<Rightarrow> election" where
  "HandleVoteDeniedUnlocked u resp e =
     (if responder_term resp > consensus_term e then HandleHigherTermUnlocked resp e
      else RecordVoteUnlocked u kDenied e)"

text \<open>The locked section of \<open>VoteResponseRpcCallback\<close>: \<^const>\<open>None\<close> if it returns at once.\<close>

definition VoteResponseRpcCallback :: "int \<Rightarrow> uuid \<Rightarrow> bool \<Rightarrow> vote_response \<Rightarrow> election \<Rightarrow> election option result" where
  "VoteResponseRpcCallback now u rpc_ok resp e =
     (if has_responded e then Inr None
      else if u \<notin> set (voting_follower_uuids e) then Inl Fatal
      else Inr (Some
        (if \<not> rpc_ok then RecordVoteUnlocked u kDenied e
         else if has_error resp then RecordVoteUnlocked u kDenied e
         else if u \<noteq> responder_uuid resp then RecordVoteUnlocked u kDenied e
         else if preelection (election_result e) \<and> \<not> response_preelection resp
         then HandleVoteDeniedUnlocked u resp
                (e\<lparr>election_result := (election_result e)\<lparr>preelections_not_supported_by_uuid := u\<rparr>\<rparr>)
         else if vote_granted resp then HandleVoteGrantedUnlocked now u resp e
         else HandleVoteDeniedUnlocked u resp e)))"

section \<open>Threads\<close>

text \<open>
  The candidate's thread in \<open>Run\<close>: at its start, about to call the decision callback, sending the
  remaining requests, or done. The threads of responses: so many about to check for a
  decision, so many about to call the callback; \<open>responses\<close> lists the calls made so far, with the result.
\<close>

datatype run_pc = Starting | StartResponding | Sending "uuid list" | RunDone

record election_system =
  el :: election
  run :: run_pc
  outstanding :: "uuid list"
  to_check :: nat
  responding :: nat
  responses :: "election_result list"

inductive election_step :: "(uuid \<Rightarrow> vote_response \<Rightarrow> bool) \<Rightarrow> election_system \<Rightarrow> election_system \<Rightarrow> bool" for net where
  run_check: "run s = Starting \<Longrightarrow> CheckForDecision (el s) = (e, to_respond) \<Longrightarrow>
    election_step net s (s\<lparr>el := e, run := (if to_respond then StartResponding else Sending (voting_follower_uuids e))\<rparr>)"
| run_respond: "run s = StartResponding \<Longrightarrow>
    election_step net s (s\<lparr>run := Sending (voting_follower_uuids (el s)), responses := responses s @ [election_result (el s)]\<rparr>)"
| run_send: "run s = Sending (u # us) \<Longrightarrow> \<not> decided (election_result (el s)) \<Longrightarrow>
    election_step net s (s\<lparr>run := Sending us, outstanding := u # outstanding s\<rparr>)"
| run_stop: "run s = Sending us \<Longrightarrow> us = [] \<or> decided (election_result (el s)) \<Longrightarrow>
    election_step net s (s\<lparr>run := RunDone\<rparr>)"
| response: "u \<in> set (outstanding s) \<Longrightarrow> VoteResponseRpcCallback now u rpc_ok resp (el s) = Inr (Some e) \<Longrightarrow> rpc_ok \<longrightarrow> net u resp \<Longrightarrow>
    election_step net s (s\<lparr>el := e, outstanding := remove1 u (outstanding s), to_check := to_check s + 1\<rparr>)"
| late_response: "u \<in> set (outstanding s) \<Longrightarrow> VoteResponseRpcCallback now u rpc_ok resp (el s) = Inr None \<Longrightarrow> rpc_ok \<longrightarrow> net u resp \<Longrightarrow>
    election_step net s (s\<lparr>outstanding := remove1 u (outstanding s)\<rparr>)"
| check: "to_check s > 0 \<Longrightarrow> CheckForDecision (el s) = (e, to_respond) \<Longrightarrow>
    election_step net s (s\<lparr>el := e, to_check := to_check s - 1,
                       responding := (if to_respond then responding s + 1 else responding s)\<rparr>)"
| respond: "responding s > 0 \<Longrightarrow>
    election_step net s (s\<lparr>responding := responding s - 1, responses := responses s @ [election_result (el s)]\<rparr>)"

abbreviation begin_election :: "election \<Rightarrow> election_system" where
  "begin_election e \<equiv> \<lparr>el = e, run = Starting, outstanding = [], to_check = 0, responding = 0, responses = []\<rparr>"

inductive election_reachable :: "(uuid \<Rightarrow> vote_response \<Rightarrow> bool) \<Rightarrow> election \<Rightarrow> election_system \<Rightarrow> bool" for net e where
  start: "election_reachable net e (begin_election e)"
| step: "election_reachable net e s \<Longrightarrow> election_step net s s' \<Longrightarrow> election_reachable net e s'"

section \<open>The count of votes\<close>

definition voted :: "election_vote \<Rightarrow> vote_counter \<Rightarrow> uuid set" where
  "voted v c = {u. votes c u = Some v}"

definition counter_ok :: "uuid set \<Rightarrow> vote_counter \<Rightarrow> bool" where
  "counter_ok V c \<longleftrightarrow> finite V \<and> dom (votes c) \<subseteq> V \<and> voted kVoteUnknown c = {} \<and> num_voters c = int (card V) \<and>
     yes_votes c = int (card (voted kGranted c)) \<and> no_votes c = int (card (voted kDenied c))"

lemma voted_dom: "voted v c \<subseteq> dom (votes c)"
  by (auto simp: voted_def)

lemma total_votes:
  assumes "counter_ok V c"
  shows "yes_votes c + no_votes c = int (card (dom (votes c)))"
proof -
  have "dom (votes c) = voted kGranted c \<union> voted kDenied c"
    using assms by (auto simp: counter_ok_def voted_def) (metis election_vote.exhaust)
  moreover have "finite (voted v c)" for v
    using assms finite_subset [OF voted_dom] by (metis counter_ok_def finite_subset)
  moreover have "voted kGranted c \<inter> voted kDenied c = {}" by (auto simp: voted_def)
  ultimately show ?thesis using assms by (simp add: card_Un_disjoint counter_ok_def)
qed

lemma RegisterVote_cases:
  assumes "counter_ok V c" "u \<in> V" "v \<noteq> kVoteUnknown"
  shows "(if u \<in> dom (votes c) then fst (RegisterVote u v c) = c
     else snd (RegisterVote u v c) = Inr False \<and> votes (fst (RegisterVote u v c)) = (votes c)(u \<mapsto> v)) \<and>
    counter_ok V (fst (RegisterVote u v c)) \<and> majority_size (fst (RegisterVote u v c)) = majority_size c \<and>
    yes_votes c \<le> yes_votes (fst (RegisterVote u v c))"
proof (cases "u \<in> dom (votes c)")
  case True
  then show ?thesis using assms by (auto simp: RegisterVote_def)
next
  case False
  then have n: "votes c u = None" by auto
  have "card (dom (votes c)) < card V"
    using False assms by (intro psubset_card_mono) (auto simp: counter_ok_def)
  then have lt: "yes_votes c + no_votes c \<noteq> num_voters c"
    using total_votes [OF assms(1)] assms(1) by (simp add: counter_ok_def)
  have fin: "finite (voted w c)" for w
    using assms finite_subset [OF voted_dom] by (metis counter_ok_def finite_subset)
  have notin: "u \<notin> voted w c" for w using n by (simp add: voted_def)
  let ?c = "c\<lparr>votes := (votes c)(u \<mapsto> v)\<rparr>"
  have vd: "voted w ?c = (if w = v then insert u (voted w c) else voted w c)" for w
    using n by (auto simp: voted_def)
  have up: "voted w (?c\<lparr>yes_votes := y\<rparr>) = voted w ?c" "voted w (?c\<lparr>no_votes := y\<rparr>) = voted w ?c" for w y
    by (simp_all add: voted_def)
  show ?thesis
    using assms n lt vd up fin notin False
    by (cases v) (auto simp: RegisterVote_def Let_def counter_ok_def)
qed

lemma all_votes_decide:
  assumes "counter_ok V c" "dom (votes c) = V"
  shows "GetDecision c \<noteq> kVoteUnknown"
  using total_votes [OF assms(1)] assms by (auto simp: GetDecision_def counter_ok_def)

section \<open>Invariant of an election\<close>

fun to_send :: "uuid list \<Rightarrow> run_pc \<Rightarrow> uuid set" where
  "to_send F Starting = set F"
| "to_send F StartResponding = set F"
| "to_send F (Sending us) = set us"
| "to_send F RunDone = {}"

definition answered :: "election_system \<Rightarrow> nat" where
  "answered s = length (responses s) + responding s + (if run s = StartResponding then 1 else 0)"

text \<open>\<open>F\<close> are the followers asked, \<open>V\<close> all who may vote, \<open>u\<close> the candidate.\<close>

definition tally_ok :: "uuid list \<Rightarrow> uuid set \<Rightarrow> uuid \<Rightarrow> int \<Rightarrow> election \<Rightarrow> bool" where
  "tally_ok F V u m e \<longleftrightarrow>
     voting_follower_uuids e = F \<and> set F \<subseteq> V \<and> V = insert u (set F) \<and> u \<in> dom (votes (counter e)) \<and>
     counter_ok V (counter e) \<and> majority_size (counter e) = m \<and>
     (decision (election_result e) = kGranted \<longrightarrow> m \<le> yes_votes (counter e)) \<and>
     (has_responded e \<longrightarrow> decided (election_result e))"

definition protocol_ok :: "uuid list \<Rightarrow> election_system \<Rightarrow> bool" where
  "protocol_ok F s \<longleftrightarrow>
     answered s = (if has_responded (el s) then 1 else 0) \<and>
     (\<forall>r\<in>set (responses s). r = election_result (el s)) \<and>
     (run s = Starting \<longrightarrow> \<not> has_responded (el s) \<and> outstanding s = [] \<and> to_check s = 0) \<and>
     (run s \<noteq> Starting \<and> to_check s = 0 \<and> \<not> has_responded (el s) \<longrightarrow>
        \<not> decided (election_result (el s)) \<and> GetDecision (counter (el s)) = kVoteUnknown) \<and>
     to_send F (run s) \<union> set (outstanding s) \<subseteq> set F \<and>
     (\<not> decided (election_result (el s)) \<longrightarrow>
        set F \<subseteq> to_send F (run s) \<union> set (outstanding s) \<union> dom (votes (counter (el s))))"

lemma Check_result:
  assumes "CheckForDecision e = (e', b)" "tally_ok F V u m e"
  shows "tally_ok F V u m e'" "counter e' = counter e" "b \<longleftrightarrow> has_responded e' \<and> \<not> has_responded e"
    "has_responded e \<longrightarrow> e' = e" "\<not> has_responded e' \<longrightarrow> \<not> decided (election_result e') \<and> GetDecision (counter e') = kVoteUnknown"
    "decided (election_result e) \<longrightarrow> election_result e' = election_result e"
  using assms
  by (auto simp: CheckForDecision_def Let_def tally_ok_def decided_def GetDecision_def split: if_splits)

lemma Record_result:
  assumes "tally_ok F V u m e" "w \<in> set F" "v \<noteq> kVoteUnknown"
  shows "tally_ok F V u m (RecordVoteUnlocked w v e)" "w \<in> dom (votes (counter (RecordVoteUnlocked w v e)))"
    "dom (votes (counter e)) \<subseteq> dom (votes (counter (RecordVoteUnlocked w v e)))"
    "has_responded (RecordVoteUnlocked w v e) = has_responded e"
    "election_result (RecordVoteUnlocked w v e) = election_result e"
proof -
  have "counter_ok V (counter e)" "w \<in> V" using assms by (auto simp: tally_ok_def)
  note r = RegisterVote_cases [OF this assms(3)]
  then have d: "dom (votes (fst (RegisterVote w v (counter e)))) = insert w (dom (votes (counter e)))"
    by (auto split: if_splits)
  show "tally_ok F V u m (RecordVoteUnlocked w v e)"
    using assms(1) r d by (auto simp: tally_ok_def RecordVoteUnlocked_def)
  show "w \<in> dom (votes (counter (RecordVoteUnlocked w v e)))"
    "dom (votes (counter e)) \<subseteq> dom (votes (counter (RecordVoteUnlocked w v e)))"
    using d by (auto simp: RecordVoteUnlocked_def)
qed (simp_all add: RecordVoteUnlocked_def)

text \<open>What a handled response does: the voter is counted, or the election is decided.\<close>

definition handled :: "uuid list \<Rightarrow> uuid set \<Rightarrow> uuid \<Rightarrow> int \<Rightarrow> uuid \<Rightarrow> election \<Rightarrow> election \<Rightarrow> bool" where
  "handled F V u m w e e' \<longleftrightarrow>
     tally_ok F V u m e' \<and> has_responded e' = has_responded e \<and>
     dom (votes (counter e)) \<subseteq> dom (votes (counter e')) \<and>
     (decided (election_result e) \<longrightarrow> decided (election_result e')) \<and>
     (decided (election_result e') \<or> w \<in> dom (votes (counter e')))"

lemma record_handled:
  assumes "tally_ok F V u m e" "w \<in> set F" "v \<noteq> kVoteUnknown"
  shows "handled F V u m w e (RecordVoteUnlocked w v e)"
  using Record_result [OF assms] by (auto simp: handled_def)

lemma tally_result:
  assumes "tally_ok F V u m e" "decision r = decision (election_result e) \<or> decision r = kDenied"
  shows "tally_ok F V u m (e\<lparr>election_result := r\<rparr>)"
  using assms by (auto simp: tally_ok_def decided_def)

lemma denied_handled:
  assumes "tally_ok F V u m e" "w \<in> set F"
  shows "handled F V u m w e (HandleVoteDeniedUnlocked w resp e)"
proof -
  have "handled F V u m w e (HandleHigherTermUnlocked resp e)"
    using assms(1) tally_result [OF assms(1), of "(election_result e)\<lparr>decision := kDenied, higher_term := Some (responder_term resp)\<rparr>"]
    by (auto simp: HandleHigherTermUnlocked_def handled_def decided_def)
  then show ?thesis using record_handled [OF assms] by (simp add: HandleVoteDeniedUnlocked_def)
qed

lemma granted_handled:
  assumes "tally_ok F V u m e" "w \<in> set F"
  shows "handled F V u m w e (HandleVoteGrantedUnlocked now w resp e)"
proof -
  obtain r where r: "HandleVoteGrantedUnlocked now w resp e = RecordVoteUnlocked w kGranted (e\<lparr>election_result := r\<rparr>)"
    "decision r = decision (election_result e)"
    unfolding HandleVoteGrantedUnlocked_def Let_def by (auto split: option.split)
  have "tally_ok F V u m (e\<lparr>election_result := r\<rparr>)" using tally_result [OF assms(1)] r(2) by blast
  from record_handled [OF this assms(2), of kGranted] show ?thesis
    unfolding r(1) using r(2) by (auto simp: handled_def decided_def)
qed

lemma response_handled:
  assumes "tally_ok F V u m e" "w \<in> set F" "VoteResponseRpcCallback now w ok resp e = Inr (Some e')"
  shows "handled F V u m w e e' \<and> \<not> has_responded e"
proof -
  let ?e = "e\<lparr>election_result := (election_result e)\<lparr>preelections_not_supported_by_uuid := w\<rparr>\<rparr>"
  have "tally_ok F V u m ?e" using tally_result [OF assms(1)] by simp
  from denied_handled [OF this assms(2), of resp]
  have "handled F V u m w e (HandleVoteDeniedUnlocked w resp ?e)" by (simp add: handled_def decided_def)
  then show ?thesis
    using assms(3) record_handled [OF assms(1,2), of kDenied] denied_handled [OF assms(1,2)] granted_handled [OF assms(1,2)]
    by (auto simp: VoteResponseRpcCallback_def split: if_splits)
qed

lemma election_step_ok:
  assumes "election_step net s s'" "tally_ok F V u m (el s)" "protocol_ok F s"
  shows "tally_ok F V u m (el s') \<and> protocol_ok F s'"
  using assms(1)
proof cases
  case (run_check e b)
  note c = Check_result [OF run_check(3) assms(2)]
  have "voting_follower_uuids e = F" using c(1) by (simp add: tally_ok_def)
  then show ?thesis
    using run_check c assms(3) by (auto simp: protocol_ok_def answered_def decided_def tally_ok_def)
next
  case run_respond
  moreover have "voting_follower_uuids (el s) = F" using assms(2) by (simp add: tally_ok_def)
  ultimately show ?thesis using assms(2,3) by (auto simp: protocol_ok_def answered_def)
next
  case (run_send w us)
  then show ?thesis using assms(2,3) by (auto simp: protocol_ok_def answered_def)
next
  case (run_stop us)
  then show ?thesis using assms(2,3) by (auto simp: protocol_ok_def answered_def)
next
  case (response w now ok resp e)
  have w: "w \<in> set F" using response(2) assms(3) by (auto simp: protocol_ok_def)
  note h = response_handled [OF assms(2) w response(3)]
  have rem: "set (outstanding s) \<subseteq> insert w (set (remove1 w (outstanding s)))" by (metis in_set_remove1 insert_iff subsetI)
  have "set F \<subseteq> to_send F (run s) \<union> set (remove1 w (outstanding s)) \<union> dom (votes (counter e))"
    if nd: "\<not> decided (election_result e)"
  proof -
    have "\<not> decided (election_result (el s))" "dom (votes (counter (el s))) \<subseteq> dom (votes (counter e))" "w \<in> dom (votes (counter e))"
      using h nd unfolding handled_def by blast+
    moreover from this(1) have "set F \<subseteq> to_send F (run s) \<union> set (outstanding s) \<union> dom (votes (counter (el s)))"
      using assms(3) by (simp add: protocol_ok_def)
    ultimately show ?thesis using rem by blast
  qed
  moreover have "set (remove1 w (outstanding s)) \<subseteq> set (outstanding s)" by (rule set_remove1_subset)
  moreover have "responses s = []" using h assms(3) by (auto simp: protocol_ok_def answered_def)
  moreover have "run s \<noteq> Starting" using response(2) assms(3) by (auto simp: protocol_ok_def)
  ultimately show ?thesis using response(1) h assms(3) unfolding protocol_ok_def handled_def answered_def by auto
next
  case (late_response w now ok resp)
  then have "has_responded (el s)" by (auto simp: VoteResponseRpcCallback_def split: if_splits)
  moreover from this have "decided (election_result (el s))" using assms(2) by (simp add: tally_ok_def)
  moreover have "set (remove1 w (outstanding s)) \<subseteq> set (outstanding s)" by (rule set_remove1_subset)
  ultimately show ?thesis using late_response(1) assms(2,3) unfolding protocol_ok_def answered_def by auto
next
  case (check e b)
  note c = Check_result [OF check(3) assms(2)]
  have r: "\<forall>x\<in>set (responses s). x = election_result e"
    using assms(3) c(4) by (cases "has_responded (el s)") (auto simp: protocol_ok_def answered_def)
  show ?thesis
  proof (cases "has_responded (el s)")
    case True
    then have "e = el s" "\<not> b" using c(3,4) by auto
    with True check(1) assms(2,3) show ?thesis by (auto simp: protocol_ok_def answered_def)
  next
    case False
    have "answered s = 0" "to_send F (run s) \<union> set (outstanding s) \<subseteq> set F"
      using False assms(3) by (simp_all add: protocol_ok_def)
    moreover have "\<not> decided (election_result e) \<longrightarrow>
        set F \<subseteq> to_send F (run s) \<union> set (outstanding s) \<union> dom (votes (counter e))"
      using assms(3) c(2,6) unfolding protocol_ok_def by metis
    ultimately show ?thesis
      using False r c(1,3,5) check(1,2) assms(3) unfolding protocol_ok_def answered_def by simp
  qed
next
  case respond
  then show ?thesis using assms(2,3) by (auto simp: protocol_ok_def answered_def)
qed

lemma collect_ok:
  "collect_followers u ps acc = Inr F \<Longrightarrow> distinct acc \<Longrightarrow> u \<notin> set acc \<Longrightarrow>
   distinct F \<and> u \<notin> set F \<and>
   set F = set acc \<union> permanent_uuid ` {p \<in> set ps. permanent_uuid p \<noteq> u \<and> member_type_of p = VOTER}"
  by (induction ps arbitrary: acc) (auto split: if_splits)

lemma CreateElection_ok:
  assumes "CreateElection g req = Inr e"
  defines "u \<equiv> candidate_uuid req"
  obtains F where "tally_ok F (insert u (set F)) u (int (MajoritySize (CountVoters g))) e"
    "protocol_ok F (begin_election e)"
    "set F = permanent_uuid ` {p \<in> set (peers g). permanent_uuid p \<noteq> u \<and> member_type_of p = VOTER}"
    "votes (counter e) = [u \<mapsto> kGranted]" "request e = req"
    "election_result e = ElectionResult (request_preelection req) (candidate_term req)" "card (insert u (set F)) = CountVoters g"
proof -
  let ?n = "CountVoters g"
  let ?empty = "\<lparr>num_voters = int ?n, majority_size = int (MajoritySize ?n), votes = Map.empty, yes_votes = 0, no_votes = 0\<rparr>"
  let ?c = "?empty\<lparr>votes := [u \<mapsto> kGranted], yes_votes := 1\<rparr>"
  obtain c1 where "VoteCounter (int ?n) (int (MajoritySize ?n)) = Inr c1"
    using assms(1) unfolding CreateElection_def Let_def bind_result_eq_Inr by blast
  then have "VoteCounter (int ?n) (int (MajoritySize ?n)) = Inr ?empty" and n0: "0 < ?n"
    by (auto simp: VoteCounter_def split: if_splits)
  then have le: "LeaderElection g req ?c (request_preelection req) = Inr e"
    using assms(1) by (simp add: CreateElection_def RegisterVote_def Let_def u_def)
  then obtain F where F: "collect_followers u (peers g) [] = Inr F"
      "1 + int (length F) = int ?n"
      "e = \<lparr>has_responded = False, request = req,
            election_result = ElectionResult (request_preelection req) (candidate_term req), counter = ?c, voting_follower_uuids = F\<rparr>"
    by (auto simp: LeaderElection_def bind_result_eq_Inr GetTotalVotesCounted_def u_def split: if_splits)
  have d: "distinct F" "u \<notin> set F" "set F = permanent_uuid ` {p \<in> set (peers g). permanent_uuid p \<noteq> u \<and> member_type_of p = VOTER}"
    using collect_ok [OF F(1)] by auto
  have n: "card (insert u (set F)) = ?n" using d(1,2) F(2) distinct_card [of F] by simp
  moreover have "voted kGranted ?c = {u}" "voted kDenied ?c = {}" "voted kVoteUnknown ?c = {}"
    by (auto simp: voted_def split: if_splits)
  ultimately have "counter_ok (insert u (set F)) ?c" by (simp add: counter_ok_def)
  then have "tally_ok F (insert u (set F)) u (int (MajoritySize ?n)) e"
    by (auto simp: tally_ok_def F(3) ElectionResult_def)
  moreover have "protocol_ok F (begin_election e)"
    by (auto simp: protocol_ok_def answered_def F(3))
  ultimately show thesis using d(3) n by (intro that) (assumption | simp add: F(3))+
qed

lemma election_reachable_ok:
  assumes "election_reachable net e s" "tally_ok F V u m e"
    "protocol_ok F (begin_election e)"
  shows "tally_ok F V u m (el s) \<and> protocol_ok F s"
  using assms(1) by induction (use assms(2,3) election_step_ok in auto)

text \<open>All of it together, for an election in configuration \<open>g\<close>: only voters are counted.\<close>

definition system_ok :: "raft_config \<Rightarrow> uuid \<Rightarrow> election_system \<Rightarrow> bool" where
  "system_ok g u s \<longleftrightarrow> (\<exists>F. insert u (set F) \<subseteq> voters g \<and>
     tally_ok F (insert u (set F)) u (int (MajoritySize (CountVoters g))) (el s) \<and> protocol_ok F s)"

lemma created_ok:
  assumes "wf_config g" "CreateElection g req = Inr e"
  shows "system_ok g (candidate_uuid req) (begin_election e)"
proof -
  let ?u = "candidate_uuid req"
  obtain F where F: "tally_ok F (insert ?u (set F)) ?u (int (MajoritySize (CountVoters g))) e" "protocol_ok F (begin_election e)"
    "set F = permanent_uuid ` {p \<in> set (peers g). permanent_uuid p \<noteq> ?u \<and> member_type_of p = VOTER}"
    "card (insert ?u (set F)) = CountVoters g"
    by (rule CreateElection_ok [OF assms(2)])
  have V: "insert ?u (set F) = insert ?u (voters g)" using F(3) wf_voters(1) [OF assms(1)] by auto
  then have "card (insert ?u (voters g)) = card (voters g)" using F(4) wf_voters(2) [OF assms(1)] by simp
  then have "?u \<in> voters g" using card_voters(1) [of g] by (metis card_insert_disjoint n_not_Suc_n)
  then have "insert ?u (set F) \<subseteq> voters g" using V by auto
  then show ?thesis unfolding system_ok_def using F(1,2) by (intro exI [of _ F]) simp
qed

lemma system_step: "election_step net s s' \<Longrightarrow> system_ok g u s \<Longrightarrow> system_ok g u s'"
  unfolding system_ok_def using election_step_ok by metis

lemma system_reachable:
  assumes "election_reachable net e s" "wf_config g" "CreateElection g req = Inr e"
  shows "system_ok g (candidate_uuid req) s"
  using assms(1) by induction (use created_ok [OF assms(2,3)] system_step in blast)+

lemma system_majority:
  assumes "system_ok g u s" "decision (election_result (el s)) = kGranted"
  shows "majority g (voted kGranted (counter (el s)))"
proof -
  obtain F where F: "insert u (set F) \<subseteq> voters g" "tally_ok F (insert u (set F)) u (int (MajoritySize (CountVoters g))) (el s)"
    using assms(1) by (auto simp: system_ok_def)
  then have "dom (votes (counter (el s))) \<subseteq> voters g"
    "int (MajoritySize (CountVoters g)) \<le> int (card (voted kGranted (counter (el s))))"
    using assms(2) by (auto simp: tally_ok_def counter_ok_def)
  with voted_dom [of kGranted "counter (el s)"] show ?thesis by (auto simp: majority_def)
qed

lemma stuck_election:
  assumes "tally_ok F V u m (el s)" "protocol_ok F s" "\<And>s'. \<not> election_step net s s'"
  shows "run s = RunDone \<and> outstanding s = [] \<and> to_check s = 0 \<and> responding s = 0"
proof -
  have "run s = RunDone"
  proof (cases "run s")
    case (Sending us)
    then show ?thesis
      using assms(3) election_step.run_send [of s] election_step.run_stop [of s us] by (cases us) blast+
  qed (use assms(3) election_step.run_check [of s] election_step.run_respond [of s] surj_pair in \<open>metis | simp\<close>)+
  moreover have "to_check s = 0" using assms(3) election_step.check [of s] by (metis neq0_conv surj_pair)
  moreover have "responding s = 0" using assms(3) election_step.respond [of s] by blast
  moreover have "outstanding s = []"
  proof (rule ccontr)
    assume "outstanding s \<noteq> []"
    then obtain w where w: "w \<in> set (outstanding s)" by (cases "outstanding s") auto
    then have "w \<in> set (voting_follower_uuids (el s))" using assms(1,2) by (auto simp: protocol_ok_def tally_ok_def)
    then have "VoteResponseRpcCallback 0 w False undefined (el s) =
        Inr (if has_responded (el s) then None else Some (RecordVoteUnlocked w kDenied (el s)))"
      by (simp add: VoteResponseRpcCallback_def)
    then show False
      using assms(3) election_step.response [OF w] election_step.late_response [OF w] by (metis (full_types))
  qed
  ultimately show ?thesis by blast
qed

text \<open>C9. The decision callback. Under every interleaving of the candidate's thread and the responses, the
  callback is called at most once, with a decided result that never changes afterwards; and once no
  thread has anything left to do, because every request was answered or failed, it has been called.\<close>

theorem election_calls_back_once:
  assumes "CreateElection g req = Inr e" "election_reachable net e s"
  shows "length (responses s) \<le> 1 \<and>
    (\<forall>r\<in>set (responses s). decided r \<and> r = election_result (el s)) \<and>
    ((\<nexists>s'. election_step net s s') \<longrightarrow> length (responses s) = 1)"
proof -
  obtain F where F: "tally_ok F (insert (candidate_uuid req) (set F)) (candidate_uuid req) (int (MajoritySize (CountVoters g))) (el s)" "protocol_ok F s"
    by (rule CreateElection_ok [OF assms(1)]) (use election_reachable_ok [OF assms(2)] in blast)
  have le: "length (responses s) \<le> 1" "responses s \<noteq> [] \<longrightarrow> has_responded (el s)"
    using F(2) by (auto simp: protocol_ok_def answered_def split: if_splits)
  have dec: "\<forall>r\<in>set (responses s). decided r \<and> r = election_result (el s)"
    using F le(2) by (auto simp: protocol_ok_def tally_ok_def)
  have "length (responses s) = 1" if stuck: "\<nexists>s'. election_step net s s'"
  proof -
    have st: "run s = RunDone" "outstanding s = []" "to_check s = 0" "responding s = 0"
      using stuck_election [OF F] stuck by blast+
    have "has_responded (el s)"
    proof (rule ccontr)
      assume nr: "\<not> has_responded (el s)"
      then have nd: "\<not> decided (election_result (el s))" "GetDecision (counter (el s)) = kVoteUnknown"
        using F(2) st by (auto simp: protocol_ok_def)
      then have "set F \<subseteq> dom (votes (counter (el s)))" using F(2) st by (auto simp: protocol_ok_def)
      then have "dom (votes (counter (el s))) = insert (candidate_uuid req) (set F)"
        using F(1) by (auto simp: tally_ok_def counter_ok_def)
      then show False using all_votes_decide F(1) nd(2) by (auto simp: tally_ok_def)
    qed
    then show ?thesis using F(2) st by (auto simp: protocol_ok_def answered_def)
  qed
  with le(1) dec show ?thesis by blast
qed

text \<open>C38. Two candidates cannot both win. If no voter backs two candidates, then of two elections over the
  same verified configuration, each with any interleaving, at most one is decided in favour of its candidate.\<close>

theorem election_one_winner:
  assumes "VerifyRaftConfig g st = Inr ()"
    and "CreateElection g req1 = Inr e1" "election_reachable net1 e1 s1" "decision (election_result (el s1)) = kGranted"
    and "CreateElection g req2 = Inr e2" "election_reachable net2 e2 s2" "decision (election_result (el s2)) = kGranted"
    and "\<And>v. votes (counter (el s1)) v = Some kGranted \<Longrightarrow> backs v = Some (candidate_uuid req1)"
    and "\<And>v. votes (counter (el s2)) v = Some kGranted \<Longrightarrow> backs v = Some (candidate_uuid req2)"
  shows "candidate_uuid req1 = candidate_uuid req2"
proof -
  note wf = verified_wf [OF assms(1)]
  show ?thesis
    by (rule config_quorum.one_winner [OF system_majority [OF system_reachable [OF assms(3) wf assms(2)] assms(4)]
          system_majority [OF system_reachable [OF assms(6) wf assms(5)] assms(7)], of backs])
      (use assms(8,9) in \<open>auto simp: voted_def\<close>)
qed

definition solo_config :: raft_config where
  "solo_config = \<lparr>opid_index = Some 1, peers = [sample_peer ''a'']\<rparr>"

definition solo_request :: vote_request where
  "solo_request = \<lparr>candidate_uuid = ''a'', candidate_term = 5, ignore_live_leader = False, request_preelection = False,
     last_received = OpId 4 7\<rparr>"

definition solo_election :: "bool \<Rightarrow> election_vote \<Rightarrow> election" where
  "solo_election done d =
     \<lparr>has_responded = done, request = solo_request,
      election_result = (ElectionResult False 5)\<lparr>decision := d\<rparr>,
      counter = \<lparr>num_voters = 1, majority_size = 1, votes = [''a'' \<mapsto> kGranted], yes_votes = 1, no_votes = 0\<rparr>,
      voting_follower_uuids = []\<rparr>"

lemma solo_created: "CreateElection solo_config solo_request = Inr (solo_election False kVoteUnknown)"
  by (simp add: CreateElection_def solo_config_def sample_peer_def CountVoters_def CountMemberType_filter member_type_of_def
      permanent_uuid_def MajoritySize_def VoteCounter_def RegisterVote_def LeaderElection_def GetTotalVotesCounted_def
      solo_election_def ElectionResult_def solo_request_def)

definition solo_end :: "election_result list \<Rightarrow> run_pc \<Rightarrow> election_system" where
  "solo_end rs pc = \<lparr>el = solo_election True kGranted, run = pc, outstanding = [], to_check = 0,
     responding = 0, responses = rs\<rparr>"

lemma solo_check: "election_step net (begin_election (solo_election False kVoteUnknown)) (solo_end [] StartResponding)"
  using election_step.run_check [of "begin_election (solo_election False kVoteUnknown)" "solo_election True kGranted" True]
  by (simp add: CheckForDecision_def solo_election_def GetDecision_def decided_def ElectionResult_def solo_end_def)

lemma solo_respond:
  "election_step net (solo_end [] StartResponding) (solo_end [(ElectionResult False 5)\<lparr>decision := kGranted\<rparr>] (Sending []))"
  using election_step.run_respond [of "solo_end [] StartResponding"] by (simp add: solo_end_def solo_election_def)

lemma solo_run:
  "election_reachable net (solo_election False kVoteUnknown)
     (solo_end [(ElectionResult False 5)\<lparr>decision := kGranted\<rparr>] (Sending []))"
  using election_reachable.step [OF election_reachable.step [OF election_reachable.start solo_check] solo_respond] .

theorem election_calls_back_once_witness: "decided ((ElectionResult False 5)\<lparr>decision := kGranted\<rparr>)"
  using election_calls_back_once [OF solo_created solo_run] by (auto simp: solo_end_def)

theorem election_one_winner_witness:
  "VerifyRaftConfig solo_config COMMITTED_QUORUM = Inr () \<and> candidate_uuid solo_request = ''a''"
proof -
  let ?s = "solo_end [(ElectionResult False 5)\<lparr>decision := kGranted\<rparr>] (Sending [])"
  have v: "VerifyRaftConfig solo_config COMMITTED_QUORUM = Inr ()"
    by (simp add: VerifyRaftConfig_def solo_config_def sample_peer_def permanent_uuid_def)
  have d: "decision (election_result (el ?s)) = kGranted" by (simp add: solo_end_def solo_election_def)
  have b: "votes (counter (el ?s)) w = Some kGranted \<Longrightarrow> [''a'' \<mapsto> ''a''] w = Some (candidate_uuid solo_request)" for w
    by (simp add: solo_end_def solo_election_def solo_request_def split: if_splits)
  show ?thesis
    using election_one_winner [OF v solo_created solo_run d solo_created solo_run d, of "[''a'' \<mapsto> ''a'']"] b v by (simp add: solo_request_def)
qed

end
