(* ===== verification/ConsensusMeta.thy ===== *)
theory ConsensusMeta
  imports Quorum
begin

text \<open>
  The consensus metadata of a tablet replica, \<^verbatim>\<open>src/yb/consensus/consensus_meta.cc\<close>: the term, vote and
  configuration that are kept on disk, the leader and the pending configuration that are not, and the
  role and term packed into one word for readers without a lock. The file is the part \<open>disk\<close> of the state;
  writing it is atomic, and whether an input or output operation succeeds is an argument.
\<close>

section \<open>Role and term in a word\<close>

fun role_value :: "role \<Rightarrow> nat" where
  "role_value FOLLOWER = 0"
| "role_value LEADER = 1"
| "role_value LEARNER = 2"
| "role_value NON_PARTICIPANT = 3"
| "role_value READ_REPLICA = 4"
| "role_value UNKNOWN_ROLE = 7"

text \<open>The cast of a number to the enumeration; the numbers 5 and 6 are no role.\<close>

definition role_of_value :: "nat \<Rightarrow> role option" where
  "role_of_value n = find (\<lambda>r. role_value r = n) [FOLLOWER, LEADER, LEARNER, NON_PARTICIPANT, READ_REPLICA, UNKNOWN_ROLE]"

definition PackRoleAndTerm :: "role \<Rightarrow> int \<Rightarrow> uint64 result" where
  "PackRoleAndTerm r term =
     (if \<not> (word_of_int term :: uint64) < push_bit (8 * 8 - 3) 1 then Inl Fatal
      else Inr (of_nat (role_value r) OR push_bit 3 (word_of_int term)))"

definition UnpackTerm :: "uint64 \<Rightarrow> int" where
  "UnpackTerm w = sint (drop_bit 3 w)"

definition UnpackRole :: "uint64 \<Rightarrow> role option" where
  "UnpackRole w = role_of_value (unat (w AND (push_bit 3 1 - 1)))"

section \<open>State\<close>

record cmeta_pb =
  pb_committed_config :: "raft_config option"
  pb_current_term :: "int option"
  pb_voted_for :: "uuid option"

record cmeta =
  cm_peer_uuid :: uuid
  cm_leader_uuid :: uuid
  cm_pending_config :: "raft_config option"
  cm_active_role :: role
  cm_pb :: cmeta_pb
  role_and_term_cache :: uint64
  disk :: "cmeta_pb option"

definition no_config :: raft_config where "no_config = \<lparr>opid_index = None, peers = []\<rparr>"

definition current_term :: "cmeta \<Rightarrow> int" where
  "current_term m = (case pb_current_term (cm_pb m) of None \<Rightarrow> 0 | Some t \<Rightarrow> t)"

definition committed_config :: "cmeta \<Rightarrow> raft_config" where
  "committed_config m = (case pb_committed_config (cm_pb m) of None \<Rightarrow> no_config | Some g \<Rightarrow> g)"

definition active_config :: "cmeta \<Rightarrow> raft_config" where
  "active_config m = (case cm_pending_config m of Some g \<Rightarrow> g | None \<Rightarrow> committed_config m)"

section \<open>Operations\<close>

datatype config_type = CONSENSUS_CONFIG_UNKNOWN | CONSENSUS_CONFIG_COMMITTED | CONSENSUS_CONFIG_ACTIVE

definition ToConsensusStatePB :: "config_type \<Rightarrow> cmeta \<Rightarrow> consensus_state result" where
  "ToConsensusStatePB t m =
     (if t \<noteq> CONSENSUS_CONFIG_ACTIVE \<and> t \<noteq> CONSENSUS_CONFIG_COMMITTED then Inl Fatal
      else if t = CONSENSUS_CONFIG_ACTIVE
      then Inr \<lparr>cs_current_term = Some (current_term m), cs_leader_uuid = Some (cm_leader_uuid m),
                cs_config = Some (active_config m)\<rparr>
      else Inr \<lparr>cs_current_term = Some (current_term m),
                cs_leader_uuid = (if IsRaftConfigVoter (cm_leader_uuid m) (committed_config m)
                                  then Some (cm_leader_uuid m) else None),
                cs_config = Some (committed_config m)\<rparr>)"

definition UpdateRoleAndTermCache :: "cmeta \<Rightarrow> cmeta result" where
  "UpdateRoleAndTermCache m =
     bind_result (PackRoleAndTerm (cm_active_role m) (if pb_current_term (cm_pb m) \<noteq> None then current_term m else 0))
       (\<lambda>w. Inr (m\<lparr>role_and_term_cache := w\<rparr>))"

definition UpdateActiveRole :: "cmeta \<Rightarrow> cmeta result" where
  "UpdateActiveRole m =
     bind_result (ToConsensusStatePB CONSENSUS_CONFIG_ACTIVE m) (\<lambda>cstate.
       UpdateRoleAndTermCache (m\<lparr>cm_active_role := GetConsensusRole (cm_peer_uuid m) cstate\<rparr>))"

definition GetRoleAndTerm :: "cmeta \<Rightarrow> role option \<times> int" where
  "GetRoleAndTerm m = (UnpackRole (role_and_term_cache m), UnpackTerm (role_and_term_cache m))"

definition ConsensusMetadata :: "uuid \<Rightarrow> cmeta_pb option \<Rightarrow> cmeta result" where
  "ConsensusMetadata u d =
     UpdateRoleAndTermCache
       \<lparr>cm_peer_uuid = u, cm_leader_uuid = '''', cm_pending_config = None, cm_active_role = UNKNOWN_ROLE,
        cm_pb = \<lparr>pb_committed_config = None, pb_current_term = None, pb_voted_for = None\<rparr>,
        role_and_term_cache = 0, disk = d\<rparr>"

definition set_current_term :: "int \<Rightarrow> cmeta \<Rightarrow> cmeta result" where
  "set_current_term t m = UpdateRoleAndTermCache (m\<lparr>cm_pb := (cm_pb m)\<lparr>pb_current_term := Some t\<rparr>\<rparr>)"

definition clear_voted_for :: "cmeta \<Rightarrow> cmeta" where
  "clear_voted_for m = m\<lparr>cm_pb := (cm_pb m)\<lparr>pb_voted_for := None\<rparr>\<rparr>"

definition set_voted_for :: "uuid \<Rightarrow> cmeta \<Rightarrow> cmeta" where
  "set_voted_for u m = m\<lparr>cm_pb := (cm_pb m)\<lparr>pb_voted_for := Some u\<rparr>\<rparr>"

definition set_committed_config :: "raft_config \<Rightarrow> cmeta \<Rightarrow> cmeta result" where
  "set_committed_config g m =
     (let m = m\<lparr>cm_pb := (cm_pb m)\<lparr>pb_committed_config := Some g\<rparr>\<rparr>
      in if cm_pending_config m = None then UpdateActiveRole m else Inr m)"

definition clear_pending_config :: "cmeta \<Rightarrow> cmeta result" where
  "clear_pending_config m = UpdateActiveRole (m\<lparr>cm_pending_config := None\<rparr>)"

definition set_pending_config :: "raft_config \<Rightarrow> cmeta \<Rightarrow> cmeta result" where
  "set_pending_config g m = UpdateActiveRole (m\<lparr>cm_pending_config := Some g\<rparr>)"

definition set_leader_uuid :: "uuid \<Rightarrow> cmeta \<Rightarrow> cmeta result" where
  "set_leader_uuid u m = UpdateActiveRole (m\<lparr>cm_leader_uuid := u\<rparr>)"

definition clear_leader_uuid :: "cmeta \<Rightarrow> cmeta result" where
  "clear_leader_uuid m = set_leader_uuid '''' m"

definition MergeCommittedConsensusStatePB :: "consensus_state \<Rightarrow> cmeta \<Rightarrow> cmeta result" where
  "MergeCommittedConsensusStatePB c m =
     (let t = (case cs_current_term c of None \<Rightarrow> 0 | Some t \<Rightarrow> t) in
      bind_result (if t > current_term m
                   then bind_result (set_current_term t m) (\<lambda>m. Inr (clear_voted_for m)) else Inr m) (\<lambda>m.
      bind_result (set_leader_uuid '''' m) (\<lambda>m.
      bind_result (set_committed_config (config c) m) clear_pending_config)))"

text \<open>
  The state after the call, and its status. \<open>io\<close>: the error of the file system, if any, which leaves the old file. That the
  file is replaced and its size cannot be read afterwards is left out with the size.
\<close>

definition Flush :: "status option \<Rightarrow> cmeta \<Rightarrow> cmeta \<times> unit result" where
  "Flush io m =
     (case VerifyRaftConfig (committed_config m) COMMITTED_QUORUM of
        Inl err \<Rightarrow> (m, Inl err)
      | Inr _ \<Rightarrow> (case io of Some err \<Rightarrow> (m, Inl err) | None \<Rightarrow> (m\<lparr>disk := Some (cm_pb m)\<rparr>, Inr ())))"

definition Create :: "status option \<Rightarrow> uuid \<Rightarrow> raft_config \<Rightarrow> int \<Rightarrow> cmeta_pb option \<Rightarrow> cmeta result" where
  "Create io u g t d =
     bind_result (ConsensusMetadata u d) (\<lambda>m.
     bind_result (set_committed_config g m) (\<lambda>m.
     bind_result (set_current_term t m) (\<lambda>m.
       case Flush io m of (m, Inr _) \<Rightarrow> Inr m | (_, Inl err) \<Rightarrow> Inl err)))"

definition Load :: "uuid \<Rightarrow> cmeta_pb option \<Rightarrow> cmeta result" where
  "Load u d =
     bind_result (ConsensusMetadata u d) (\<lambda>m.
       case d of None \<Rightarrow> Inl NotFound | Some pb \<Rightarrow> UpdateActiveRole (m\<lparr>cm_pb := pb\<rparr>))"

definition DeleteOnDiskData :: "status option \<Rightarrow> cmeta_pb option \<Rightarrow> cmeta_pb option \<times> unit result" where
  "DeleteOnDiskData io d =
     (case d of None \<Rightarrow> (d, Inr ()) | Some _ \<Rightarrow> (case io of None \<Rightarrow> (None, Inr ()) | Some err \<Rightarrow> (d, Inl err)))"

section \<open>The cached role and term\<close>

lemma pack_in_range:
  assumes "0 \<le> t" "t < 2 ^ 61"
  shows "PackRoleAndTerm r t = Inr (of_nat (role_value r) OR push_bit 3 (word_of_int t))"
proof -
  have "uint (word_of_int t :: uint64) = t" using assms by (simp add: uint_word_of_int)
  moreover have "uint (push_bit 61 1 :: uint64) = 2 ^ 61" by simp
  ultimately have "(word_of_int t :: uint64) < push_bit 61 1" using assms(2) by (simp add: word_less_def)
  then show ?thesis by (simp add: PackRoleAndTerm_def)
qed

lemma pack_facts:
  assumes "PackRoleAndTerm r t = Inr w" "- (2 ^ 63) \<le> t" "t < 2 ^ 63"
  shows "UnpackRole w = Some r" "UnpackTerm w = t" "0 \<le> t"
proof -
  let ?t = "word_of_int t :: uint64"
  have lt: "?t < push_bit 61 1" and w: "w = of_nat (role_value r) OR push_bit 3 ?t"
    using assms(1) by (auto simp: PackRoleAndTerm_def split: if_splits)
  have u: "uint ?t < 2 ^ 61" using lt unfolding word_less_def by simp
  have ut: "uint ?t = t mod 2 ^ 64" by (simp add: uint_word_of_int)
  show t0: "0 \<le> t"
  proof (rule ccontr)
    assume "\<not> 0 \<le> t"
    then have "(t + 2 ^ 64) mod 2 ^ 64 = t + 2 ^ 64" using assms(2) by (intro mod_pos_pos_trivial) simp_all
    then have "t mod 2 ^ 64 = t + 2 ^ 64" by simp
    with u ut assms(2) show False by simp
  qed
  have tt: "uint ?t = t" using ut t0 assms(3) by simp
  have role: "take_bit 3 (of_nat (role_value r) :: uint64) = of_nat (role_value r)"
    "drop_bit 3 (of_nat (role_value r) :: uint64) = 0" by (cases r; simp)+
  have un: "unat ?t < 2 ^ 61" using lt unfolding word_less_nat_alt by simp
  have "unat (push_bit 3 ?t) = unat ?t * 8" using un by (simp add: push_bit_eq_mult unat_word_ariths)
  then have "unat (drop_bit 3 (push_bit 3 ?t)) = unat ?t" unfolding unat_drop_bit_div by simp
  then have "drop_bit 3 (push_bit 3 ?t) = ?t" by (simp only: word_unat_eq_iff)
  then have "drop_bit 3 w = ?t" unfolding w drop_bit_or role by simp
  moreover have "sint ?t = t"
    unfolding sint_uint tt using t0 u tt by (intro signed_take_bit_int_eq_self) simp_all
  ultimately show "UnpackTerm w = t" by (simp add: UnpackTerm_def)
  have "w AND (push_bit 3 1 - 1) = take_bit 3 w" by (simp add: take_bit_eq_mask mask_eq_exp_minus_1)
  also have "\<dots> = of_nat (role_value r)" unfolding w take_bit_or role by (simp add: take_bit_push_bit)
  finally show "UnpackRole w = Some r"
    unfolding UnpackRole_def by (cases r) (simp_all add: role_of_value_def)
qed

definition in_int64 :: "int \<Rightarrow> bool" where
  "in_int64 t \<longleftrightarrow> - (2 ^ 63) \<le> t \<and> t < 2 ^ 63"

definition active_state :: "cmeta \<Rightarrow> consensus_state" where
  "active_state m = \<lparr>cs_current_term = Some (current_term m), cs_leader_uuid = Some (cm_leader_uuid m),
     cs_config = Some (active_config m)\<rparr>"

definition role_ok :: "cmeta \<Rightarrow> bool" where
  "role_ok m \<longleftrightarrow> cm_active_role m = GetConsensusRole (cm_peer_uuid m) (active_state m)"

definition cmeta_ok :: "cmeta \<Rightarrow> bool" where
  "cmeta_ok m \<longleftrightarrow> in_int64 (current_term m) \<and> role_ok m \<and>
     PackRoleAndTerm (cm_active_role m) (current_term m) = Inr (role_and_term_cache m)"

lemma active_state_pb: "ToConsensusStatePB CONSENSUS_CONFIG_ACTIVE m = Inr (active_state m)"
  by (simp add: ToConsensusStatePB_def active_state_def)

lemma cached_term: "(if pb_current_term (cm_pb m) \<noteq> None then current_term m else 0) = current_term m"
  by (auto simp: current_term_def)

lemma UpdateRoleAndTermCache_iff:
  "UpdateRoleAndTermCache m = Inr m' \<longleftrightarrow>
     (\<exists>w. PackRoleAndTerm (cm_active_role m) (current_term m) = Inr w \<and> m' = m\<lparr>role_and_term_cache := w\<rparr>)"
  unfolding UpdateRoleAndTermCache_def cached_term bind_result_eq_Inr by auto

lemma cache_irrelevant [simp]:
  "current_term (m\<lparr>role_and_term_cache := w\<rparr>) = current_term m" "active_state (m\<lparr>role_and_term_cache := w\<rparr>) = active_state m"
  "current_term (m\<lparr>cm_active_role := r\<rparr>) = current_term m" "active_state (m\<lparr>cm_active_role := r\<rparr>) = active_state m"
  "current_term (m\<lparr>disk := d\<rparr>) = current_term m" "active_state (m\<lparr>disk := d\<rparr>) = active_state m"
  by (simp_all add: current_term_def active_state_def active_config_def committed_config_def split: option.split)

lemma UpdateRoleAndTermCache_ok:
  "UpdateRoleAndTermCache m = Inr m' \<Longrightarrow> in_int64 (current_term m) \<Longrightarrow> role_ok m \<Longrightarrow> cmeta_ok m'"
  by (auto simp: UpdateRoleAndTermCache_iff cmeta_ok_def role_ok_def)

lemma UpdateActiveRole_ok:
  "UpdateActiveRole m = Inr m' \<Longrightarrow> in_int64 (current_term m) \<Longrightarrow> cmeta_ok m'"
  unfolding UpdateActiveRole_def active_state_pb bind_result_simps
  by (erule UpdateRoleAndTermCache_ok) (simp_all add: role_ok_def)

lemma UpdateActiveRole_pb:
  "UpdateActiveRole m = Inr m' \<Longrightarrow> cm_pb m' = cm_pb m \<and> disk m' = disk m \<and> cm_peer_uuid m' = cm_peer_uuid m \<and>
     cm_leader_uuid m' = cm_leader_uuid m \<and> cm_pending_config m' = cm_pending_config m"
  unfolding UpdateActiveRole_def active_state_pb bind_result_simps by (auto simp: UpdateRoleAndTermCache_iff)

text \<open>The same term on both sides of an update means that the term of the state is kept.\<close>

lemma current_term_pb: "current_term m = current_term m'" if "pb_current_term (cm_pb m) = pb_current_term (cm_pb m')"
  using that by (simp add: current_term_def)

lemma role_depends:
  assumes "role_ok m" "cm_active_role m' = cm_active_role m" "cm_peer_uuid m' = cm_peer_uuid m"
    "cm_leader_uuid m' = cm_leader_uuid m" "active_config m' = active_config m"
  shows "role_ok m'"
proof -
  have "GetConsensusRole u (active_state m') = GetConsensusRole u (active_state m)" for u
    using assms(4,5) by (simp add: GetConsensusRole_def active_state_def leader_uuid_def config_def)
  with assms show ?thesis by (simp add: role_ok_def)
qed

inductive cmeta_call :: "cmeta \<Rightarrow> cmeta \<Rightarrow> bool" where
  set_term: "in_int64 t \<Longrightarrow> set_current_term t m = Inr m' \<Longrightarrow> cmeta_call m m'"
| clear_vote: "cmeta_call m (clear_voted_for m)"
| set_vote: "cmeta_call m (set_voted_for u m)"
| set_committed: "set_committed_config g m = Inr m' \<Longrightarrow> cmeta_call m m'"
| clear_pending: "clear_pending_config m = Inr m' \<Longrightarrow> cmeta_call m m'"
| set_pending: "set_pending_config g m = Inr m' \<Longrightarrow> cmeta_call m m'"
| set_leader: "set_leader_uuid u m = Inr m' \<Longrightarrow> cmeta_call m m'"
| flush: "cmeta_call m (fst (Flush io m))"

lemma set_current_term_ok:
  assumes "set_current_term t m = Inr m'" "in_int64 t" "role_ok m"
  shows "cmeta_ok m'"
proof (rule UpdateRoleAndTermCache_ok)
  let ?m = "m\<lparr>cm_pb := (cm_pb m)\<lparr>pb_current_term := Some t\<rparr>\<rparr>"
  show "UpdateRoleAndTermCache ?m = Inr m'" using assms(1) by (simp add: set_current_term_def)
  show "in_int64 (current_term ?m)" using assms(2) by (simp add: current_term_def)
  show "role_ok ?m" using assms(3)
    by (rule role_depends) (simp_all add: active_config_def committed_config_def split: option.split)
qed

lemma cmeta_same:
  assumes "cmeta_ok m" "cm_pb m' = (cm_pb m)\<lparr>pb_voted_for := v\<rparr>" "cm_active_role m' = cm_active_role m"
    "cm_peer_uuid m' = cm_peer_uuid m" "cm_leader_uuid m' = cm_leader_uuid m"
    "cm_pending_config m' = cm_pending_config m" "role_and_term_cache m' = role_and_term_cache m"
  shows "cmeta_ok m'"
proof -
  have "current_term m' = current_term m" using assms(2) by (simp add: current_term_def)
  moreover have "active_config m' = active_config m" using assms(2,6) by (simp add: active_config_def committed_config_def split: option.split)
  then have "role_ok m'" using assms role_depends [of m m'] by (simp add: cmeta_ok_def)
  ultimately show ?thesis using assms by (simp add: cmeta_ok_def)
qed

lemma cmeta_call_ok:
  assumes "cmeta_call m m'" "cmeta_ok m"
  shows "cmeta_ok m'"
  using assms(1)
proof cases
  case (set_term t)
  then show ?thesis using set_current_term_ok assms(2) by (simp add: cmeta_ok_def)
next
  case clear_vote
  then show ?thesis using assms(2) cmeta_same [of m m' None] by (simp add: clear_voted_for_def)
next
  case (set_vote u)
  then show ?thesis using assms(2) cmeta_same [of m m' "Some u"] by (simp add: set_voted_for_def)
next
  case (set_committed g)
  let ?m = "m\<lparr>cm_pb := (cm_pb m)\<lparr>pb_committed_config := Some g\<rparr>\<rparr>"
  have t: "in_int64 (current_term ?m)" "current_term ?m = current_term m"
    using assms(2) by (simp_all add: cmeta_ok_def current_term_def)
  show ?thesis
  proof (cases "cm_pending_config m")
    case None
    then show ?thesis using set_committed UpdateActiveRole_ok [OF _ t(1)] by (simp add: set_committed_config_def)
  next
    case (Some p)
    then have m': "m' = ?m" using set_committed by (simp add: set_committed_config_def)
    have "role_ok ?m" using assms(2) role_depends [of m ?m] Some by (simp add: cmeta_ok_def active_config_def)
    then show ?thesis using assms(2) t(2) m' by (simp add: cmeta_ok_def)
  qed
next
  case (flush io)
  then have "cm_pb m' = (cm_pb m)\<lparr>pb_voted_for := pb_voted_for (cm_pb m)\<rparr>" "cm_active_role m' = cm_active_role m"
    "cm_peer_uuid m' = cm_peer_uuid m" "cm_leader_uuid m' = cm_leader_uuid m"
    "cm_pending_config m' = cm_pending_config m" "role_and_term_cache m' = role_and_term_cache m"
    by (simp_all add: Flush_def split: sum.split option.split)
  then show ?thesis by (rule cmeta_same [OF assms(2)])
qed (use assms(2) UpdateActiveRole_ok in
    \<open>auto simp: clear_pending_config_def set_pending_config_def set_leader_uuid_def cmeta_ok_def current_term_def\<close>)

inductive cmeta_reachable :: "cmeta \<Rightarrow> bool" where
  create: "in_int64 t \<Longrightarrow> Create io u g t d = Inr m \<Longrightarrow> cmeta_reachable m"
| load: "in_int64 t \<Longrightarrow> pb_current_term pb = Some t \<Longrightarrow> Load u (Some pb) = Inr m \<Longrightarrow> cmeta_reachable m"
| call: "cmeta_reachable m \<Longrightarrow> cmeta_call m m' \<Longrightarrow> cmeta_reachable m'"

lemma cmeta_reachable_ok: "cmeta_reachable m \<Longrightarrow> cmeta_ok m"
proof (induction rule: cmeta_reachable.induct)
  case (create t io u g d m)
  then obtain m1 m2 m3 where c: "ConsensusMetadata u d = Inr m1" "set_committed_config g m1 = Inr m2"
    "set_current_term t m2 = Inr m3" and f: "(case Flush io m3 of (m, Inr _) \<Rightarrow> Inr m | (_, Inl err) \<Rightarrow> Inl err) = Inr m"
    unfolding Create_def bind_result_eq_Inr by blast
  have fl: "fst (Flush io m3) = m" using f by (cases "Flush io m3"; cases "snd (Flush io m3)") auto
  have m1: "cm_pending_config m1 = None" "pb_current_term (cm_pb m1) = None"
    using c(1) by (auto simp: ConsensusMetadata_def UpdateRoleAndTermCache_iff)
  have "cmeta_ok m2"
    by (rule UpdateActiveRole_ok [of "m1\<lparr>cm_pb := (cm_pb m1)\<lparr>pb_committed_config := Some g\<rparr>\<rparr>"])
      (use c(2) m1 in \<open>simp_all add: set_committed_config_def current_term_def in_int64_def\<close>)
  then have "cmeta_ok m3" using set_current_term_ok [OF c(3) create(1)] by (simp add: cmeta_ok_def)
  then show ?case using cmeta_call_ok [OF cmeta_call.flush] fl by blast
next
  case (load t pb u m)
  then obtain m1 where "UpdateActiveRole (m1\<lparr>cm_pb := pb\<rparr>) = Inr m" by (auto simp: Load_def bind_result_eq_Inr)
  then show ?case using load UpdateActiveRole_ok by (simp add: current_term_def)
qed (use cmeta_call_ok in blast)

lemma merge_reachable:
  assumes "cmeta_reachable m" "\<And>t. cs_current_term c = Some t \<Longrightarrow> in_int64 t" "MergeCommittedConsensusStatePB c m = Inr m'"
  shows "cmeta_reachable m'"
proof -
  let ?t = "case cs_current_term c of None \<Rightarrow> 0 | Some t \<Rightarrow> t"
  have t: "in_int64 ?t" using assms(2) by (auto simp: in_int64_def split: option.split)
  obtain m1 m2 m3 where s: "(if ?t > current_term m then bind_result (set_current_term ?t m) (\<lambda>m. Inr (clear_voted_for m)) else Inr m) = Inr m1"
    "set_leader_uuid '''' m1 = Inr m2" "set_committed_config (config c) m2 = Inr m3" "clear_pending_config m3 = Inr m'"
    using assms(3) unfolding MergeCommittedConsensusStatePB_def Let_def bind_result_eq_Inr by blast
  have "cmeta_reachable m1"
    using s(1) assms(1) t
    by (auto simp: bind_result_eq_Inr intro: cmeta_reachable.call [OF _ cmeta_call.clear_vote]
        cmeta_reachable.call [OF _ cmeta_call.set_term] split: if_splits)
  then show ?thesis
    using s(2-4) by (meson cmeta_reachable.call cmeta_call.set_leader cmeta_call.set_committed cmeta_call.clear_pending)
qed

text \<open>C39. The word read without a lock. In every state reached from \<open>Create\<close> or \<open>Load\<close> by the operations of
  the class, \<open>GetRoleAndTerm\<close> returns the role that the active configuration and leader give this peer and
  the current term, and the term lies between 0 and \<open>2\<^sup>6\<^sup>1\<close>.\<close>

theorem role_and_term_coherent:
  assumes "cmeta_reachable m" "ToConsensusStatePB CONSENSUS_CONFIG_ACTIVE m = Inr c"
  shows "GetRoleAndTerm m = (Some (GetConsensusRole (cm_peer_uuid m) c), current_term m) \<and>
    0 \<le> current_term m \<and> current_term m < 2 ^ 61"
proof -
  have ok: "in_int64 (current_term m)" "cm_active_role m = GetConsensusRole (cm_peer_uuid m) c"
    "PackRoleAndTerm (cm_active_role m) (current_term m) = Inr (role_and_term_cache m)"
    using cmeta_reachable_ok [OF assms(1)] assms(2) by (auto simp: cmeta_ok_def role_ok_def active_state_pb)
  note p = pack_facts [OF ok(3)]
  have t: "- (2 ^ 63) \<le> current_term m" "current_term m < 2 ^ 63" using ok(1) by (simp_all add: in_int64_def)
  have "(word_of_int (current_term m) :: uint64) < push_bit 61 1"
    using ok(3) by (simp add: PackRoleAndTerm_def split: if_splits)
  then have "uint (word_of_int (current_term m) :: uint64) < 2 ^ 61" unfolding word_less_def by simp
  then have "current_term m < 2 ^ 61" using p(3) [OF t] t(2) by (simp add: uint_word_of_int)
  then show ?thesis using p [OF t] ok(2) by (simp add: GetRoleAndTerm_def)
qed

theorem role_and_term_coherent_witness:
  "\<exists>m. Create None ''b'' sample_config 7 None = Inr m \<and> GetRoleAndTerm m = (Some FOLLOWER, 7)"
proof -
  have "\<exists>m. Create None ''b'' sample_config 7 None = Inr m \<and> current_term m = 7 \<and>
      GetConsensusRole (cm_peer_uuid m) (active_state m) = FOLLOWER"
    using sample_verified
    by (simp add: Create_def ConsensusMetadata_def UpdateRoleAndTermCache_def PackRoleAndTerm_def current_term_def
        set_committed_config_def UpdateActiveRole_def active_state_pb set_current_term_def Flush_def committed_config_def
        active_state_def active_config_def GetConsensusRole_def leader_uuid_def config_def
        sample_config_def sample_peer_def permanent_uuid_def member_type_of_def)
  then obtain m where m: "Create None ''b'' sample_config 7 None = Inr m" "current_term m = 7"
    "GetConsensusRole (cm_peer_uuid m) (active_state m) = FOLLOWER" by blast
  then have "cmeta_reachable m" by (intro cmeta_reachable.create [of 7]) (simp_all add: in_int64_def)
  then show ?thesis using m role_and_term_coherent [OF _ active_state_pb] by auto
qed

end
