(* ===== verification/RaftVoting.thy ===== *)
theory RaftVoting
  imports LeaderElection ConsensusMeta
begin

text \<open>
  How a replica votes, from \<^verbatim>\<open>src/yb/consensus/raft_consensus.cc\<close> and \<^verbatim>\<open>replica_state.cc\<close>, with the metadata on
  disk and restarts. The replica's lock is held throughout a call. Calls to the failure detector, the
  queue and the peer manager are listed in \<open>actions\<close>, in their order; what these and the
  environment contribute to a call, such as the times, the last entry of the log and the outcome of
  writes, is the record \<open>vote_env\<close>. Metrics are left out.
\<close>

section \<open>State\<close>

datatype election_mode = NORMAL_ELECTION | ELECT_EVEN_IF_LEADER_IS_ALIVE

datatype consensus_action =
    EnableFailureDetector
  | SnoozeFailureDetector "int option"
  | UnRegisterObserver
  | SetNonLeaderMode
  | ClosePeerManager
  | DisableFailureDetector
  | RegisterObserver
  | ClosePeersNotInConfig raft_config
  | SetLeaderMode int
  | UpdateRaftConfig raft_config
  | AppendNoOp op_id
  | AppendConfigChange op_id raft_config
  | SignalRequest
  | MarkDirty uuid
  | AdvanceCommittedOpId op_id
  | LeaderElectionLost uuid
  | AbortOps

record voter =
  vm :: cmeta
  running :: bool
  withhold_votes_until :: int
  voter_old_leader_lease :: "int lease_data"
  voter_old_leader_ht_lease :: "uint64 lease_data"
  pending_election_opid :: "op_id option"
  last_received_op_id :: op_id
  last_received_op_id_current_leader :: op_id
  protege_leader_uuid :: uuid
  withhold_election_start_until :: int
  election_lost_by_protege_at :: "int option"
  failed_elections_since_stable_leader :: nat
  disable_pre_elections_until :: int
  leader_no_op_committed :: bool
  majority_replicated_lease_expiration :: int
  majority_replicated_ht_lease_expiration :: uint64
  actions :: "consensus_action list"

record vote_env =
  owns_lock :: bool
  mono_now :: int
  coarse_now :: int
  last_logged :: op_id
  term_io :: "status option"
  vote_io :: "status option"
  unregister :: "status option"
  step_down_now :: int
  missed_heartbeats_timeout :: int
  after_stepdown_delay_election_multiplier :: int
  additional_backoff :: int

definition kMonoTimeMin :: int where "kMonoTimeMin = 1"

abbreviation voter_term :: "voter \<Rightarrow> int" where
  "voter_term v \<equiv> current_term (vm v)"

abbreviation voted_for :: "voter \<Rightarrow> uuid option" where
  "voted_for v \<equiv> pb_voted_for (cm_pb (vm v))"

section \<open>Terms and votes\<close>

text \<open>The state after a call, and its status.\<close>

definition SetCurrentTermUnlocked :: "status option \<Rightarrow> int \<Rightarrow> voter \<Rightarrow> voter \<times> unit result" where
  "SetCurrentTermUnlocked io new_term v =
     (if new_term \<le> voter_term v then (v, Inl IllegalState)
      else case set_current_term new_term (vm v) of
        Inl err \<Rightarrow> (v, Inl err)
      | Inr m \<Rightarrow>
          (case Flush io (clear_voted_for m) of
             (m, Inl err) \<Rightarrow> (v\<lparr>vm := m\<rparr>, Inl err)
           | (m, Inr _) \<Rightarrow>
               (case clear_leader_uuid m of
                  Inl err \<Rightarrow> (v\<lparr>vm := m\<rparr>, Inl err)
                | Inr m \<Rightarrow> (v\<lparr>vm := m, last_received_op_id_current_leader := OpId 0 0\<rparr>, Inr ()))))"

definition SetVotedForCurrentTermUnlocked :: "status option \<Rightarrow> uuid \<Rightarrow> voter \<Rightarrow> voter \<times> unit result" where
  "SetVotedForCurrentTermUnlocked io u v =
     (case Flush io (set_voted_for u (vm v)) of
        (m, Inl _) \<Rightarrow> (v\<lparr>vm := m\<rparr>, Inl Fatal)
      | (m, Inr _) \<Rightarrow> (v\<lparr>vm := m\<rparr>, Inr ()))"

definition call :: "consensus_action list \<Rightarrow> voter \<Rightarrow> voter" where
  "call as v = v\<lparr>actions := actions v @ as\<rparr>"

definition WithholdElectionAfterStepDown :: "vote_env \<Rightarrow> uuid \<Rightarrow> voter \<Rightarrow> voter" where
  "WithholdElectionAfterStepDown env protege_uuid v =
     (let timeout = missed_heartbeats_timeout env;
          timeout = (if protege_uuid \<noteq> '''' then timeout * after_stepdown_delay_election_multiplier env else timeout)
      in v\<lparr>protege_leader_uuid := protege_uuid, withhold_election_start_until := step_down_now env + timeout,
           election_lost_by_protege_at := None\<rparr>)"

definition BecomeReplicaUnlocked :: "vote_env \<Rightarrow> uuid \<Rightarrow> voter \<Rightarrow> voter \<times> unit result" where
  "BecomeReplicaUnlocked env new_leader_uuid v =
     (let v = (if cm_active_role (vm v) = LEADER then WithholdElectionAfterStepDown env new_leader_uuid v else v) in
      case clear_leader_uuid (vm v) of
        Inl err \<Rightarrow> (v, Inl err)
      | Inr m \<Rightarrow>
          let v = call [EnableFailureDetector] (v\<lparr>vm := m\<rparr>);
              v = call [UnRegisterObserver] (v\<lparr>withhold_votes_until := kMonoTimeMin\<rparr>) in
          if unregister env = None \<or> unregister env = Some NotFound
          then (call [SetNonLeaderMode, ClosePeerManager] v, Inr ())
          else (v, Inl (the (unregister env))))"

definition HandleTermAdvanceUnlocked :: "vote_env \<Rightarrow> int \<Rightarrow> voter \<Rightarrow> voter \<times> unit result" where
  "HandleTermAdvanceUnlocked env new_term v =
     (if new_term \<le> voter_term v then (v, Inl IllegalState)
      else case (if cm_active_role (vm v) = LEADER then BecomeReplicaUnlocked env '''' v else (v, Inr ())) of
        (v, Inl err) \<Rightarrow> (v, Inl err)
      | (v, Inr _) \<Rightarrow> SetCurrentTermUnlocked (term_io env) new_term v)"

definition IncrementTermUnlocked :: "vote_env \<Rightarrow> voter \<Rightarrow> voter \<times> unit result" where
  "IncrementTermUnlocked env v = HandleTermAdvanceUnlocked env (voter_term v + 1) v"

definition RemainingOldLeaderLeaseDuration :: "int \<Rightarrow> voter \<Rightarrow> voter \<times> int option" where
  "RemainingOldLeaderLeaseDuration now v =
     (let l = voter_old_leader_lease v in
      if expiration l \<noteq> kNoCoarseTime
      then if now > expiration l
           then (v\<lparr>voter_old_leader_lease := lease_Reset kNoCoarseTime l\<rparr>, None)
           else (v, Some (expiration l - now))
      else (v, None))"

section \<open>Requests\<close>

definition empty_response :: "vote_request \<Rightarrow> voter \<Rightarrow> vote_response" where
  "empty_response req v =
     \<lparr>responder_uuid = cm_peer_uuid (vm v), responder_term = 0, vote_granted = False,
      remaining_leader_lease_duration_ms = None, leader_lease_uuid = '''',
      leader_ht_lease_expiration = None, leader_ht_lease_uuid = '''',
      response_preelection = request_preelection req, consensus_error = None, has_error = False\<rparr>"

definition FillVoteResponseVoteGranted :: "vote_request \<Rightarrow> vote_response \<Rightarrow> vote_response" where
  "FillVoteResponseVoteGranted req resp = resp\<lparr>responder_term := candidate_term req, vote_granted := True\<rparr>"

definition FillVoteResponseVoteDenied :: "consensus_error \<Rightarrow> voter \<Rightarrow> vote_response \<Rightarrow> vote_response" where
  "FillVoteResponseVoteDenied code v resp =
     resp\<lparr>responder_term := voter_term v, vote_granted := False, consensus_error := Some code\<rparr>"

definition RequestVoteRespondVoteGranted ::
  "vote_env \<Rightarrow> vote_request \<Rightarrow> vote_response \<Rightarrow> voter \<Rightarrow> voter \<times> vote_response result" where
  "RequestVoteRespondVoteGranted env req resp v =
     (let snooze = SnoozeFailureDetector (Some (additional_backoff env)) in
      case SetVotedForCurrentTermUnlocked (vote_io env) (candidate_uuid req) (call [snooze] v) of
        (v, Inl err) \<Rightarrow> (v, Inl err)
      | (v, Inr _) \<Rightarrow> (call [snooze] v, Inr (FillVoteResponseVoteGranted req resp)))"

text \<open>The leases an old leader may still hold, put into the response.\<close>

definition add_old_leases :: "int \<Rightarrow> vote_response \<Rightarrow> voter \<Rightarrow> voter \<times> vote_response" where
  "add_old_leases now resp v =
     (case RemainingOldLeaderLeaseDuration now v of (v, remaining) \<Rightarrow>
        let resp = (case remaining of None \<Rightarrow> resp
                    | Some d \<Rightarrow> resp\<lparr>remaining_leader_lease_duration_ms := Some (d div 1000000),
                                     leader_lease_uuid := holder_uuid (voter_old_leader_lease v)\<rparr>);
            l = voter_old_leader_ht_lease v;
            resp = (if expiration l \<noteq> kNoMicrosTime
                    then resp\<lparr>leader_ht_lease_expiration := Some (expiration l), leader_ht_lease_uuid := holder_uuid l\<rparr>
                    else resp)
        in (v, resp))"

text \<open>The part of \<open>RequestVote\<close> after the term was dealt with.\<close>

definition decide_vote :: "vote_env \<Rightarrow> vote_request \<Rightarrow> vote_response \<Rightarrow> voter \<Rightarrow> voter \<times> vote_response result" where
  "decide_vote env req resp v =
     (if OpIdLessThan (last_received req) (last_logged env)
      then (v, Inr (FillVoteResponseVoteDenied LAST_OPID_TOO_OLD v resp))
      else let v = (if request_preelection req then v else v\<lparr>pending_election_opid := None\<rparr>) in
        case add_old_leases (coarse_now env) resp v of (v, resp) \<Rightarrow>
          if request_preelection req then (v, Inr (FillVoteResponseVoteGranted req resp))
          else RequestVoteRespondVoteGranted env req resp v)"

definition RequestVote :: "vote_env \<Rightarrow> vote_request \<Rightarrow> voter \<Rightarrow> voter \<times> vote_response result" where
  "RequestVote env req v =
     (let resp = empty_response req v in
      if \<not> owns_lock env
      then if \<not> running v then (v, Inl IllegalState) else (v, Inr (FillVoteResponseVoteDenied CONSENSUS_BUSY v resp))
      else if \<not> running v then (v, Inl IllegalState)
      else if candidate_uuid req \<noteq> cm_leader_uuid (vm v) \<and> \<not> ignore_live_leader req \<and> mono_now env < withhold_votes_until v
      then (v, Inr (FillVoteResponseVoteDenied LEADER_IS_ALIVE v resp))
      else if candidate_term req < voter_term v then (v, Inr (FillVoteResponseVoteDenied INVALID_TERM v resp))
      else if candidate_term req = voter_term v \<and> voted_for v \<noteq> None
      then if voted_for v = Some (candidate_uuid req) then (v, Inr (FillVoteResponseVoteGranted req resp))
           else (v, Inr (FillVoteResponseVoteDenied ALREADY_VOTED v resp))
      else case (if candidate_term req > voter_term v \<and> \<not> request_preelection req
                 then HandleTermAdvanceUnlocked env (candidate_term req) v else (v, Inr ())) of
        (v, Inl err) \<Rightarrow> (v, Inl err)
      | (v, Inr _) \<Rightarrow> decide_vote env req resp v)"

definition CreateElectionUnlocked :: "vote_env \<Rightarrow> election_mode \<Rightarrow> bool \<Rightarrow> voter \<Rightarrow> voter \<times> election result" where
  "CreateElectionUnlocked env mode pre v =
     (case (if pre then (v, Inr ()) else IncrementTermUnlocked env v) of
        (v, Inl err) \<Rightarrow> (v, Inl err)
      | (v, Inr _) \<Rightarrow>
          let new_term = (if pre then voter_term v + 1 else voter_term v) in
          case (if pre then (v, Inr ()) else SetVotedForCurrentTermUnlocked (vote_io env) (cm_peer_uuid (vm v)) v) of
            (v, Inl err) \<Rightarrow> (v, Inl err)
          | (v, Inr _) \<Rightarrow>
              (case CreateElection (active_config (vm v))
                      \<lparr>candidate_uuid = cm_peer_uuid (vm v), candidate_term = new_term,
                       ignore_live_leader = (mode = ELECT_EVEN_IF_LEADER_IS_ALIVE), request_preelection = pre,
                       last_received = last_received_op_id v\<rparr> of
                 Inl err \<Rightarrow> (v, Inl err)
               | Inr e \<Rightarrow> (if pre then v else v\<lparr>pending_election_opid := None\<rparr>, Inr e)))"

section \<open>Histories\<close>

text \<open>
  The votes a replica gave, as pairs of term and candidate: its yes to a request (not a pre-election), and its own
  vote when it starts an election. Calls that leave term and vote alone are \<open>unrelated\<close>. A replica may stop
  at any time, and does when a check fails; it comes back with what is on disk.
\<close>

definition unrelated :: "cmeta \<Rightarrow> cmeta \<Rightarrow> bool" where
  "unrelated m m' \<longleftrightarrow>
     pb_current_term (cm_pb m') = pb_current_term (cm_pb m) \<and> pb_voted_for (cm_pb m') = pb_voted_for (cm_pb m) \<and>
     cm_peer_uuid m' = cm_peer_uuid m \<and> (disk m' = disk m \<or> disk m' = Some (cm_pb m'))"

inductive vote_step :: "voter \<Rightarrow> (int \<times> uuid) list \<Rightarrow> voter \<Rightarrow> bool" where
  request: "RequestVote env req v = (v', Inr resp) \<Longrightarrow>
    vote_step v (if vote_granted resp \<and> \<not> request_preelection req then [(candidate_term req, candidate_uuid req)] else []) v'"
| request_error: "RequestVote env req v = (v', Inl err) \<Longrightarrow> err \<noteq> Fatal \<Longrightarrow> vote_step v [] v'"
| elect: "CreateElectionUnlocked env mode pre v = (v', Inr e) \<Longrightarrow>
    vote_step v (if pre then [] else [(voter_term v', cm_peer_uuid (vm v'))]) v'"
| elect_error: "CreateElectionUnlocked env mode pre v = (v', Inl err) \<Longrightarrow> err \<noteq> Fatal \<Longrightarrow> vote_step v [] v'"
| advance: "HandleTermAdvanceUnlocked env t v = (v', r) \<Longrightarrow> r \<noteq> Inl Fatal \<Longrightarrow> vote_step v [] v'"
| other: "unrelated (vm v) (vm v') \<Longrightarrow> vote_step v [] v'"
| restart: "Load (cm_peer_uuid (vm v)) (disk (vm v)) = Inr (vm v') \<Longrightarrow> vote_step v [] v'"
| request_crash: "RequestVote env req v = (v1, Inl Fatal) \<Longrightarrow>
    Load (cm_peer_uuid (vm v)) (disk (vm v1)) = Inr (vm v') \<Longrightarrow> vote_step v [] v'"
| elect_crash: "CreateElectionUnlocked env mode pre v = (v1, Inl Fatal) \<Longrightarrow>
    Load (cm_peer_uuid (vm v)) (disk (vm v1)) = Inr (vm v') \<Longrightarrow> vote_step v [] v'"
| advance_crash: "HandleTermAdvanceUnlocked env t v = (v1, Inl Fatal) \<Longrightarrow>
    Load (cm_peer_uuid (vm v)) (disk (vm v1)) = Inr (vm v') \<Longrightarrow> vote_step v [] v'"

inductive vote_history :: "uuid \<Rightarrow> (int \<times> uuid) list \<Rightarrow> voter \<Rightarrow> bool" for u where
  start: "Create io u g t d = Inr (vm v) \<Longrightarrow> vote_history u [] v"
| more: "vote_history u es v \<Longrightarrow> vote_step v e v' \<Longrightarrow> vote_history u (es @ e) v'"

section \<open>What is on disk\<close>

definition pb_term :: "cmeta_pb \<Rightarrow> int" where
  "pb_term p = (case pb_current_term p of None \<Rightarrow> 0 | Some t \<Rightarrow> t)"

lemma current_term_pb_term: "current_term m = pb_term (cm_pb m)"
  by (simp add: current_term_def pb_term_def)

text \<open>\<open>behind d p\<close>: \<open>p\<close> knows all that \<open>d\<close> does of terms and votes.\<close>

definition behind :: "cmeta_pb \<Rightarrow> cmeta_pb \<Rightarrow> bool" where
  "behind d p \<longleftrightarrow> pb_term d < pb_term p \<or> (pb_term d = pb_term p \<and> (pb_voted_for d = None \<or> pb_voted_for d = pb_voted_for p))"

definition remembers :: "cmeta_pb \<Rightarrow> int \<times> uuid \<Rightarrow> bool" where
  "remembers d e \<longleftrightarrow> fst e < pb_term d \<or> (fst e = pb_term d \<and> pb_voted_for d = Some (snd e))"

lemma behind_refl [simp]: "behind p p"
  by (simp add: behind_def)

lemma behind_trans: "behind a b \<Longrightarrow> behind b c \<Longrightarrow> behind a c"
  by (auto simp: behind_def)

lemma remembers_behind: "remembers d e \<Longrightarrow> behind d p \<Longrightarrow> remembers p e"
  by (auto simp: remembers_def behind_def)

definition moves :: "cmeta \<Rightarrow> cmeta \<Rightarrow> bool" where
  "moves m m' \<longleftrightarrow> cm_peer_uuid m' = cm_peer_uuid m \<and> behind (cm_pb m) (cm_pb m') \<and>
     (disk m' = disk m \<or> (\<exists>p. disk m' = Some p \<and> behind (cm_pb m) p \<and> behind p (cm_pb m')))"

text \<open>A vote in memory is on disk as well.\<close>

definition synced :: "cmeta \<Rightarrow> bool" where
  "synced m \<longleftrightarrow> (pb_voted_for (cm_pb m) = None \<or>
     (\<exists>d. disk m = Some d \<and> pb_term d = pb_term (cm_pb m) \<and> pb_voted_for d = pb_voted_for (cm_pb m)))"

definition keeps :: "cmeta \<Rightarrow> cmeta \<Rightarrow> bool" where
  "keeps m m' \<longleftrightarrow> moves m m' \<and> (synced m \<longrightarrow> synced m')"

lemma moves_refl [simp]: "moves m m" "keeps m m"
  by (simp_all add: moves_def keeps_def)

lemma moves_trans: "moves a b \<Longrightarrow> moves b c \<Longrightarrow> moves a c"
  by (auto simp: moves_def intro: behind_trans)

lemma keeps_trans: "keeps a b \<Longrightarrow> keeps b c \<Longrightarrow> keeps a c"
  unfolding keeps_def using moves_trans by blast

lemma keeps_moves: "keeps m m' \<Longrightarrow> moves m m'"
  by (simp add: keeps_def)

lemma keeps_same:
  "cm_pb m' = cm_pb m \<Longrightarrow> disk m' = disk m \<Longrightarrow> cm_peer_uuid m' = cm_peer_uuid m \<Longrightarrow> keeps m m'"
  by (simp add: keeps_def moves_def synced_def)

lemma Flush_result:
  assumes "Flush io m = (m', r)"
  shows "keeps m m'" "cm_pb m' = cm_pb m" "r = Inr () \<Longrightarrow> disk m' = Some (cm_pb m)" "\<And>e. r = Inl e \<Longrightarrow> m' = m"
  using assms
  by (auto simp: Flush_def keeps_def moves_def synced_def split: sum.splits option.splits)

lemma clear_leader_result:
  assumes "clear_leader_uuid m = Inr m'"
  shows "keeps m m'" "cm_pb m' = cm_pb m"
  using UpdateActiveRole_pb [of "m\<lparr>cm_leader_uuid := ''''\<rparr>" m'] assms
  by (auto simp: clear_leader_uuid_def set_leader_uuid_def intro: keeps_same)

lemma set_term_result:
  assumes "set_current_term t m = Inr m1" "current_term m < t"
  shows "keeps m (clear_voted_for m1)" "pb_term (cm_pb (clear_voted_for m1)) = t" "pb_voted_for (cm_pb (clear_voted_for m1)) = None"
proof -
  have "cm_pb m1 = (cm_pb m)\<lparr>pb_current_term := Some t\<rparr>" "disk m1 = disk m" "cm_peer_uuid m1 = cm_peer_uuid m"
    using assms(1) by (auto simp: set_current_term_def UpdateRoleAndTermCache_iff)
  then show "keeps m (clear_voted_for m1)" "pb_term (cm_pb (clear_voted_for m1)) = t"
    "pb_voted_for (cm_pb (clear_voted_for m1)) = None"
    using assms(2) by (simp_all add: keeps_def moves_def synced_def behind_def clear_voted_for_def pb_term_def current_term_def)
qed

lemma SetCurrentTerm_result:
  assumes "SetCurrentTermUnlocked io t v = (v', r)"
  shows "keeps (vm v) (vm v')" "r = Inr () \<Longrightarrow> voter_term v' = t \<and> voted_for v' = None"
proof -
  consider "v' = v" "r \<noteq> Inr ()"
    | m1 m2 r2 where "voter_term v < t" "set_current_term t (vm v) = Inr m1" "Flush io (clear_voted_for m1) = (m2, r2)"
      "vm v' = m2 \<and> r \<noteq> Inr () \<or> clear_leader_uuid m2 = Inr (vm v')"
    using assms unfolding SetCurrentTermUnlocked_def
    by (auto split: if_splits sum.splits prod.splits)
  then have "keeps (vm v) (vm v') \<and> (r = Inr () \<longrightarrow> voter_term v' = t \<and> voted_for v' = None)"
  proof cases
    case (2 m1 m2 r2)
    note s = set_term_result [OF 2(2,1)] and f = Flush_result(1,2) [OF 2(3)]
    have k: "keeps (vm v) m2" by (rule keeps_trans [OF s(1) f(1)])
    show ?thesis
    proof (cases "vm v' = m2 \<and> r \<noteq> Inr ()")
      case False
      then have c: "clear_leader_uuid m2 = Inr (vm v')" using 2(4) by blast
      show ?thesis
        using keeps_trans [OF k clear_leader_result(1) [OF c]] clear_leader_result(2) [OF c] f(2) s(2,3)
        by (simp add: current_term_pb_term)
    qed (use k in simp)
  qed simp
  then show "keeps (vm v) (vm v')" "r = Inr () \<Longrightarrow> voter_term v' = t \<and> voted_for v' = None" by simp_all
qed

lemma TermAdvance_result:
  assumes "HandleTermAdvanceUnlocked env t v = (v', r)"
  shows "keeps (vm v) (vm v')" "r = Inr () \<Longrightarrow> voter_term v' = t \<and> voted_for v' = None"
proof -
  have b: "keeps (vm v) (vm v1)" if "BecomeReplicaUnlocked env u v = (v1, r1)" for u v1 r1
  proof -
    let ?v = "if cm_active_role (vm v) = LEADER then WithholdElectionAfterStepDown env u v else v"
    have w: "vm ?v = vm v" by (simp add: WithholdElectionAfterStepDown_def Let_def)
    show ?thesis
    proof (cases "clear_leader_uuid (vm v)")
      case (Inr m)
      then have "vm v1 = m" using that w by (auto simp: BecomeReplicaUnlocked_def Let_def call_def split: if_splits)
      then show ?thesis using clear_leader_result(1) [OF Inr] by simp
    next
      case (Inl err)
      then have "vm v1 = vm v" using that w by (simp add: BecomeReplicaUnlocked_def Let_def)
      then show ?thesis by (simp add: keeps_same)
    qed
  qed
  obtain v1 r1 where v1: "(if cm_active_role (vm v) = LEADER then BecomeReplicaUnlocked env '''' v else (v, Inr ())) = (v1, r1)"
    by (meson surj_pair)
  then have k: "keeps (vm v) (vm v1)" using b by (auto split: if_splits)
  consider "v' = v" "r \<noteq> Inr ()" | "v' = v1" "r \<noteq> Inr ()" | "SetCurrentTermUnlocked (term_io env) t v1 = (v', r)"
    using assms unfolding HandleTermAdvanceUnlocked_def v1 by (auto split: if_splits sum.splits)
  then have "keeps (vm v) (vm v') \<and> (r = Inr () \<longrightarrow> voter_term v' = t \<and> voted_for v' = None)"
  proof cases
    case 3
    then show ?thesis using SetCurrentTerm_result [OF 3] keeps_trans [OF k] by blast
  qed (use k in simp_all)
  then show "keeps (vm v) (vm v')" "r = Inr () \<Longrightarrow> voter_term v' = t \<and> voted_for v' = None" by simp_all
qed

text \<open>What the metadata holds once a vote was given.\<close>

definition has_vote :: "cmeta \<Rightarrow> int \<Rightarrow> uuid \<Rightarrow> bool" where
  "has_vote m t u \<longleftrightarrow> (\<exists>d. disk m = Some d \<and> pb_term d = t \<and> pb_voted_for d = Some u)"

lemma SetVoted_result:
  assumes "SetVotedForCurrentTermUnlocked io u v = (v', r)" "voted_for v = None"
  shows "moves (vm v) (vm v')" "r \<noteq> Inl Fatal \<Longrightarrow> r = Inr () \<and> synced (vm v') \<and> has_vote (vm v') (voter_term v) u"
    "voter_term v' = voter_term v" "cm_peer_uuid (vm v') = cm_peer_uuid (vm v)"
proof -
  let ?m = "set_voted_for u (vm v)"
  obtain m1 r1 where f: "Flush io ?m = (m1, r1)" by (meson surj_pair)
  have v': "vm v' = m1" "r = (case r1 of Inl _ \<Rightarrow> Inl Fatal | Inr _ \<Rightarrow> Inr ())"
    using assms(1) f by (auto simp: SetVotedForCurrentTermUnlocked_def split: sum.splits)
  have m: "moves (vm v) ?m" using assms(2) by (simp add: moves_def behind_def set_voted_for_def pb_term_def)
  show "moves (vm v) (vm v')"
    using moves_trans [OF m keeps_moves [OF Flush_result(1) [OF f]]] v'(1) by simp
  have pb: "cm_pb m1 = cm_pb ?m" using Flush_result(2) [OF f] .
  show "voter_term v' = voter_term v" using pb v'(1) by (simp add: current_term_pb_term set_voted_for_def pb_term_def)
  show "cm_peer_uuid (vm v') = cm_peer_uuid (vm v)" using \<open>moves (vm v) (vm v')\<close> by (simp add: moves_def)
  assume "r \<noteq> Inl Fatal"
  then have r1: "r1 = Inr ()" using v'(2) by (cases r1) simp_all
  then have "disk m1 = Some (cm_pb ?m)" using Flush_result(3) [OF f] by simp
  then show "r = Inr () \<and> synced (vm v') \<and> has_vote (vm v') (voter_term v) u"
    using r1 v' pb by (simp add: synced_def has_vote_def set_voted_for_def current_term_pb_term pb_term_def)
qed

lemma leases_vm: "vm (fst (add_old_leases now resp v)) = vm v"
  by (simp add: add_old_leases_def RemainingOldLeaderLeaseDuration_def Let_def split: prod.split)

lemma decide_vote_result:
  assumes "decide_vote env req resp v = (v', r)" "request_preelection req \<or> voted_for v = None" "\<not> vote_granted resp"
  shows "moves (vm v) (vm v') \<and> (r \<noteq> Inl Fatal \<longrightarrow> synced (vm v) \<longrightarrow> synced (vm v')) \<and>
    (\<forall>resp'. r = Inr resp' \<and> vote_granted resp' \<and> \<not> request_preelection req \<longrightarrow>
       has_vote (vm v') (voter_term v) (candidate_uuid req))"
proof -
  let ?v = "if request_preelection req then v else v\<lparr>pending_election_opid := None\<rparr>"
  obtain v2 resp2 where l: "add_old_leases (coarse_now env) resp ?v = (v2, resp2)" by (meson surj_pair)
  have vm2: "vm v2 = vm v" using leases_vm [of "coarse_now env" resp ?v] l by simp
  consider "v' = v" "\<And>resp'. r = Inr resp' \<Longrightarrow> \<not> vote_granted resp'"
    | "request_preelection req" "v' = v2" | "\<not> request_preelection req" "RequestVoteRespondVoteGranted env req resp2 v2 = (v', r)"
    using assms(1) unfolding decide_vote_def Let_def l
    by (auto simp: FillVoteResponseVoteDenied_def split: if_splits)
  then show ?thesis
  proof cases
    case 3
    let ?w = "call [SnoozeFailureDetector (Some (additional_backoff env))] v2"
    obtain v3 r3 where s: "SetVotedForCurrentTermUnlocked (vote_io env) (candidate_uuid req) ?w = (v3, r3)" by (meson surj_pair)
    have vm3: "vm ?w = vm v" using vm2 by (simp add: call_def)
    have "voted_for ?w = None" using assms(2) 3(1) vm3 by simp
    note sv = SetVoted_result [OF s this]
    have "vm v' = vm v3" "r3 \<noteq> Inl Fatal \<or> r = Inl Fatal"
      using 3(2) s by (auto simp: RequestVoteRespondVoteGranted_def Let_def call_def split: sum.splits)
    then show ?thesis
      using sv 3(2) s vm3 by (auto simp: RequestVoteRespondVoteGranted_def Let_def)
  qed (use vm2 in auto)
qed

lemma RequestVote_result:
  assumes "RequestVote env req v = (v', r)" "synced (vm v)"
  shows "moves (vm v) (vm v') \<and> (r \<noteq> Inl Fatal \<longrightarrow> synced (vm v')) \<and>
    (\<forall>resp'. r = Inr resp' \<and> vote_granted resp' \<and> \<not> request_preelection req \<longrightarrow>
       has_vote (vm v') (candidate_term req) (candidate_uuid req))"
proof -
  let ?resp = "empty_response req v"
  let ?adv = "candidate_term req > voter_term v \<and> \<not> request_preelection req"
  obtain v1 r1 where v1: "(if ?adv then HandleTermAdvanceUnlocked env (candidate_term req) v else (v, Inr ())) = (v1, r1)"
    by (meson surj_pair)
  have k: "keeps (vm v) (vm v1)" "r1 = Inr () \<Longrightarrow> ?adv \<Longrightarrow> voter_term v1 = candidate_term req \<and> voted_for v1 = None"
    using v1 TermAdvance_result by (auto split: if_splits)
  consider "v' = v" "\<And>resp'. r = Inr resp' \<Longrightarrow> \<not> vote_granted resp'"
    | "v' = v" "candidate_term req = voter_term v" "voted_for v = Some (candidate_uuid req)"
    | "v' = v1" "\<And>resp'. r \<noteq> Inr resp'"
    | "voter_term v \<le> candidate_term req" "candidate_term req = voter_term v \<longrightarrow> voted_for v = None" "r1 = Inr ()"
      "decide_vote env req ?resp v1 = (v', r)"
    using assms(1) unfolding RequestVote_def Let_def v1
    by (auto simp: FillVoteResponseVoteDenied_def not_less split: if_splits sum.splits)
  then show ?thesis
  proof cases
    case 2
    then show ?thesis using assms(2) by (auto simp: synced_def has_vote_def current_term_pb_term)
  next
    case 3
    then show ?thesis using k(1) assms(2) by (simp add: keeps_def)
  next
    case 4
    have st: "request_preelection req \<or> (voted_for v1 = None \<and> voter_term v1 = candidate_term req)"
    proof (cases "?adv")
      case True
      then show ?thesis using k(2) 4(3) by blast
    next
      case False
      then have "v1 = v" using v1 by auto
      with False 4(1,2) show ?thesis by auto
    qed
    have "\<not> vote_granted ?resp" by (simp add: empty_response_def)
    from decide_vote_result [OF 4(4) _ this] st show ?thesis
      using k(1) assms(2) moves_trans [of "vm v" "vm v1" "vm v'"] by (auto simp: keeps_def)
  qed (use assms(2) in auto)
qed

lemma Election_result:
  assumes "CreateElectionUnlocked env mode pre v = (v', r)" "synced (vm v)"
  shows "moves (vm v) (vm v') \<and> (r \<noteq> Inl Fatal \<longrightarrow> synced (vm v')) \<and>
    (\<forall>e. r = Inr e \<and> \<not> pre \<longrightarrow> has_vote (vm v') (voter_term v') (cm_peer_uuid (vm v')))"
proof -
  obtain v1 r1 where v1: "(if pre then (v, Inr ()) else IncrementTermUnlocked env v) = (v1, r1)" by (meson surj_pair)
  have k: "keeps (vm v) (vm v1)" "r1 = Inr () \<Longrightarrow> \<not> pre \<Longrightarrow> voted_for v1 = None"
    using v1 TermAdvance_result by (auto simp: IncrementTermUnlocked_def split: if_splits)
  obtain v2 r2 where v2: "(if pre then (v1, Inr ()) else SetVotedForCurrentTermUnlocked (vote_io env) (cm_peer_uuid (vm v1)) v1) = (v2, r2)"
    by (meson surj_pair)
  have c: "v' = v1 \<and> (\<forall>e. r \<noteq> Inr e) \<or> r1 = Inr () \<and> vm v' = vm v2"
    using assms(1) unfolding CreateElectionUnlocked_def Let_def v1
    by (auto simp: v2 split: sum.splits if_splits)
  show ?thesis
  proof (cases "r1 = Inr () \<and> vm v' = vm v2")
    case False
    then show ?thesis using c k(1) assms(2) by (auto simp: keeps_def)
  next
    case True
    show ?thesis
    proof (cases pre)
      case True
      then have "vm v' = vm v" using v1 v2 \<open>r1 = Inr () \<and> vm v' = vm v2\<close> by auto
      with assms(2) True show ?thesis by simp
    next
      case False
      then have s: "SetVotedForCurrentTermUnlocked (vote_io env) (cm_peer_uuid (vm v1)) v1 = (v2, r2)"
        and n: "voted_for v1 = None" using v2 k(2) True by auto
      note sv = SetVoted_result [OF s n]
      have "r2 = Inl Fatal \<longrightarrow> r = Inl Fatal"
        using assms(1) unfolding CreateElectionUnlocked_def Let_def v1 by (auto simp: v2 True split: sum.splits if_splits)
      then show ?thesis
        using sv k(1) True moves_trans [of "vm v" "vm v1" "vm v2"] by (auto simp: keeps_def)
    qed
  qed
qed

definition voter_ok :: "uuid \<Rightarrow> (int \<times> uuid) list \<Rightarrow> cmeta \<Rightarrow> bool" where
  "voter_ok u es m \<longleftrightarrow> cm_peer_uuid m = u \<and> synced m \<and>
     (\<forall>t a b. (t, a) \<in> set es \<longrightarrow> (t, b) \<in> set es \<longrightarrow> a = b) \<and>
     (\<exists>d. disk m = Some d \<and> (\<forall>e\<in>set es. remembers d e) \<and> behind d (cm_pb m))"

lemma moves_disk:
  assumes "voter_ok u es m" "moves m m'"
  obtains d where "disk m' = Some d" "\<forall>e\<in>set es. remembers d e" "behind d (cm_pb m')" "cm_peer_uuid m' = u"
  using assms unfolding voter_ok_def moves_def by (metis behind_trans remembers_behind)

lemma moves_ok:
  assumes "voter_ok u es m" "moves m m'" "synced m'"
  shows "voter_ok u es m'"
proof -
  obtain d where "disk m' = Some d" "\<forall>e\<in>set es. remembers d e" "behind d (cm_pb m')" "cm_peer_uuid m' = u"
    by (rule moves_disk [OF assms(1,2)])
  with assms(1,3) show ?thesis by (auto simp: voter_ok_def)
qed

lemma restart_ok:
  assumes "voter_ok u es m" "moves m m1" "Load u (disk m1) = Inr m'"
  shows "voter_ok u es m'"
proof -
  obtain d where d: "disk m1 = Some d" "\<forall>e\<in>set es. remembers d e" by (rule moves_disk [OF assms(1,2)])
  obtain m2 where m2: "ConsensusMetadata u (Some d) = Inr m2" "UpdateActiveRole (m2\<lparr>cm_pb := d\<rparr>) = Inr m'"
    using assms(3) d(1) by (auto simp: Load_def bind_result_eq_Inr)
  have "disk m2 = Some d" "cm_peer_uuid m2 = u" using m2(1) by (auto simp: ConsensusMetadata_def UpdateRoleAndTermCache_iff)
  then have "disk m' = Some d" "cm_peer_uuid m' = u" "cm_pb m' = d" using UpdateActiveRole_pb [OF m2(2)] by simp_all
  with d(2) assms(1) show ?thesis by (auto simp: voter_ok_def synced_def)
qed

lemma vote_ok:
  assumes "voter_ok u es m" "moves m m'" "synced m'" "has_vote m' t c"
  shows "voter_ok u (es @ [(t, c)]) m'"
proof -
  obtain d where d: "disk m' = Some d" "\<forall>e\<in>set es. remembers d e" "behind d (cm_pb m')" "cm_peer_uuid m' = u"
    by (rule moves_disk [OF assms(1,2)])
  have v: "pb_term d = t" "pb_voted_for d = Some c" using assms(4) d(1) by (auto simp: has_vote_def)
  then have "c' = c" if "(t, c') \<in> set es" for c' using d(2) that by (fastforce simp: remembers_def)
  moreover have "remembers d (t, c)" using v by (simp add: remembers_def)
  ultimately show ?thesis using d assms(1,3) by (auto simp: voter_ok_def)
qed

lemma unrelated_keeps: "unrelated m m' \<Longrightarrow> keeps m m'"
  by (auto simp: unrelated_def keeps_def moves_def behind_def synced_def pb_term_def)

lemma Create_result:
  assumes "Create io u g t d = Inr m"
  shows "voter_ok u [] m"
proof -
  obtain m1 m2 m3 where c: "ConsensusMetadata u d = Inr m1" "set_committed_config g m1 = Inr m2"
    "set_current_term t m2 = Inr m3" and f: "(case Flush io m3 of (m, Inr _) \<Rightarrow> Inr m | (_, Inl err) \<Rightarrow> Inl err) = Inr m"
    using assms unfolding Create_def bind_result_eq_Inr by blast
  obtain r where fl: "Flush io m3 = (m, r)" "r = Inr ()" using f by (auto split: prod.splits sum.splits)
  have "cm_peer_uuid m1 = u" using c(1) by (auto simp: ConsensusMetadata_def UpdateRoleAndTermCache_iff)
  then have "cm_peer_uuid m2 = u"
    using c(2) UpdateActiveRole_pb by (fastforce simp: set_committed_config_def Let_def split: if_splits)
  then have "cm_peer_uuid m3 = u" using c(3) by (auto simp: set_current_term_def UpdateRoleAndTermCache_iff)
  then show ?thesis
    using Flush_result [OF fl(1)] fl(2) by (simp add: voter_ok_def keeps_def moves_def synced_def)
qed

lemma vote_step_ok:
  assumes "vote_step v e v'" "voter_ok u es (vm v)"
  shows "voter_ok u (es @ e) (vm v')"
proof -
  have sy: "synced (vm v)" and u: "cm_peer_uuid (vm v) = u" using assms(2) by (simp_all add: voter_ok_def)
  from assms(1) show ?thesis
  proof cases
    case (request env req resp)
    note r = RequestVote_result [OF request(2) sy]
    then show ?thesis using request(1) moves_ok [OF assms(2)] vote_ok [OF assms(2)] by auto
  next
    case (request_error env req err)
    then show ?thesis using RequestVote_result [OF request_error(2) sy] moves_ok [OF assms(2)] by auto
  next
    case (elect env mode pre el)
    note r = Election_result [OF elect(2) sy]
    then show ?thesis using elect(1) moves_ok [OF assms(2)] vote_ok [OF assms(2)] by auto
  next
    case (elect_error env mode pre err)
    then show ?thesis using Election_result [OF elect_error(2) sy] moves_ok [OF assms(2)] by auto
  next
    case (advance env t r)
    then show ?thesis using TermAdvance_result(1) [OF advance(2)] moves_ok [OF assms(2)] sy by (simp add: keeps_def)
  next
    case other
    then show ?thesis using unrelated_keeps [OF other(2)] moves_ok [OF assms(2)] sy by (simp add: keeps_def)
  next
    case restart
    then show ?thesis using restart_ok [OF assms(2) moves_refl(1)] u by simp
  next
    case (request_crash env req v1)
    then show ?thesis using RequestVote_result [OF request_crash(2) sy] restart_ok [OF assms(2)] u by auto
  next
    case (elect_crash env mode pre v1)
    then show ?thesis using Election_result [OF elect_crash(2) sy] restart_ok [OF assms(2)] u by auto
  next
    case (advance_crash env t v1)
    then show ?thesis
      using keeps_moves [OF TermAdvance_result(1) [OF advance_crash(2)]] restart_ok [OF assms(2)] u by auto
  qed
qed

lemma vote_history_ok: "vote_history u es v \<Longrightarrow> voter_ok u es (vm v)"
  by (induction rule: vote_history.induct) (use Create_result vote_step_ok in auto)

text \<open>C7. One vote per term. Whatever requests, elections, term changes, failed writes, crashes and restarts a
  replica goes through from its creation, it never votes for two candidates in one term.\<close>

theorem one_vote_per_term:
  assumes "vote_history u es v" "(t, a) \<in> set es" "(t, b) \<in> set es"
  shows "a = b"
  using vote_history_ok [OF assms(1)] assms(2,3) by (auto simp: voter_ok_def)

definition sample_cmeta :: "int \<Rightarrow> uuid option \<Rightarrow> cmeta" where
  "sample_cmeta t vote =
     (let pb = \<lparr>pb_committed_config = Some sample_config, pb_current_term = Some t, pb_voted_for = vote\<rparr>
      in \<lparr>cm_peer_uuid = ''b'', cm_leader_uuid = '''', cm_pending_config = None, cm_active_role = FOLLOWER,
          cm_pb = pb, role_and_term_cache = push_bit 3 (word_of_int t), disk = Some pb\<rparr>)"

definition sample_voter :: "consensus_action list \<Rightarrow> int \<Rightarrow> uuid option \<Rightarrow> voter" where
  "sample_voter as t vote =
     \<lparr>vm = sample_cmeta t vote, running = True, withhold_votes_until = kMonoTimeMin,
      voter_old_leader_lease = \<lparr>holder_uuid = '''', expiration = kNoCoarseTime\<rparr>,
      voter_old_leader_ht_lease = \<lparr>holder_uuid = '''', expiration = kNoMicrosTime\<rparr>,
      pending_election_opid = None, last_received_op_id = OpId 7 3,
      last_received_op_id_current_leader = OpId 0 0,
      protege_leader_uuid = '''', withhold_election_start_until = kMonoTimeMin, election_lost_by_protege_at = None,
      failed_elections_since_stable_leader = 0, disable_pre_elections_until = kNoCoarseTime, leader_no_op_committed = False,
      majority_replicated_lease_expiration = kNoCoarseTime, majority_replicated_ht_lease_expiration = kNoMicrosTime,
      actions = as\<rparr>"

definition sample_env :: vote_env where
  "sample_env = \<lparr>owns_lock = True, mono_now = 10, coarse_now = 0, last_logged = OpId 7 3,
     term_io = None, vote_io = None, unregister = None, step_down_now = 0,
     missed_heartbeats_timeout = 0, after_stepdown_delay_election_multiplier = 5, additional_backoff = 0\<rparr>"

definition sample_request :: vote_request where
  "sample_request = \<lparr>candidate_uuid = ''a'', candidate_term = 8, ignore_live_leader = False,
     request_preelection = False, last_received = OpId 7 4\<rparr>"

lemmas role_eval = ToConsensusStatePB_def active_config_def committed_config_def GetConsensusRole_def leader_uuid_def
  config_def Let_def UpdateActiveRole_def UpdateRoleAndTermCache_def PackRoleAndTerm_def
  current_term_def

lemma sample_role:
  "find (\<lambda>p. permanent_uuid p = ''b'') (peers sample_config) = Some (sample_peer ''b'')" "member_type_of (sample_peer u) = VOTER"
  by (simp_all add: sample_config_def sample_peer_def member_type_of_def permanent_uuid_def)

lemma sample_created: "Create None ''b'' sample_config 7 None = Inr (sample_cmeta 7 None)"
  using sample_verified
  by (simp add: Create_def ConsensusMetadata_def set_committed_config_def set_current_term_def Flush_def sample_cmeta_def
      role_eval sample_role)

lemma sample_fields:
  "owns_lock sample_env" "mono_now sample_env = 10" "running (sample_voter as t vote)"
  "withhold_votes_until (sample_voter as t vote) = kMonoTimeMin" "voter_term (sample_voter as t vote) = t"
  "candidate_term sample_request = 8" "\<not> request_preelection sample_request"
  by (simp_all add: sample_env_def sample_voter_def sample_cmeta_def sample_request_def current_term_def Let_def)

lemma sample_granted:
  "RequestVote sample_env sample_request (sample_voter [] 7 None) =
     (sample_voter [SnoozeFailureDetector (Some 0), SnoozeFailureDetector (Some 0)] 8 (Some ''a''), Inr (FillVoteResponseVoteGranted sample_request (empty_response sample_request (sample_voter [] 7 None))))"
proof -
  have adv: "HandleTermAdvanceUnlocked sample_env 8 (sample_voter [] 7 None) = (sample_voter [] 8 None, Inr ())"
    using sample_verified
    by (simp add: HandleTermAdvanceUnlocked_def SetCurrentTermUnlocked_def set_current_term_def clear_voted_for_def Flush_def
        clear_leader_uuid_def set_leader_uuid_def sample_voter_def sample_cmeta_def sample_env_def role_eval
        sample_role)
  have dec: "decide_vote sample_env sample_request resp (sample_voter [] 8 None) =
      (sample_voter [SnoozeFailureDetector (Some 0), SnoozeFailureDetector (Some 0)] 8 (Some ''a''), Inr (FillVoteResponseVoteGranted sample_request resp))" for resp
    using sample_verified
    by (simp add: decide_vote_def add_old_leases_def RemainingOldLeaderLeaseDuration_def RequestVoteRespondVoteGranted_def
        SetVotedForCurrentTermUnlocked_def set_voted_for_def Flush_def sample_request_def sample_env_def sample_voter_def
        sample_cmeta_def OpIdLessThan_def committed_config_def call_def Let_def)
  have "RequestVote sample_env sample_request (sample_voter [] 7 None) =
      (case HandleTermAdvanceUnlocked sample_env 8 (sample_voter [] 7 None) of
         (v, Inl err) \<Rightarrow> (v, Inl err)
       | (v, Inr _) \<Rightarrow> decide_vote sample_env sample_request (empty_response sample_request (sample_voter [] 7 None)) v)"
    by (simp add: RequestVote_def sample_fields kMonoTimeMin_def)
  then show ?thesis by (simp add: adv dec)
qed

lemma sample_history: "vote_history ''b'' [(8, ''a'')] (sample_voter [SnoozeFailureDetector (Some 0), SnoozeFailureDetector (Some 0)] 8 (Some ''a''))"
proof -
  have "vote_history ''b'' [] (sample_voter [] 7 None)"
    by (rule vote_history.start [of None _ sample_config 7 None]) (simp add: sample_voter_def sample_created)
  from vote_history.more [OF this vote_step.request [OF sample_granted]] show ?thesis
    by (simp add: FillVoteResponseVoteGranted_def sample_request_def)
qed

theorem one_vote_per_term_witness: "\<exists>es v. vote_history ''b'' es v \<and> (8, ''a'') \<in> set es \<and> (\<forall>c. (8, c) \<in> set es \<longrightarrow> ''a'' = c)"
  using sample_history one_vote_per_term [OF sample_history, of 8 "''a''"]
  by (intro exI [of _ "[(8, ''a'')]"] exI [of _ "sample_voter [SnoozeFailureDetector (Some 0), SnoozeFailureDetector (Some 0)] 8 (Some ''a'')"]) simp

end
