(* ===== verification/RaftLeadership.thy ===== *)
theory RaftLeadership
  imports RaftVoting
begin

text \<open>
  How a replica becomes the leader and accepts another one, from \<^verbatim>\<open>src/yb/consensus/raft_consensus.cc\<close>: starting an
  election, the callback with its result, and the part of an update request that establishes who leads. The
  log is not modelled: what its operations return is in \<open>leader_env\<close>. Then a cluster: replicas, their elections, and a
  network that loses, delays, repeats and reorders messages, through one change of the configuration.
\<close>

section \<open>Starting an election\<close>

record election_data =
  data_mode :: election_mode
  pending_commit :: bool
  must_be_committed_opid :: "op_id option"
  originator_uuid :: uuid
  initial_election :: bool

record leader_env =
  use_preelection :: bool
  start_time :: int
  committed_index :: int
  callback_backoff :: int
  callback_time :: int
  temporary_disable_preelections_timeout :: int
  append_io :: "status option"
  no_op_index :: int
  deduplicate_io :: "status option"
  sequence_io :: "status option"
  log_matching :: "bool result"
  first_message :: "bool result"
  abort_io :: "status option"

definition pb_op_id :: "op_id option \<Rightarrow> op_id" where
  "pb_op_id x = (case x of None \<Rightarrow> OpId 0 0 | Some y \<Rightarrow> y)"

text \<open>The election to run outside the lock, if any.\<close>

definition DoStartElection ::
  "vote_env \<Rightarrow> leader_env \<Rightarrow> election_data \<Rightarrow> bool \<Rightarrow> voter \<Rightarrow> voter \<times> election option result" where
  "DoStartElection env lenv data preelected v =
     (let pre = (use_preelection lenv \<and> \<not> preelected \<and> disable_pre_elections_until v < start_time lenv) in
      if \<not> running v then (v, Inl IllegalState)
      else if initial_election data \<and> voter_term v \<noteq> 0 then (v, Inr None)
      else if cm_active_role (vm v) = LEADER then (v, Inr None)
      else if cm_active_role (vm v) = LEARNER \<or> cm_active_role (vm v) = READ_REPLICA then (v, Inr None)
      else if cm_active_role (vm v) = NON_PARTICIPANT then (call [SnoozeFailureDetector None] v, Inl IllegalState)
      else
        let required_id = (case must_be_committed_opid data of Some x \<Rightarrow> Some x | None \<Rightarrow> pending_election_opid v);
            v = (if pending_commit data then call [AdvanceCommittedOpId (pb_op_id required_id)] v else v);
            start_now = (if pending_commit data then op_index (pb_op_id required_id) \<le> committed_index lenv else True)
        in if start_now
           then (case CreateElectionUnlocked env (data_mode data) pre
                        (call [SnoozeFailureDetector (Some (additional_backoff env))] v) of
                   (v, Inl err) \<Rightarrow> (v, Inl err)
                 | (v, Inr e) \<Rightarrow> (v, Inr (Some e)))
           else if pending_commit data \<and> must_be_committed_opid data \<noteq> None
           then (v\<lparr>pending_election_opid := must_be_committed_opid data\<rparr>, Inr None)
           else (v, Inr None))"

section \<open>Becoming the leader\<close>

definition kMonoTimeMax :: int where "kMonoTimeMax = 2 ^ 63 - 1"

definition SetLeaderUuidUnlocked :: "uuid \<Rightarrow> voter \<Rightarrow> voter result" where
  "SetLeaderUuidUnlocked u v =
     bind_result (set_leader_uuid u (vm v)) (\<lambda>m.
       Inr (call [MarkDirty u] (v\<lparr>failed_elections_since_stable_leader := 0, vm := m\<rparr>)))"

definition RefreshConsensusQueueAndPeersUnlocked :: "voter \<Rightarrow> voter" where
  "RefreshConsensusQueueAndPeersUnlocked v =
     (let g = active_config (vm v) in call [ClosePeersNotInConfig g, SetLeaderMode (voter_term v), UpdateRaftConfig g] v)"

definition BecomeLeaderUnlocked :: "leader_env \<Rightarrow> voter \<Rightarrow> voter \<times> unit result" where
  "BecomeLeaderUnlocked lenv v =
     (let v = call [DisableFailureDetector] v;
          v = call [RegisterObserver] (v\<lparr>withhold_votes_until := kMonoTimeMax\<rparr>);
          no_op = OpId (voter_term v) (no_op_index lenv);
          v = call [AppendNoOp no_op] (RefreshConsensusQueueAndPeersUnlocked v)
      in case append_io lenv of
           Some err \<Rightarrow> (v, Inl err)
         | None \<Rightarrow> (call [SignalRequest] (v\<lparr>last_received_op_id := no_op, last_received_op_id_current_leader := no_op\<rparr>), Inr ()))"

definition UpdateOldLeaderLeaseExpirationOnNonLeaderUnlocked :: "int lease_data \<Rightarrow> uint64 lease_data \<Rightarrow> voter \<Rightarrow> voter" where
  "UpdateOldLeaderLeaseExpirationOnNonLeaderUnlocked lease ht_lease v =
     (let v = v\<lparr>voter_old_leader_lease := TryUpdate lease (voter_old_leader_lease v),
                voter_old_leader_ht_lease := TryUpdate ht_lease (voter_old_leader_ht_lease v)\<rparr>;
          v = (if majority_replicated_lease_expiration v \<noteq> kNoCoarseTime
               then v\<lparr>majority_replicated_lease_expiration := kNoCoarseTime\<rparr> else v)
      in if majority_replicated_ht_lease_expiration v \<noteq> kNoMicrosTime
         then v\<lparr>majority_replicated_ht_lease_expiration := kNoMicrosTime\<rparr> else v)"

definition NotifyOriginatorAboutLostElection :: "uuid \<Rightarrow> voter \<Rightarrow> voter" where
  "NotifyOriginatorAboutLostElection originator v =
     (if originator = '''' \<or> \<not> running v \<or> \<not> IsRaftConfigMember originator (active_config (vm v)) then v
      else call [LeaderElectionLost originator] v)"

text \<open>
  The callback with the result of an election. The flag tells that \<open>DoStartElection\<close> is called next, outside the lock,
  because a pre-election was won. Only a failed check makes it fail; statuses are logged. The code takes the lock
  again after its first part, which touches nothing but timers and counters; here both are one step.
\<close>

definition DoElectionCallback ::
  "vote_env \<Rightarrow> leader_env \<Rightarrow> election_data \<Rightarrow> election_result \<Rightarrow> voter \<Rightarrow> voter \<times> bool result" where
  "DoElectionCallback env lenv data r v =
     (let v = call [SnoozeFailureDetector (Some (callback_backoff lenv))] v;
          v = (if preelections_not_supported_by_uuid r \<noteq> ''''
               then v\<lparr>disable_pre_elections_until := callback_time lenv + temporary_disable_preelections_timeout lenv\<rparr> else v)
      in if decision r = kDenied
         then let v = v\<lparr>failed_elections_since_stable_leader := failed_elections_since_stable_leader v + 1\<rparr>;
                  v = NotifyOriginatorAboutLostElection (originator_uuid data) v
              in case higher_term r of
                   None \<Rightarrow> (v, Inr False)
                 | Some t \<Rightarrow>
                     if \<not> running v then (v, Inr False)
                     else (case HandleTermAdvanceUnlocked env t v of
                             (v, res) \<Rightarrow> (v, if res = Inl Fatal then Inl Fatal else Inr False))
         else if \<not> running v then (v, Inr False)
         else if election_term r \<noteq> voter_term v + (if preelection r then 1 else 0) then (v, Inr False)
         else if \<not> IsRaftConfigVoter (cm_peer_uuid (vm v)) (active_config (vm v)) then (v, Inr False)
         else if preelection r then (v, Inr True)
         else if cm_active_role (vm v) = LEADER then (v, Inr False)
         else let v = UpdateOldLeaderLeaseExpirationOnNonLeaderUnlocked (old_leader_lease r) (old_leader_ht_lease r) v;
                  v = v\<lparr>leader_no_op_committed := False\<rparr>
              in case SetLeaderUuidUnlocked (cm_peer_uuid (vm v)) v of
                   Inl err \<Rightarrow> (v, Inl err)
                 | Inr v \<Rightarrow> (fst (BecomeLeaderUnlocked lenv v), Inr False))"

section \<open>Accepting a leader\<close>

text \<open>The flag tells that the request was rejected for its term.\<close>

definition HandleLeaderRequestTermUnlocked :: "vote_env \<Rightarrow> int \<Rightarrow> voter \<Rightarrow> voter \<times> bool result" where
  "HandleLeaderRequestTermUnlocked env caller_term v =
     (if caller_term \<noteq> voter_term v
      then if caller_term < voter_term v then (v, Inr True)
           else (case HandleTermAdvanceUnlocked env caller_term v of
                   (v, Inl err) \<Rightarrow> (v, Inl err)
                 | (v, Inr _) \<Rightarrow> (v, Inr False))
      else (v, Inr False))"

text \<open>The condition of the fatal message ``Unexpected new leader in same term''.\<close>

definition unexpected_leader :: "uuid \<Rightarrow> voter \<Rightarrow> bool" where
  "unexpected_leader caller v \<longleftrightarrow> cm_leader_uuid (vm v) \<noteq> '''' \<and> cm_leader_uuid (vm v) \<noteq> caller"

text \<open>
  The checks of an update request. What the log answers is given: whether the preceding entry matches, and
  whether the first message makes pending operations go. The flag tells that the response carries an error.
\<close>

definition CheckLeaderRequestUnlocked ::
  "vote_env \<Rightarrow> leader_env \<Rightarrow> uuid \<Rightarrow> int \<Rightarrow> voter \<Rightarrow> voter \<times> bool result" where
  "CheckLeaderRequestUnlocked env lenv caller_uuid caller_term v =
     (case deduplicate_io lenv of Some err \<Rightarrow> (v, Inl err) | None \<Rightarrow>
      (case sequence_io lenv of Some err \<Rightarrow> (v, Inl err) | None \<Rightarrow>
       (case HandleLeaderRequestTermUnlocked env caller_term v of
          (v, Inl err) \<Rightarrow> (v, Inl err)
        | (v, Inr True) \<Rightarrow> (v, Inr True)
        | (v, Inr False) \<Rightarrow>
           (case log_matching lenv of
              Inl err \<Rightarrow> (v, Inl err)
            | Inr False \<Rightarrow> (v, Inr True)
            | Inr True \<Rightarrow>
               (case first_message lenv of
                  Inl err \<Rightarrow> (v, Inl err)
                | Inr abort \<Rightarrow>
                    let v = (if abort then call [AbortOps] v else v) in
                    case (if abort then abort_io lenv else None) of
                      Some err \<Rightarrow> (v, Inl err)
                    | None \<Rightarrow>
                        if unexpected_leader caller_uuid v then (v, Inl Fatal)
                        else if cm_leader_uuid (vm v) = ''''
                        then (case SetLeaderUuidUnlocked caller_uuid v of
                                Inl err \<Rightarrow> (v, Inl err)
                              | Inr v \<Rightarrow> (v, Inr False))
                        else (v, Inr False))))))"

section \<open>A cluster\<close>

text \<open>
  The replicas by their uuid; the elections ever started, with the configuration each was started in; the answers
  to requests for votes, with the number of the election; and the terms and senders of update requests. A message once sent
  may be handled at any later time, any number of times, or never.
\<close>

record cluster =
  replicas :: "uuid \<rightharpoonup> voter"
  elections :: "(raft_config \<times> election_system) list"
  answers :: "(nat \<times> uuid \<times> vote_response) set"
  leaders :: "(int \<times> uuid) set"

abbreviation candidate :: "election_system \<Rightarrow> uuid" where
  "candidate s \<equiv> candidate_uuid (request (el s))"

text \<open>A handler may run in the environments that \<open>allowed\<close> admits for the replica. What it did to the replica, apart from messages, is its state, and whether a check failed.\<close>

inductive handler :: "(vote_env \<Rightarrow> voter \<Rightarrow> bool) \<Rightarrow> voter \<Rightarrow> voter \<Rightarrow> bool \<Rightarrow> bool" for allowed where
  vote: "allowed env v \<Longrightarrow> RequestVote env req v = (v', r) \<Longrightarrow> handler allowed v v' (r = Inl Fatal)"
| start: "allowed env v \<Longrightarrow> DoStartElection env lenv data pre v = (v', r) \<Longrightarrow> (\<forall>e. r \<noteq> Inr (Some e)) \<Longrightarrow>
    handler allowed v v' (r = Inl Fatal)"
| advance: "allowed env v \<Longrightarrow> HandleTermAdvanceUnlocked env t v = (v', r) \<Longrightarrow> handler allowed v v' (r = Inl Fatal)"
| step_down: "allowed env v \<Longrightarrow> BecomeReplicaUnlocked env u v = (v', r) \<Longrightarrow> handler allowed v v' (r = Inl Fatal)"
| callback_fails: "allowed env v \<Longrightarrow> DoElectionCallback env lenv data res v = (v', Inl err) \<Longrightarrow> handler allowed v v' True"
| update_fails: "allowed env v \<Longrightarrow> CheckLeaderRequestUnlocked env lenv u t v = (v', Inl Fatal) \<Longrightarrow> handler allowed v v' True"
| unrelated: "unrelated (vm v) (vm v') \<Longrightarrow> cm_leader_uuid (vm v') = cm_leader_uuid (vm v) \<Longrightarrow> handler allowed v v' fatal"

text \<open>
  Elections start in configurations of the set \<open>configs\<close>. Between them a replica may change its pending and its committed
  configuration in any way, a step that leaves term, vote and leader alone.
\<close>

inductive cluster_step :: "(vote_env \<Rightarrow> voter \<Rightarrow> bool) \<Rightarrow> raft_config set \<Rightarrow> cluster \<Rightarrow> cluster \<Rightarrow> bool" for allowed configs where
  join: "replicas c w = None \<Longrightarrow> Create io w h t d = Inr (vm v) \<Longrightarrow>
    cluster_step allowed configs c (c\<lparr>replicas := (replicas c)(w \<mapsto> v)\<rparr>)"
| elect: "replicas c w = Some v \<Longrightarrow> allowed env v \<Longrightarrow> DoStartElection env lenv data pre v = (v', Inr (Some e)) \<Longrightarrow>
    active_config (vm v') \<in> configs \<Longrightarrow>
    cluster_step allowed configs c
      (c\<lparr>replicas := (replicas c)(w \<mapsto> v'), elections := elections c @ [(active_config (vm v'), begin_election e)]\<rparr>)"
| vote: "i < length (elections c) \<Longrightarrow> replicas c w = Some v \<Longrightarrow> allowed env v \<Longrightarrow>
    RequestVote env (request (el (snd (elections c ! i)))) v = (v', Inr resp) \<Longrightarrow>
    cluster_step allowed configs c (c\<lparr>replicas := (replicas c)(w \<mapsto> v'), answers := insert (i, w, resp) (answers c)\<rparr>)"
| count: "i < length (elections c) \<Longrightarrow> elections c ! i = (h, s) \<Longrightarrow>
    election_step (\<lambda>u resp. (i, u, resp) \<in> answers c) s s' \<Longrightarrow>
    cluster_step allowed configs c (c\<lparr>elections := (elections c)[i := (h, s')]\<rparr>)"
| callback: "i < length (elections c) \<Longrightarrow> elections c ! i = (h, s) \<Longrightarrow> r \<in> set (responses s) \<Longrightarrow> candidate s = w \<Longrightarrow>
    replicas c w = Some v \<Longrightarrow> allowed env v \<Longrightarrow> DoElectionCallback env lenv data r (v\<lparr>actions := []\<rparr>) = (v', Inr again) \<Longrightarrow>
    cluster_step allowed configs c
      (c\<lparr>replicas := (replicas c)(w \<mapsto> v'), leaders := leaders c \<union> {(t, w) |t. SetLeaderMode t \<in> set (actions v')}\<rparr>)"
| update: "(t, u) \<in> leaders c \<Longrightarrow> replicas c w = Some v \<Longrightarrow> allowed env v \<Longrightarrow>
    CheckLeaderRequestUnlocked env lenv u t v = (v', r) \<Longrightarrow> r \<noteq> Inl Fatal \<Longrightarrow>
    cluster_step allowed configs c (c\<lparr>replicas := (replicas c)(w \<mapsto> v')\<rparr>)"
| other: "replicas c w = Some v \<Longrightarrow> handler allowed v v' False \<Longrightarrow>
    cluster_step allowed configs c (c\<lparr>replicas := (replicas c)(w \<mapsto> v')\<rparr>)"
| crash: "replicas c w = Some v \<Longrightarrow> v' = v \<or> handler allowed v v' True \<Longrightarrow> Load w (disk (vm v')) = Inr (vm v'') \<Longrightarrow>
    cluster_step allowed configs c (c\<lparr>replicas := (replicas c)(w \<mapsto> v'')\<rparr>)"

inductive cluster_reachable :: "(vote_env \<Rightarrow> voter \<Rightarrow> bool) \<Rightarrow> raft_config set \<Rightarrow> cluster \<Rightarrow> bool" for allowed configs where
  start: "cluster_reachable allowed configs \<lparr>replicas = Map.empty, elections = [], answers = {}, leaders = {}\<rparr>"
| step: "cluster_reachable allowed configs c \<Longrightarrow> cluster_step allowed configs c c' \<Longrightarrow> cluster_reachable allowed configs c'"

section \<open>Votes of a cluster\<close>

text \<open>A call that gives the votes \<open>e\<close>, seen as steps of the replica's history.\<close>

definition extends :: "voter \<Rightarrow> (int \<times> uuid) list \<Rightarrow> voter \<Rightarrow> bool" where
  "extends v e v' \<longleftrightarrow> (\<forall>u es. vote_history u es v \<longrightarrow> vote_history u (es @ e) v')"

lemma extends_step: "vote_step v e v' \<Longrightarrow> extends v e v'"
  by (simp add: extends_def vote_history.more)

lemma extends_trans:
  assumes "extends v [] v1" "extends v1 e v2"
  shows "extends v e v2"
  using assms unfolding extends_def by (metis append_Nil2)

lemma extends_unrelated: "unrelated (vm v) (vm v') \<Longrightarrow> extends v [] v'"
  by (rule extends_step [OF vote_step.other])

lemma extends_same: "vm v' = vm v \<Longrightarrow> extends v [] v'"
  by (rule extends_unrelated) (simp add: unrelated_def)

lemma extends_restart: "Load (cm_peer_uuid (vm v)) (disk (vm v)) = Inr (vm v') \<Longrightarrow> extends v [] v'"
  by (rule extends_step [OF vote_step.restart])

lemma set_leader_unrelated:
  assumes "set_leader_uuid u m = Inr m'"
  shows "unrelated m m'" "cm_leader_uuid m' = u" "current_term m' = current_term m" "disk m' = disk m"
proof -
  have "cm_pb m' = cm_pb m" "disk m' = disk m" "cm_peer_uuid m' = cm_peer_uuid m"
    using assms UpdateActiveRole_pb [of "m\<lparr>cm_leader_uuid := u\<rparr>" m'] by (auto simp: set_leader_uuid_def)
  then show "unrelated m m'" "current_term m' = current_term m" "disk m' = disk m"
    by (simp_all add: unrelated_def current_term_def)
  show "cm_leader_uuid m' = u" using assms
    by (auto simp: set_leader_uuid_def UpdateActiveRole_def bind_result_eq_Inr UpdateRoleAndTermCache_iff)
qed

lemma become_leader_vm: "vm (fst (BecomeLeaderUnlocked lenv v)) = vm v"
  by (simp add: BecomeLeaderUnlocked_def RefreshConsensusQueueAndPeersUnlocked_def call_def Let_def split: option.split)

lemma call_vm [simp]: "vm (call as v) = vm v"
  by (simp add: call_def)

lemma step_down_cases:
  assumes "BecomeReplicaUnlocked env u v = (v', r)"
  obtains "vm v' = vm v" "r \<noteq> Inr ()" "\<exists>err. clear_leader_uuid (vm v) = Inl err"
  | "clear_leader_uuid (vm v) = Inr (vm v')"
proof -
  let ?v = "if cm_active_role (vm v) = LEADER then WithholdElectionAfterStepDown env u v else v"
  have w: "vm ?v = vm v" by (simp add: WithholdElectionAfterStepDown_def Let_def)
  show thesis
  proof (cases "clear_leader_uuid (vm v)")
    case (Inr m)
    then have "vm v' = m" using assms w by (auto simp: BecomeReplicaUnlocked_def Let_def split: if_splits)
    with Inr that(2) show thesis by simp
  next
    case (Inl err)
    then have "vm v' = vm v" "r \<noteq> Inr ()" using assms w by (auto simp: BecomeReplicaUnlocked_def Let_def)
    with Inl that(1) show thesis by blast
  qed
qed

lemma start_cases:
  assumes "DoStartElection env lenv data preelected v = (v', r)"
  obtains "vm v' = vm v" "\<And>e. r \<noteq> Inr (Some e)" "r \<noteq> Inl Fatal"
  | v1 pre r1 where "vm v1 = vm v" "CreateElectionUnlocked env (data_mode data) pre v1 = (v', r1)"
      "r = (case r1 of Inl err \<Rightarrow> Inl err | Inr e \<Rightarrow> Inr (Some e))"
proof -
  define pre where "pre = (use_preelection lenv \<and> \<not> preelected \<and> disable_pre_elections_until v < start_time lenv)"
  define w where "w = (case must_be_committed_opid data of Some x \<Rightarrow> Some x | None \<Rightarrow> pending_election_opid v)"
  define v1 where "v1 = (if pending_commit data then call [AdvanceCommittedOpId (pb_op_id w)] v else v)"
  have vm1: "vm v1 = vm v" by (simp add: v1_def)
  let ?v = "call [SnoozeFailureDetector (Some (additional_backoff env))] v1"
  obtain v2 r2 where c: "CreateElectionUnlocked env (data_mode data) pre ?v = (v2, r2)" by (meson surj_pair)
  have "vm v' = vm v \<and> (\<forall>e. r \<noteq> Inr (Some e)) \<and> r \<noteq> Inl Fatal \<or>
      v' = v2 \<and> r = (case r2 of Inl err \<Rightarrow> Inl err | Inr e \<Rightarrow> Inr (Some e))"
    using assms vm1 unfolding DoStartElection_def Let_def pre_def [symmetric] w_def [symmetric] v1_def [symmetric] c
    by (auto split: if_splits sum.splits)
  then show thesis using that c vm1 by (metis call_vm)
qed

lemma elect_result:
  assumes "CreateElectionUnlocked env mode pre v = (v', Inr e)"
  shows "CreateElection (active_config (vm v')) (request e) = Inr e" "candidate_uuid (request e) = cm_peer_uuid (vm v')"
    "request_preelection (request e) = pre" "\<not> pre \<Longrightarrow> candidate_term (request e) = voter_term v'"
    "\<not> pre \<Longrightarrow> voter_term v < voter_term v'"
proof -
  obtain v1 r1 where v1: "(if pre then (v, Inr ()) else IncrementTermUnlocked env v) = (v1, r1)" by (meson surj_pair)
  obtain v2 r2 where v2: "(if pre then (v1, Inr ()) else SetVotedForCurrentTermUnlocked (vote_io env) (cm_peer_uuid (vm v1)) v1) = (v2, r2)"
    by (meson surj_pair)
  define req where "req = \<lparr>candidate_uuid = cm_peer_uuid (vm v2), candidate_term = if pre then voter_term v1 + 1 else voter_term v1,
      ignore_live_leader = (mode = ELECT_EVEN_IF_LEADER_IS_ALIVE), request_preelection = pre,
      last_received = last_received_op_id v2\<rparr>"
  have c: "r1 = Inr ()" "CreateElection (active_config (vm v2)) req = Inr e" "vm v' = vm v2"
    using assms unfolding CreateElectionUnlocked_def Let_def v1 by (auto simp: v2 req_def split: sum.splits if_splits)
  have r: "request e = req" by (rule CreateElection_ok [OF c(2)])
  have t: "voter_term v1 = voter_term v + 1 \<and> voted_for v1 = None" if "\<not> pre"
    using v1 c(1) that TermAdvance_result(2) by (simp add: IncrementTermUnlocked_def)
  have s: "voter_term v2 = voter_term v1" if "\<not> pre"
    using SetVoted_result(3) [of "vote_io env" "cm_peer_uuid (vm v1)" v1 v2 r2] v2 t that by simp
  show "CreateElection (active_config (vm v')) (request e) = Inr e" "candidate_uuid (request e) = cm_peer_uuid (vm v')"
    "request_preelection (request e) = pre" using c r by (simp_all add: req_def)
  show "candidate_term (request e) = voter_term v'" "voter_term v < voter_term v'" if "\<not> pre"
    using that r t s c(3) by (simp_all add: req_def)
qed

lemma started_election:
  assumes "DoStartElection env lenv data preelected v = (v', Inr (Some e))"
  shows "CreateElection (active_config (vm v')) (request e) = Inr e" "candidate_uuid (request e) = cm_peer_uuid (vm v')"
    "extends v (if request_preelection (request e) then [] else [(candidate_term (request e), candidate_uuid (request e))]) v'"
    "\<not> request_preelection (request e) \<Longrightarrow> voter_term v < candidate_term (request e)"
proof -
  obtain v1 pre where v1: "vm v1 = vm v" "CreateElectionUnlocked env (data_mode data) pre v1 = (v', Inr e)"
    by (rule start_cases [OF assms]) (auto split: sum.splits)
  note r = elect_result [OF v1(2)]
  show "CreateElection (active_config (vm v')) (request e) = Inr e" "candidate_uuid (request e) = cm_peer_uuid (vm v')"
    by (rule r)+
  show "extends v (if request_preelection (request e) then [] else [(candidate_term (request e), candidate_uuid (request e))]) v'"
    using extends_trans [OF extends_same [OF v1(1)] extends_step [OF vote_step.elect [OF v1(2)]]] r(2,3,4) by (cases pre) simp_all
  show "voter_term v < candidate_term (request e)" if "\<not> request_preelection (request e)"
    using that r(3,4,5) v1(1) by simp
qed

lemma advance_extends:
  assumes "HandleTermAdvanceUnlocked env t v = (v', r)"
  shows "r \<noteq> Inl Fatal \<Longrightarrow> extends v [] v'"
    "r = Inl Fatal \<Longrightarrow> Load (cm_peer_uuid (vm v)) (disk (vm v')) = Inr (vm v'') \<Longrightarrow> extends v [] v''"
  using extends_step [OF vote_step.advance [OF assms]] extends_step [OF vote_step.advance_crash] assms by auto

lemma set_leader_extends: "SetLeaderUuidUnlocked u v = Inr v' \<Longrightarrow> extends v [] v' \<and> disk (vm v') = disk (vm v)"
  using set_leader_unrelated [of u "vm v"] extends_unrelated [of v v']
  by (auto simp: SetLeaderUuidUnlocked_def bind_result_eq_Inr)

lemma request_term_extends:
  assumes "HandleLeaderRequestTermUnlocked env t v = (v', r)"
  shows "r \<noteq> Inl Fatal \<Longrightarrow> extends v [] v'"
    "r = Inl Fatal \<Longrightarrow> Load (cm_peer_uuid (vm v)) (disk (vm v')) = Inr (vm v'') \<Longrightarrow> extends v [] v''"
proof -
  obtain v1 r1 where a: "HandleTermAdvanceUnlocked env t v = (v1, r1)" by (meson surj_pair)
  have "v' = v \<and> r \<noteq> Inl Fatal \<or> v' = v1 \<and> (r = Inl Fatal \<longleftrightarrow> r1 = Inl Fatal)"
    using assms unfolding HandleLeaderRequestTermUnlocked_def a by (auto split: if_splits sum.splits)
  then show "r \<noteq> Inl Fatal \<Longrightarrow> extends v [] v'"
    "r = Inl Fatal \<Longrightarrow> Load (cm_peer_uuid (vm v)) (disk (vm v')) = Inr (vm v'') \<Longrightarrow> extends v [] v''"
    using advance_extends [OF a] extends_same [of v v] by auto
qed

text \<open>The terms for which the queue was put into leader mode.\<close>

definition modes :: "voter \<Rightarrow> int set" where
  "modes v = {t. SetLeaderMode t \<in> set (actions v)}"

lemma modes_call [simp]: "modes (call as v) = modes v \<union> {t. SetLeaderMode t \<in> set as}"
  by (auto simp: modes_def call_def)

lemma modes_same: "actions v' = actions v \<Longrightarrow> modes v' = modes v"
  by (simp add: modes_def)

lemma advance_modes:
  assumes "HandleTermAdvanceUnlocked env t v = (v', r)"
  shows "modes v' = modes v"
proof -
  have s: "modes v2 = modes v1" if "SetCurrentTermUnlocked io t v1 = (v2, r2)" for io v1 v2 r2
    using that by (intro modes_same) (auto simp: SetCurrentTermUnlocked_def split: if_splits sum.splits prod.splits)
  have b: "modes v1 = modes v" if "BecomeReplicaUnlocked env u v = (v1, r1)" for u v1 r1
    using that by (auto simp: BecomeReplicaUnlocked_def WithholdElectionAfterStepDown_def Let_def modes_def call_def
        split: if_splits sum.splits)
  obtain v1 r1 where v1: "(if cm_active_role (vm v) = LEADER then BecomeReplicaUnlocked env '''' v else (v, Inr ())) = (v1, r1)"
    by (meson surj_pair)
  then have "modes v1 = modes v" using b by (auto split: if_splits)
  moreover have "v' = v \<or> v' = v1 \<or> SetCurrentTermUnlocked (term_io env) t v1 = (v', r)"
    using assms unfolding HandleTermAdvanceUnlocked_def v1 by (auto split: if_splits sum.splits)
  ultimately show ?thesis using s by auto
qed

lemma lead_modes: "modes (fst (BecomeLeaderUnlocked lenv v)) = insert (voter_term v) (modes v)"
  by (auto simp: BecomeLeaderUnlocked_def RefreshConsensusQueueAndPeersUnlocked_def call_def Let_def modes_def
      split: option.split)

lemma callback_cases:
  assumes "DoElectionCallback env lenv data res v = (v', r)"
  obtains (same) "vm v' = vm v" "modes v' = modes v" "r \<noteq> Inl Fatal"
  | (advance) v1 t r1 where "vm v1 = vm v" "modes v1 = modes v" "HandleTermAdvanceUnlocked env t v1 = (v', r1)"
      "r = (if r1 = Inl Fatal then Inl Fatal else Inr False)"
  | (fails) err where "vm v' = vm v" "r = Inl err"
  | (leads) "decision res \<noteq> kDenied" "\<not> preelection res" "election_term res = voter_term v"
      "set_leader_uuid (cm_peer_uuid (vm v)) (vm v) = Inr (vm v')" "modes v' = insert (voter_term v) (modes v)" "r = Inr False"
proof -
  define v1 where "v1 = (let v = call [SnoozeFailureDetector (Some (callback_backoff lenv))] v in
     if preelections_not_supported_by_uuid res \<noteq> ''''
     then v\<lparr>disable_pre_elections_until := callback_time lenv + temporary_disable_preelections_timeout lenv\<rparr> else v)"
  have v1: "vm v1 = vm v" "modes v1 = modes v" by (auto simp: v1_def modes_def call_def Let_def)
  define v2 where "v2 = NotifyOriginatorAboutLostElection (originator_uuid data)
     (v1\<lparr>failed_elections_since_stable_leader := failed_elections_since_stable_leader v1 + 1\<rparr>)"
  have v2: "vm v2 = vm v" "modes v2 = modes v"
    using v1 by (auto simp: v2_def NotifyOriginatorAboutLostElection_def modes_def call_def)
  define v3 where "v3 = (UpdateOldLeaderLeaseExpirationOnNonLeaderUnlocked (old_leader_lease res) (old_leader_ht_lease res) v1)
     \<lparr>leader_no_op_committed := False\<rparr>"
  have v3: "vm v3 = vm v" "modes v3 = modes v"
    using v1 by (auto simp: v3_def UpdateOldLeaderLeaseExpirationOnNonLeaderUnlocked_def modes_def Let_def)
  have d: "DoElectionCallback env lenv data res v =
    (if decision res = kDenied
     then case higher_term res of
            None \<Rightarrow> (v2, Inr False)
          | Some t \<Rightarrow> if \<not> running v2 then (v2, Inr False)
              else (case HandleTermAdvanceUnlocked env t v2 of (v, r) \<Rightarrow> (v, if r = Inl Fatal then Inl Fatal else Inr False))
     else if \<not> running v1 then (v1, Inr False)
     else if election_term res \<noteq> voter_term v1 + (if preelection res then 1 else 0) then (v1, Inr False)
     else if \<not> IsRaftConfigVoter (cm_peer_uuid (vm v1)) (active_config (vm v1)) then (v1, Inr False)
     else if preelection res then (v1, Inr True)
     else if cm_active_role (vm v1) = LEADER then (v1, Inr False)
     else case SetLeaderUuidUnlocked (cm_peer_uuid (vm v3)) v3 of
            Inl err \<Rightarrow> (v3, Inl err)
          | Inr v \<Rightarrow> (fst (BecomeLeaderUnlocked lenv v), Inr False))"
    unfolding DoElectionCallback_def v3_def v2_def v1_def Let_def by (rule refl)
  show thesis
  proof (cases "decision res = kDenied")
    case True
    show thesis
    proof (cases "higher_term res \<noteq> None \<and> running v2")
      case False
      then have "v' = v2" "r = Inr False" using assms d True by (auto split: option.splits)
      then show thesis using same v2 by simp
    next
      case t: True
      then obtain t v5 r5 where h: "higher_term res = Some t" "HandleTermAdvanceUnlocked env t v2 = (v5, r5)"
        by (metis not_Some_eq surj_pair)
      then have "v' = v5" "r = (if r5 = Inl Fatal then Inl Fatal else Inr False)" using assms d True t by simp_all
      then show thesis using advance [OF v2] h(2) by blast
    qed
  next
    case False
    let ?lead = "running v1 \<and> election_term res = voter_term v1 \<and> \<not> preelection res \<and> cm_active_role (vm v1) \<noteq> LEADER \<and>
      IsRaftConfigVoter (cm_peer_uuid (vm v1)) (active_config (vm v1))"
    show thesis
    proof (cases "?lead")
      case nl: False
      then have "v' = v1" "r \<noteq> Inl Fatal" using assms d False by (auto split: if_splits)
      then show thesis using same v1 by simp
    next
      case lead: True
      then have c: "(case SetLeaderUuidUnlocked (cm_peer_uuid (vm v3)) v3 of
          Inl err \<Rightarrow> (v3, Inl err) | Inr v \<Rightarrow> (fst (BecomeLeaderUnlocked lenv v), Inr False)) = (v', r)"
        using assms d False by simp
      show thesis
      proof (cases "SetLeaderUuidUnlocked (cm_peer_uuid (vm v3)) v3")
        case (Inl err)
        then show thesis using c fails [of err] v3 by simp
      next
        case (Inr v4)
        then have m: "set_leader_uuid (cm_peer_uuid (vm v)) (vm v) = Inr (vm v4)" "modes v4 = modes v"
          using v3 by (auto simp: SetLeaderUuidUnlocked_def bind_result_eq_Inr modes_def call_def)
        have "v' = fst (BecomeLeaderUnlocked lenv v4)" "r = Inr False" using Inr c by simp_all
        moreover have "voter_term v4 = voter_term v" using set_leader_unrelated(3) [OF m(1)] .
        ultimately show thesis
          using leads [OF False] lead m v1 become_leader_vm [of lenv v4] lead_modes [of lenv v4] by simp
      qed
    qed
  qed
qed

lemma update_cases:
  assumes "CheckLeaderRequestUnlocked env lenv u t v = (v', r)"
  obtains (early) err where "v' = v" "r = Inl err"
  | (rejected) r1 where "HandleLeaderRequestTermUnlocked env t v = (v', r1)" "r1 \<noteq> Inr False" "r = Inl Fatal \<longleftrightarrow> r1 = Inl Fatal"
  | (stays) v1 where "HandleLeaderRequestTermUnlocked env t v = (v1, Inr False)" "vm v' = vm v1"
  | (leads) v1 where "HandleLeaderRequestTermUnlocked env t v = (v1, Inr False)" "set_leader_uuid u (vm v1) = Inr (vm v')" "r = Inr False"
proof (cases "deduplicate_io lenv = None \<and> sequence_io lenv = None")
  case False
  then have "v' = v \<and> (\<exists>err. r = Inl err)" using assms by (auto simp: CheckLeaderRequestUnlocked_def split: option.splits)
  then show thesis using early by blast
next
  case io: True
  obtain v1 r1 where h: "HandleLeaderRequestTermUnlocked env t v = (v1, r1)" by (meson surj_pair)
  show thesis
  proof (cases "r1 = Inr False")
    case False
    then have "v' = v1" "r = Inl Fatal \<longleftrightarrow> r1 = Inl Fatal"
      using assms io by (auto simp: CheckLeaderRequestUnlocked_def h split: sum.splits bool.splits)
    with False h show thesis using rejected by blast
  next
    case True
    consider "vm v' = vm v1"
      | "SetLeaderUuidUnlocked u (call [AbortOps] v1) = Inr v' \<or> SetLeaderUuidUnlocked u v1 = Inr v'" "r = Inr False"
      using assms io unfolding CheckLeaderRequestUnlocked_def h True Let_def
      by (auto split: sum.splits bool.splits option.splits if_splits)
    then show thesis
    proof cases
      case 1
      then show thesis using stays h True by blast
    next
      case 2
      then have "set_leader_uuid u (vm v1) = Inr (vm v')"
        by (auto simp: SetLeaderUuidUnlocked_def bind_result_eq_Inr)
      then show thesis using leads h True 2(2) by blast
    qed
  qed
qed

lemma update_extends:
  assumes "CheckLeaderRequestUnlocked env lenv u t v = (v', r)"
  shows "r \<noteq> Inl Fatal \<Longrightarrow> extends v [] v'"
    "r = Inl Fatal \<Longrightarrow> Load (cm_peer_uuid (vm v)) (disk (vm v')) = Inr (vm v'') \<Longrightarrow> extends v [] v''"
proof -
  have "(r \<noteq> Inl Fatal \<longrightarrow> extends v [] v') \<and>
    (r = Inl Fatal \<longrightarrow> Load (cm_peer_uuid (vm v)) (disk (vm v')) = Inr (vm v'') \<longrightarrow> extends v [] v'')"
  proof (rule update_cases [OF assms])
    fix v1 assume h: "HandleLeaderRequestTermUnlocked env t v = (v1, Inr False)" "vm v' = vm v1"
    have "extends v [] v1" using request_term_extends(1) [OF h(1)] by simp
    moreover have "cm_peer_uuid (vm v1) = cm_peer_uuid (vm v)"
      using h(1) TermAdvance_result(1) by (fastforce simp: HandleLeaderRequestTermUnlocked_def keeps_def moves_def
          split: if_splits prod.splits sum.splits)
    ultimately show ?thesis
      using extends_trans [OF _ extends_same [OF h(2)]] extends_trans [OF _ extends_restart [of v1]] h(2) by auto
  next
    fix v1 assume h: "HandleLeaderRequestTermUnlocked env t v = (v1, Inr False)"
      and m: "set_leader_uuid u (vm v1) = Inr (vm v')" "r = Inr False"
    have "extends v [] v1" using request_term_extends(1) [OF h(1)] by simp
    then show ?thesis
      using extends_trans [OF _ extends_unrelated [OF set_leader_unrelated(1) [OF m(1)]]] m(2) by auto
  next
    fix r1 assume "HandleLeaderRequestTermUnlocked env t v = (v', r1)" "r = Inl Fatal \<longleftrightarrow> r1 = Inl Fatal"
    then show ?thesis using request_term_extends by blast
  qed (use extends_same [of v v] extends_restart in auto)
  then show "r \<noteq> Inl Fatal \<Longrightarrow> extends v [] v'"
    "r = Inl Fatal \<Longrightarrow> Load (cm_peer_uuid (vm v)) (disk (vm v')) = Inr (vm v'') \<Longrightarrow> extends v [] v''" by blast+
qed

lemma callback_extends:
  assumes "DoElectionCallback env lenv data res v = (v', r)"
  shows "r = Inr again \<Longrightarrow> extends v [] v'"
    "r = Inl err \<Longrightarrow> Load (cm_peer_uuid (vm v)) (disk (vm v')) = Inr (vm v'') \<Longrightarrow> extends v [] v''"
proof -
  have "(r = Inr again \<longrightarrow> extends v [] v') \<and>
    (r = Inl err \<longrightarrow> Load (cm_peer_uuid (vm v)) (disk (vm v')) = Inr (vm v'') \<longrightarrow> extends v [] v'')"
  proof (rule callback_cases [OF assms])
    fix v1 t r1 assume vm: "vm v1 = vm v" and a: "HandleTermAdvanceUnlocked env t v1 = (v', r1)"
      "r = (if r1 = Inl Fatal then Inl Fatal else Inr False)"
    then show ?thesis
      using advance_extends [OF a(1)] extends_trans [OF extends_same [OF vm]] by (auto split: if_splits)
  next
    assume "set_leader_uuid (cm_peer_uuid (vm v)) (vm v) = Inr (vm v')" "r = Inr False"
    then show ?thesis using extends_unrelated [OF set_leader_unrelated(1)] by auto
  qed (use extends_same [of v' v] extends_restart [of v] in auto)
  then show "r = Inr again \<Longrightarrow> extends v [] v'"
    "r = Inl err \<Longrightarrow> Load (cm_peer_uuid (vm v)) (disk (vm v')) = Inr (vm v'') \<Longrightarrow> extends v [] v''" by blast+
qed

lemma step_down_extends:
  assumes "BecomeReplicaUnlocked env u v = (v', r)"
  shows "extends v [] v' \<and> disk (vm v') = disk (vm v)"
  using assms
proof (rule step_down_cases)
  assume "clear_leader_uuid (vm v) = Inr (vm v')"
  then show ?thesis using set_leader_unrelated(1,4) [of "''''" "vm v"] extends_unrelated by (auto simp: clear_leader_uuid_def)
qed (use extends_same [of v' v] in simp)

lemma start_fails_extends:
  assumes "DoStartElection env lenv data pre v = (v', r)" "\<forall>e. r \<noteq> Inr (Some e)"
  shows "r \<noteq> Inl Fatal \<Longrightarrow> extends v [] v'"
    "r = Inl Fatal \<Longrightarrow> Load (cm_peer_uuid (vm v)) (disk (vm v')) = Inr (vm v'') \<Longrightarrow> extends v [] v''"
proof -
  have "(r \<noteq> Inl Fatal \<longrightarrow> extends v [] v') \<and>
    (r = Inl Fatal \<longrightarrow> Load (cm_peer_uuid (vm v)) (disk (vm v')) = Inr (vm v'') \<longrightarrow> extends v [] v'')"
  proof (rule start_cases [OF assms(1)])
    fix v1 p r1 assume vm: "vm v1 = vm v" and c: "CreateElectionUnlocked env (data_mode data) p v1 = (v', r1)"
      and r: "r = (case r1 of Inl err \<Rightarrow> Inl err | Inr e \<Rightarrow> Inr (Some e))"
    obtain err where "r1 = Inl err" "r = Inl err" using r assms(2) by (cases r1) auto
    then show ?thesis
      using vm c extends_trans [OF extends_same [OF vm] extends_step [OF vote_step.elect_error]]
        extends_trans [OF extends_same [OF vm] extends_step [OF vote_step.elect_crash]] by auto
  qed (use extends_same in auto)
  then show "r \<noteq> Inl Fatal \<Longrightarrow> extends v [] v'"
    "r = Inl Fatal \<Longrightarrow> Load (cm_peer_uuid (vm v)) (disk (vm v')) = Inr (vm v'') \<Longrightarrow> extends v [] v''" by blast+
qed

text \<open>The vote of a granted request may be lost on its way; it is in the history all the same.\<close>

lemma handler_extends:
  assumes "handler allowed v v' False"
  shows "\<exists>e. extends v e v'"
  using assms
proof cases
  case (vote env req r)
  then show ?thesis
    using extends_step [OF vote_step.request] extends_step [OF vote_step.request_error] by (cases r) blast+
next
  case (start env lenv data pre r)
  then show ?thesis using start_fails_extends(1) by blast
next
  case (advance env t r)
  then show ?thesis using advance_extends(1) by blast
next
  case (step_down env u r)
  then show ?thesis using step_down_extends by blast
next
  case unrelated
  then show ?thesis using extends_unrelated by blast
qed simp_all

lemma handler_crash:
  assumes "handler allowed v v' True" "Load (cm_peer_uuid (vm v)) (disk (vm v')) = Inr (vm v'')"
  shows "extends v [] v''"
  using assms(1)
proof cases
  case (vote env req r)
  then have "RequestVote env req v = (v', Inl Fatal)" by simp
  then show ?thesis using extends_step [OF vote_step.request_crash] assms(2) by blast
next
  case (start env lenv data pre r)
  then show ?thesis using start_fails_extends(2) assms(2) by blast
next
  case (advance env t r)
  then show ?thesis using advance_extends(2) assms(2) by blast
next
  case (step_down env u r)
  then show ?thesis using step_down_extends extends_restart assms(2) by metis
next
  case (callback_fails env lenv data res err)
  then show ?thesis using callback_extends(2) assms(2) by blast
next
  case (update_fails env lenv u t)
  then show ?thesis using update_extends(2) assms(2) by blast
next
  case unrelated
  then show ?thesis
    using extends_trans [OF extends_unrelated extends_restart] assms(2) by (auto simp: unrelated_def)
qed

text \<open>What a step of an election keeps, and where a granted vote comes from.\<close>

definition carried :: "(uuid \<Rightarrow> vote_response \<Rightarrow> bool) \<Rightarrow> election \<Rightarrow> election \<Rightarrow> bool" where
  "carried net e e' \<longleftrightarrow> request e' = request e \<and>
     preelection (election_result e') = preelection (election_result e) \<and>
     election_term (election_result e') = election_term (election_result e) \<and>
     (decided (election_result e) \<longrightarrow> decision (election_result e') = decision (election_result e)) \<and>
     (\<forall>w. votes (counter e') w = Some kGranted \<longrightarrow>
        votes (counter e) w = Some kGranted \<or> (\<exists>resp. net w resp \<and> vote_granted resp))"

lemma record_carried:
  assumes "v = kGranted \<longrightarrow> (\<exists>resp. net w resp \<and> vote_granted resp)"
  shows "carried net e (RecordVoteUnlocked w v e)"
  using assms
  by (cases v) (auto simp: carried_def RecordVoteUnlocked_def RegisterVote_def Let_def split: option.splits)

lemma denied_carried: "carried net e (HandleVoteDeniedUnlocked w resp e)"
  using record_carried [of kDenied net w e]
  by (auto simp: HandleVoteDeniedUnlocked_def HandleHigherTermUnlocked_def carried_def)

lemma granted_carried:
  assumes "net w resp" "vote_granted resp"
  shows "carried net e (HandleVoteGrantedUnlocked now w resp e)"
proof -
  obtain r where r: "HandleVoteGrantedUnlocked now w resp e = RecordVoteUnlocked w kGranted (e\<lparr>election_result := r\<rparr>)"
    "decision r = decision (election_result e)" "preelection r = preelection (election_result e)"
    "election_term r = election_term (election_result e)"
    unfolding HandleVoteGrantedUnlocked_def Let_def by (auto split: option.split)
  show ?thesis
    using record_carried [of kGranted net w "e\<lparr>election_result := r\<rparr>"] assms r by (auto simp: carried_def decided_def)
qed

lemma check_carried: "CheckForDecision e = (e', b) \<Longrightarrow> carried net e e'"
  by (auto simp: CheckForDecision_def Let_def carried_def split: if_splits)

lemma response_carried:
  assumes "VoteResponseRpcCallback now w rpc_ok resp e = Inr (Some e')" "rpc_ok \<longrightarrow> net w resp"
  shows "carried net e e'"
proof -
  let ?e = "e\<lparr>election_result := (election_result e)\<lparr>preelections_not_supported_by_uuid := w\<rparr>\<rparr>"
  have "carried net e (HandleVoteDeniedUnlocked w resp ?e)"
    using denied_carried [of net ?e w resp] by (simp add: carried_def decided_def)
  then show ?thesis
    using assms record_carried [of kDenied net w e] denied_carried [of net e w resp] granted_carried [of net w resp e now]
    by (auto simp: VoteResponseRpcCallback_def split: if_splits)
qed

lemma step_carried:
  assumes "election_step net s s'"
  shows "carried net (el s) (el s')"
  using assms
proof cases
  case (run_check e b)
  then show ?thesis using check_carried by simp
next
  case (response w now ok resp e)
  then show ?thesis using response_carried by simp
next
  case (check e b)
  then show ?thesis using check_carried by simp
qed (simp_all add: carried_def)

section \<open>Invariant of a cluster\<close>

abbreviation asked :: "cluster \<Rightarrow> nat \<Rightarrow> vote_request" where
  "asked c i \<equiv> request (el (snd (elections c ! i)))"

definition backed :: "cluster \<Rightarrow> nat \<Rightarrow> uuid \<Rightarrow> bool" where
  "backed c i w \<longleftrightarrow> candidate_uuid (asked c i) = w \<or> (\<exists>resp. (i, w, resp) \<in> answers c \<and> vote_granted resp)"

definition votes_kept :: "cluster \<Rightarrow> uuid \<Rightarrow> bool" where
  "votes_kept c w \<longleftrightarrow> (case replicas c w of
     None \<Rightarrow> \<forall>i<length (elections c). \<not> backed c i w
   | Some v \<Rightarrow> \<exists>es. vote_history w es v \<and> (\<forall>i<length (elections c). backed c i w \<longrightarrow> \<not> request_preelection (asked c i) \<longrightarrow>
       (candidate_term (asked c i), candidate_uuid (asked c i)) \<in> set es))"

definition entry_ok :: "raft_config set \<Rightarrow> cluster \<Rightarrow> nat \<Rightarrow> bool" where
  "entry_ok configs c i \<longleftrightarrow> (let (h, s) = elections c ! i in
     h \<in> configs \<and> system_ok h (candidate s) s \<and>
     preelection (election_result (el s)) = request_preelection (asked c i) \<and>
     election_term (election_result (el s)) = candidate_term (asked c i) \<and>
     (\<forall>w. votes (counter (el s)) w = Some kGranted \<longrightarrow> backed c i w))"

definition won :: "cluster \<Rightarrow> nat \<Rightarrow> bool" where
  "won c i \<longleftrightarrow> i < length (elections c) \<and> \<not> request_preelection (asked c i) \<and>
     decision (election_result (el (snd (elections c ! i)))) = kGranted"

definition cluster_ok :: "raft_config set \<Rightarrow> cluster \<Rightarrow> bool" where
  "cluster_ok configs c \<longleftrightarrow>
     (\<forall>w. votes_kept c w) \<and> (\<forall>i<length (elections c). entry_ok configs c i) \<and>
     (\<forall>i w resp. (i, w, resp) \<in> answers c \<longrightarrow> i < length (elections c)) \<and>
     (\<forall>t u. (t, u) \<in> leaders c \<longrightarrow>
        (\<exists>i. won c i \<and> candidate_term (asked c i) = t \<and> candidate_uuid (asked c i) = u))"

lemma history_uuid: "vote_history u es v \<Longrightarrow> cm_peer_uuid (vm v) = u"
  using vote_history_ok by (auto simp: voter_ok_def)

lemma replica_uuid:
  assumes "cluster_ok configs c" "replicas c w = Some v"
  shows "cm_peer_uuid (vm v) = w"
proof -
  have "votes_kept c w" using assms(1) by (simp add: cluster_ok_def)
  then show ?thesis using assms(2) history_uuid by (auto simp: votes_kept_def)
qed

lemma replica_changes:
  assumes ok: "cluster_ok configs c" and v: "replicas c w = Some v" "extends v e v'"
  shows "cluster_ok configs (c\<lparr>replicas := (replicas c)(w \<mapsto> v')\<rparr>)"
proof -
  let ?c = "c\<lparr>replicas := (replicas c)(w \<mapsto> v')\<rparr>"
  have b: "backed ?c i u = backed c i u" "entry_ok configs ?c i = entry_ok configs c i" "won ?c i = won c i" for i u
    by (simp_all add: backed_def entry_ok_def won_def)
  have k: "votes_kept c u" for u using ok by (simp add: cluster_ok_def)
  have "votes_kept ?c u" for u
  proof (cases "u = w")
    case False
    then show ?thesis using k [of u] b(1) by (cases "replicas c u") (simp_all add: votes_kept_def)
  next
    case True
    obtain es where es: "vote_history w es v" "\<forall>i<length (elections c). backed c i w \<longrightarrow> \<not> request_preelection (asked c i) \<longrightarrow>
       (candidate_term (asked c i), candidate_uuid (asked c i)) \<in> set es"
      using k [of w] v(1) by (auto simp: votes_kept_def)
    have "vote_history w (es @ e) v'" using v(2) es(1) by (simp add: extends_def)
    with es(2) True b(1) show ?thesis by (auto simp: votes_kept_def intro!: exI [of _ "es @ e"])
  qed
  with ok b show ?thesis by (simp add: cluster_ok_def)
qed

lemma join_ok:
  assumes ok: "cluster_ok configs c" and v: "replicas c w = None" "Create io w h t d = Inr (vm v)"
  shows "cluster_ok configs (c\<lparr>replicas := (replicas c)(w \<mapsto> v)\<rparr>)"
proof -
  let ?c = "c\<lparr>replicas := (replicas c)(w \<mapsto> v)\<rparr>"
  have b: "backed ?c i u = backed c i u" "entry_ok configs ?c i = entry_ok configs c i" "won ?c i = won c i" for i u
    by (simp_all add: backed_def entry_ok_def won_def)
  have k: "votes_kept c u" for u using ok by (simp add: cluster_ok_def)
  have "votes_kept ?c u" for u
    using k [of u] v vote_history.start [OF v(2)] b(1) by (cases "u = w"; cases "replicas c u") (auto simp: votes_kept_def)
  with ok b show ?thesis by (simp add: cluster_ok_def)
qed

lemma leader_won:
  assumes "cluster_ok configs c" "(t, u) \<in> leaders c"
  obtains i where "won c i" "candidate_term (asked c i) = t" "candidate_uuid (asked c i) = u"
  using assms unfolding cluster_ok_def by blast

lemma elect_ok:
  assumes ok: "cluster_ok configs c" and v: "replicas c w = Some v"
    and e: "DoStartElection env lenv data pre v = (v', Inr (Some e))" "active_config (vm v') \<in> configs"
    and wf: "\<forall>h\<in>configs. wf_config h"
  shows "cluster_ok configs
    (c\<lparr>replicas := (replicas c)(w \<mapsto> v'), elections := elections c @ [(active_config (vm v'), begin_election e)]\<rparr>)"
    (is "cluster_ok configs ?c")
proof -
  let ?n = "length (elections c)" and ?q = "request e"
  note st = started_election [OF e(1)]
  obtain es where es: "vote_history w es v" "\<forall>i<?n. backed c i w \<longrightarrow> \<not> request_preelection (asked c i) \<longrightarrow>
      (candidate_term (asked c i), candidate_uuid (asked c i)) \<in> set es"
    using ok v by (auto simp: cluster_ok_def votes_kept_def dest!: spec [of _ w])
  let ?es = "es @ (if request_preelection ?q then [] else [(candidate_term ?q, candidate_uuid ?q)])"
  have h: "vote_history w ?es v'" using es(1) st(3) unfolding extends_def by blast
  then have cand: "candidate_uuid ?q = w" using history_uuid st(2) by simp
  have old: "asked ?c i = asked c i" "backed ?c i u = backed c i u" "entry_ok configs ?c i = entry_ok configs c i"
    "won ?c i = won c i" if "i < ?n" for i u
    using that by (simp_all add: backed_def entry_ok_def won_def nth_append)
  have na: "(?n, u, resp) \<notin> answers c" for u resp
    using ok unfolding cluster_ok_def by (meson less_irrefl)
  have new: "backed ?c ?n u \<longleftrightarrow> u = w" for u
    using cand na by (auto simp: backed_def)
  have e0: "votes (counter e) = [w \<mapsto> kGranted]" "election_result e = ElectionResult (request_preelection ?q) (candidate_term ?q)"
    using CreateElection_ok [OF st(1)] cand by metis+
  have "system_ok (active_config (vm v')) w (begin_election e)"
    using created_ok [OF _ st(1)] wf e(2) cand by simp
  then have en: "entry_ok configs ?c ?n"
    using e(2) e0 new cand by (auto simp: entry_ok_def ElectionResult_def split: if_splits)
  have "votes_kept ?c u" for u
  proof (cases "u = w")
    case False
    then show ?thesis
      using ok old new by (cases "replicas c u") (fastforce simp: cluster_ok_def votes_kept_def less_Suc_eq dest!: spec [of _ u])+
  next
    case True
    have "(candidate_term (asked ?c i), candidate_uuid (asked ?c i)) \<in> set ?es"
      if "i < Suc ?n" "backed ?c i w" "\<not> request_preelection (asked ?c i)" for i
      using that es(2) old by (cases "i = ?n") auto
    with True h show ?thesis by (auto simp: votes_kept_def)
  qed
  moreover have "entry_ok configs ?c i" if "i < Suc ?n" for i
    using that en old ok by (cases "i = ?n") (auto simp: cluster_ok_def)
  moreover have "\<exists>i. won ?c i \<and> candidate_term (asked ?c i) = t \<and> candidate_uuid (asked ?c i) = u" if l: "(t, u) \<in> leaders c" for t u
  proof -
    obtain i where "won c i" "candidate_term (asked c i) = t" "candidate_uuid (asked c i) = u"
      by (rule leader_won [OF ok l])
    then show ?thesis using old by (metis won_def)
  qed
  ultimately show ?thesis using ok by (auto simp: cluster_ok_def less_Suc_eq)
qed

lemma vote_given_ok:
  assumes ok: "cluster_ok configs c" and i: "i < length (elections c)" and v: "replicas c w = Some v"
    and r: "RequestVote env (asked c i) v = (v', Inr resp)"
  shows "cluster_ok configs (c\<lparr>replicas := (replicas c)(w \<mapsto> v'), answers := insert (i, w, resp) (answers c)\<rparr>)"
    (is "cluster_ok configs ?c")
proof -
  let ?q = "asked c i"
  obtain es where es: "vote_history w es v" "\<forall>i<length (elections c). backed c i w \<longrightarrow> \<not> request_preelection (asked c i) \<longrightarrow>
      (candidate_term (asked c i), candidate_uuid (asked c i)) \<in> set es"
    using ok v by (auto simp: cluster_ok_def votes_kept_def dest!: spec [of _ w])
  let ?es = "es @ (if vote_granted resp \<and> \<not> request_preelection ?q then [(candidate_term ?q, candidate_uuid ?q)] else [])"
  have h: "vote_history w ?es v'" using vote_history.more [OF es(1) vote_step.request [OF r]] .
  have b: "backed ?c j u \<longleftrightarrow> backed c j u \<or> j = i \<and> u = w \<and> vote_granted resp" for j u
    by (auto simp: backed_def)
  have won: "won ?c j = won c j" for j by (simp add: won_def)
  have "votes_kept ?c u" for u
  proof (cases "u = w")
    case False
    then show ?thesis
      using ok b by (cases "replicas c u") (auto simp: cluster_ok_def votes_kept_def dest!: spec [of _ u])
  next
    case True
    with h es(2) b show ?thesis by (auto simp: votes_kept_def)
  qed
  moreover have "entry_ok configs ?c j" if "j < length (elections c)" for j
  proof -
    have "entry_ok configs c j" using ok that by (simp add: cluster_ok_def)
    then show ?thesis using b by (auto simp: entry_ok_def)
  qed
  ultimately show ?thesis using ok i won by (auto simp: cluster_ok_def)
qed

lemma count_ok:
  assumes ok: "cluster_ok configs c" and i: "i < length (elections c)" "elections c ! i = (h, s)"
    and s': "election_step (\<lambda>u resp. (i, u, resp) \<in> answers c) s s'"
  shows "cluster_ok configs (c\<lparr>elections := (elections c)[i := (h, s')]\<rparr>)" (is "cluster_ok configs ?c")
proof -
  have e: "entry_ok configs c j" if "j < length (elections c)" for j using ok that by (simp add: cluster_ok_def)
  have cr: "carried (\<lambda>u resp. (i, u, resp) \<in> answers c) (el s) (el s')" by (rule step_carried [OF s'])
  have asked: "asked ?c j = asked c j" for j
    using cr i by (cases "j = i") (simp_all add: carried_def)
  then have b: "backed ?c j u = backed c j u" for j u by (simp add: backed_def)
  have "votes_kept ?c w" for w
    using ok asked b by (cases "replicas c w") (auto simp: cluster_ok_def votes_kept_def dest!: spec [of _ w])
  moreover have "entry_ok configs ?c j" if "j < length (elections c)" for j
  proof (cases "j = i")
    case False
    then show ?thesis using e [OF that] asked b by (simp add: entry_ok_def)
  next
    case True
    have "system_ok h (candidate s) s" using e [OF i(1)] i(2) by (simp add: entry_ok_def)
    from system_step [OF s' this] have "system_ok h (candidate s') s'" using cr by (simp add: carried_def)
    moreover have "backed c i w" if "votes (counter (el s')) w = Some kGranted" for w
      using cr that e [OF i(1)] i(2) by (auto simp: carried_def entry_ok_def backed_def)
    ultimately show ?thesis
      using True e [OF i(1)] i cr asked b by (auto simp: entry_ok_def carried_def)
  qed
  moreover have "won ?c j" if "won c j" for j
    using that cr i asked [of j] by (cases "j = i") (auto simp: won_def carried_def decided_def)
  ultimately show ?thesis using ok asked unfolding cluster_ok_def by simp blast
qed

lemma system_responses:
  assumes "system_ok h u s" "r \<in> set (responses s)"
  shows "r = election_result (el s)" "decided r"
proof -
  obtain F V m where F: "tally_ok F V u m (el s)" "protocol_ok F s" using assms(1) by (auto simp: system_ok_def)
  show r: "r = election_result (el s)" using F(2) assms(2) by (simp add: protocol_ok_def)
  have "answered s \<noteq> 0" using assms(2) by (cases "responses s") (simp_all add: answered_def)
  then have "has_responded (el s)" using F(2) by (simp add: protocol_ok_def split: if_splits)
  then show "decided r" using F(1) r by (simp add: tally_ok_def)
qed

lemma callback_ok:
  assumes ok: "cluster_ok configs c" and i: "i < length (elections c)" "elections c ! i = (h, s)" "r \<in> set (responses s)" "candidate s = w"
    and v: "replicas c w = Some v" and d: "DoElectionCallback env lenv data r (v\<lparr>actions := []\<rparr>) = (v', Inr again)"
  shows "cluster_ok configs
    (c\<lparr>replicas := (replicas c)(w \<mapsto> v'), leaders := leaders c \<union> {(t, w) |t. SetLeaderMode t \<in> set (actions v')}\<rparr>)"
    (is "cluster_ok configs ?c")
proof -
  have "extends (v\<lparr>actions := []\<rparr>) [] v'" using callback_extends(1) [OF d] by simp
  then have "extends v [] v'" using extends_trans [OF extends_same [of "v\<lparr>actions := []\<rparr>" v]] by simp
  note ok' = replica_changes [OF ok v this]
  have e: "entry_ok configs c i" using ok i(1) by (simp add: cluster_ok_def)
  then have res: "r = election_result (el s)" "decided r" using system_responses [OF _ i(3)] i(2) by (auto simp: entry_ok_def)
  have "won c i \<and> candidate_term (asked c i) = t" if t: "t \<in> modes v'" for t
  proof (rule callback_cases [OF d])
    have none: "modes (v\<lparr>actions := []\<rparr>) = {}" by (simp add: modes_def)
    { fix v1 t' r1 assume "modes v1 = modes (v\<lparr>actions := []\<rparr>)" "HandleTermAdvanceUnlocked env t' v1 = (v', r1)"
      then show ?thesis using advance_modes t none by auto }
    { assume "modes v' = modes (v\<lparr>actions := []\<rparr>)" then show ?thesis using t none by auto }
    assume a: "decision r \<noteq> kDenied" "\<not> preelection r" "election_term r = voter_term (v\<lparr>actions := []\<rparr>)"
      "modes v' = insert (voter_term (v\<lparr>actions := []\<rparr>)) (modes (v\<lparr>actions := []\<rparr>))"
    then have "t = election_term r" using t none by simp
    moreover have "decision r = kGranted" using a(1) res(2) by (cases "decision r") (simp_all add: decided_def)
    ultimately show ?thesis using a(2) e i res(1) by (simp add: won_def entry_ok_def)
  qed auto
  then have new: "won c i \<and> candidate_term (asked c i) = t \<and> candidate_uuid (asked c i) = w" if "SetLeaderMode t \<in> set (actions v')" for t
    using that i by (simp add: modes_def)
  have same: "votes_kept ?c u = votes_kept (c\<lparr>replicas := (replicas c)(w \<mapsto> v')\<rparr>) u"
    "entry_ok configs ?c j = entry_ok configs (c\<lparr>replicas := (replicas c)(w \<mapsto> v')\<rparr>) j"
    "won ?c j = won c j" "won (c\<lparr>replicas := (replicas c)(w \<mapsto> v')\<rparr>) j = won c j" for u j
    by (simp_all add: votes_kept_def entry_ok_def won_def backed_def split: option.split)
  show ?thesis using ok' new same unfolding cluster_ok_def by simp blast
qed

lemma cluster_step_ok:
  assumes "cluster_step allowed configs c c'" "cluster_ok configs c" "\<forall>h\<in>configs. wf_config h"
  shows "cluster_ok configs c'"
  using assms(1)
proof cases
  case (join w io h t d v)
  then show ?thesis using join_ok [OF assms(2)] by simp
next
  case (elect w v env lenv data pre v' e)
  then show ?thesis using elect_ok [OF assms(2) _ _ _ assms(3)] by simp
next
  case (vote i w v env v' resp)
  then show ?thesis using vote_given_ok [OF assms(2)] by simp
next
  case (count i h s s')
  then show ?thesis using count_ok [OF assms(2)] by simp
next
  case (callback i h s r w v env lenv data v' again)
  then show ?thesis using callback_ok [OF assms(2)] by simp
next
  case (update t u w v env lenv v' r)
  then show ?thesis using replica_changes [OF assms(2)] update_extends(1) by metis
next
  case (other w v v')
  then show ?thesis using replica_changes [OF assms(2)] handler_extends by metis
next
  case (crash w v v1 v2)
  have "extends v [] v2"
    using crash extends_restart [of v] handler_crash [of allowed v v1 v2] replica_uuid [OF assms(2) crash(2)] by auto
  then show ?thesis using replica_changes [OF assms(2) crash(2)] crash(1) by simp
qed

lemma cluster_reachable_ok:
  assumes "cluster_reachable allowed configs c" "\<forall>h\<in>configs. wf_config h"
  shows "cluster_ok configs c"
  using assms(1)
proof induction
  case start
  show ?case by (simp add: cluster_ok_def votes_kept_def)
qed (use cluster_step_ok assms(2) in blast)

lemma won_majority:
  assumes "cluster_ok configs c" "won c i"
  obtains h A where "h \<in> configs" "majority h A" "\<And>w. w \<in> A \<Longrightarrow> backed c i w"
proof -
  obtain h s where e: "elections c ! i = (h, s)" by (meson surj_pair)
  have "entry_ok configs c i" using assms by (simp add: cluster_ok_def won_def)
  then have h: "h \<in> configs" "system_ok h (candidate s) s" "\<forall>w. votes (counter (el s)) w = Some kGranted \<longrightarrow> backed c i w"
    using e by (auto simp: entry_ok_def)
  have "majority h (voted kGranted (counter (el s)))"
    using system_majority [OF h(2)] assms(2) e by (simp add: won_def)
  with h show thesis using that by (auto simp: voted_def)
qed

lemma both_backed:
  assumes "cluster_ok configs c" "won c i" "won c j" "backed c i w" "backed c j w" "candidate_term (asked c i) = candidate_term (asked c j)"
  shows "candidate_uuid (asked c i) = candidate_uuid (asked c j)"
proof -
  have k: "votes_kept c w" using assms(1) by (simp add: cluster_ok_def)
  have n: "i < length (elections c)" "j < length (elections c)" "\<not> request_preelection (asked c i)" "\<not> request_preelection (asked c j)"
    using assms(2,3) by (simp_all add: won_def)
  then obtain v where v: "replicas c w = Some v" using k assms(4) by (cases "replicas c w") (auto simp: votes_kept_def)
  then obtain es where es: "vote_history w es v" "(candidate_term (asked c i), candidate_uuid (asked c i)) \<in> set es"
      "(candidate_term (asked c j), candidate_uuid (asked c j)) \<in> set es"
    using k n assms(4,5) by (auto simp: votes_kept_def)
  then show ?thesis using vote_history_ok [OF es(1)] assms(6) unfolding voter_ok_def by metis
qed

lemma won_by_one:
  assumes "cluster_ok (change_configs g g') c" "one_voter_apart g g'"
    and "won c i" "won c j" "candidate_term (asked c i) = candidate_term (asked c j)"
  shows "candidate_uuid (asked c i) = candidate_uuid (asked c j)"
proof -
  have maj: "\<exists>A. change_majority g g' A \<and> (\<forall>w\<in>A. backed c k w)" if "won c k" for k
    by (rule won_majority [OF assms(1) that]) (use assms(2) in \<open>auto simp: change_majority_def\<close>)
  obtain A B where A: "change_majority g g' A" "\<forall>w\<in>A. backed c i w" and B: "change_majority g g' B" "\<forall>w\<in>B. backed c j w"
    using maj [OF assms(3)] maj [OF assms(4)] by blast
  obtain w where "w \<in> A" "w \<in> B" using change_quorum.meet [OF A(1) B(1)] by blast
  then show ?thesis using both_backed [OF assms(1,3,4) _ _ assms(5)] A(2) B(2) by blast
qed

lemma change_configs_wf: "wf_config g \<Longrightarrow> wf_config g' \<Longrightarrow> \<forall>h \<in> change_configs g g'. wf_config h"
  unfolding change_configs_def using same_peers(2) by blast

lemma leader_unique:
  assumes "cluster_reachable allowed (change_configs g g') c" "wf_config g" "wf_config g'" "one_voter_apart g g'"
    and "(t, a) \<in> leaders c" "(t, b) \<in> leaders c"
  shows "a = b"
proof -
  have ok: "cluster_ok (change_configs g g') c"
    using cluster_reachable_ok [OF assms(1) change_configs_wf [OF assms(2,3)]] .
  obtain i where i: "won c i" "candidate_term (asked c i) = t" "candidate_uuid (asked c i) = a" by (rule leader_won [OF ok assms(5)])
  obtain j where j: "won c j" "candidate_term (asked c j) = t" "candidate_uuid (asked c j) = b" by (rule leader_won [OF ok assms(6)])
  show ?thesis using won_by_one [OF ok assms(4) i(1) j(1)] i j by simp
qed

section \<open>The known leader\<close>

text \<open>
  Where a new term can be written, a call either forgets the leader or keeps it together with the term.
\<close>

definition term_writable :: "vote_env \<Rightarrow> voter \<Rightarrow> bool" where
  "term_writable env v \<longleftrightarrow> term_io env = None \<and> VerifyRaftConfig (committed_config (vm v)) COMMITTED_QUORUM = Inr ()"

definition leader_kept :: "cmeta \<Rightarrow> cmeta \<Rightarrow> bool" where
  "leader_kept m m' \<longleftrightarrow> cm_leader_uuid m' = '''' \<or> cm_leader_uuid m' = cm_leader_uuid m \<and> current_term m' = current_term m"

lemma kept_refl [simp]: "leader_kept m m"
  by (simp add: leader_kept_def)

lemma kept_trans: "leader_kept m m1 \<Longrightarrow> leader_kept m1 m2 \<Longrightarrow> leader_kept m m2"
  by (auto simp: leader_kept_def)

lemma set_leader_fails: "set_leader_uuid u m = Inl err \<Longrightarrow> err = Fatal"
  by (auto simp: set_leader_uuid_def UpdateActiveRole_def ToConsensusStatePB_def UpdateRoleAndTermCache_def PackRoleAndTerm_def
      split: if_splits)

lemma clear_leader_kept: "clear_leader_uuid m = Inr m' \<Longrightarrow> leader_kept m m'"
  using set_leader_unrelated(2) [of "''''" m m'] by (simp add: clear_leader_uuid_def leader_kept_def)

lemma step_down_kept: "BecomeReplicaUnlocked env u v = (v', r) \<Longrightarrow> leader_kept (vm v) (vm v') \<and> committed_config (vm v') = committed_config (vm v)"
proof (erule step_down_cases)
  assume c: "clear_leader_uuid (vm v) = Inr (vm v')"
  then have "cm_pb (vm v') = cm_pb (vm v)" using clear_leader_result(2) by blast
  then show ?thesis using clear_leader_kept [OF c] by (simp add: committed_config_def)
qed simp

lemma set_term_kept:
  assumes "SetCurrentTermUnlocked io t v = (v', r)" "io = None" "VerifyRaftConfig (committed_config (vm v)) COMMITTED_QUORUM = Inr ()" "r \<noteq> Inl Fatal"
  shows "leader_kept (vm v) (vm v')"
proof -
  consider "v' = v"
    | m where "set_current_term t (vm v) = Inr m"
      "(case Flush io (clear_voted_for m) of (m, Inl err) \<Rightarrow> (v\<lparr>vm := m\<rparr>, Inl err)
        | (m, Inr _) \<Rightarrow> (case clear_leader_uuid m of Inl err \<Rightarrow> (v\<lparr>vm := m\<rparr>, Inl err)
            | Inr m \<Rightarrow> (v\<lparr>vm := m, last_received_op_id_current_leader := OpId 0 0\<rparr>, Inr ()))) = (v', r)"
    using assms(1) unfolding SetCurrentTermUnlocked_def by (auto split: if_splits sum.splits)
  then show ?thesis
  proof cases
    case (2 m)
    have "committed_config (clear_voted_for m) = committed_config (vm v)"
      using 2(1) by (auto simp: set_current_term_def UpdateRoleAndTermCache_iff committed_config_def clear_voted_for_def)
    then obtain m1 where f: "Flush io (clear_voted_for m) = (m1, Inr ())" using assms(2,3) by (simp add: Flush_def)
    show ?thesis
    proof (cases "clear_leader_uuid m1")
      case (Inl err)
      then show ?thesis using 2(2) f set_leader_fails assms(4) by (auto simp: clear_leader_uuid_def)
    next
      case (Inr m2)
      then have "vm v' = m2" using 2(2) f by auto
      then show ?thesis using Inr set_leader_unrelated(2) by (auto simp: clear_leader_uuid_def leader_kept_def)
    qed
  qed simp
qed

lemma advance_kept:
  assumes "HandleTermAdvanceUnlocked env t v = (v', r)" "term_writable env v" "r \<noteq> Inl Fatal"
  shows "leader_kept (vm v) (vm v')"
proof -
  obtain v1 r1 where v1: "(if cm_active_role (vm v) = LEADER then BecomeReplicaUnlocked env '''' v else (v, Inr ())) = (v1, r1)"
    by (meson surj_pair)
  then have k: "leader_kept (vm v) (vm v1)" "committed_config (vm v1) = committed_config (vm v)"
    using step_down_kept by (auto split: if_splits)
  have "v' = v \<or> v' = v1 \<or> SetCurrentTermUnlocked (term_io env) t v1 = (v', r)"
    using assms(1) unfolding HandleTermAdvanceUnlocked_def v1 by (auto split: if_splits sum.splits)
  then show ?thesis
    using k set_term_kept [of "term_io env" t v1 v' r] kept_trans [OF k(1)] assms(2,3) by (auto simp: term_writable_def)
qed

lemma set_voted_kept: "SetVotedForCurrentTermUnlocked io u v = (v', r) \<Longrightarrow> leader_kept (vm v) (vm v')"
  by (auto simp: SetVotedForCurrentTermUnlocked_def Flush_def set_voted_for_def leader_kept_def current_term_def
      split: sum.splits option.splits)

lemma decide_kept:
  assumes "decide_vote env req resp v = (v', r)"
  shows "leader_kept (vm v) (vm v')"
proof -
  let ?v = "if request_preelection req then v else v\<lparr>pending_election_opid := None\<rparr>"
  obtain v2 resp2 where l: "add_old_leases (coarse_now env) resp ?v = (v2, resp2)" by (meson surj_pair)
  have vm2: "vm v2 = vm v" using leases_vm [of "coarse_now env" resp ?v] l by simp
  let ?w = "call [SnoozeFailureDetector (Some (additional_backoff env))] v2"
  obtain v3 r3 where s: "SetVotedForCurrentTermUnlocked (vote_io env) (candidate_uuid req) ?w = (v3, r3)" by (meson surj_pair)
  have "vm v' = vm v \<or> vm v' = vm v3"
    using assms vm2 unfolding decide_vote_def Let_def l
    by (auto simp: RequestVoteRespondVoteGranted_def s Let_def split: if_splits sum.splits)
  then show ?thesis using set_voted_kept [OF s] vm2 by auto
qed

lemma request_kept:
  assumes "RequestVote env req v = (v', r)" "term_writable env v" "r \<noteq> Inl Fatal"
  shows "leader_kept (vm v) (vm v')"
proof -
  obtain v1 r1 where v1: "(if candidate_term req > voter_term v \<and> \<not> request_preelection req
      then HandleTermAdvanceUnlocked env (candidate_term req) v else (v, Inr ())) = (v1, r1)"
    by (meson surj_pair)
  have "v' = v \<or> v' = v1 \<and> r1 \<noteq> Inl Fatal \<or> r1 = Inr () \<and> decide_vote env req (empty_response req v) v1 = (v', r)"
    using assms(1,3) unfolding RequestVote_def Let_def v1 by (auto split: if_splits sum.splits)
  moreover have "leader_kept (vm v) (vm v1)" if "r1 \<noteq> Inl Fatal"
    using v1 advance_kept [of env "candidate_term req" v v1 r1] assms(2) that by (auto split: if_splits)
  ultimately show ?thesis using decide_kept kept_trans by fastforce
qed

lemma elect_kept:
  assumes "CreateElectionUnlocked env mode pre v = (v', r)" "term_writable env v" "r \<noteq> Inl Fatal"
  shows "leader_kept (vm v) (vm v')"
proof -
  obtain v1 r1 where v1: "(if pre then (v, Inr ()) else IncrementTermUnlocked env v) = (v1, r1)" by (meson surj_pair)
  obtain v2 r2 where v2: "(if pre then (v1, Inr ()) else SetVotedForCurrentTermUnlocked (vote_io env) (cm_peer_uuid (vm v1)) v1) = (v2, r2)"
    by (meson surj_pair)
  have "v' = v1 \<and> r1 \<noteq> Inl Fatal \<or> r1 = Inr () \<and> vm v' = vm v2"
    using assms(1,3) unfolding CreateElectionUnlocked_def Let_def v1
    by (auto simp: v2 split: sum.splits if_splits)
  moreover have "leader_kept (vm v) (vm v1)" if "r1 \<noteq> Inl Fatal"
    using v1 advance_kept [of env "voter_term v + 1" v v1 r1] assms(2) that by (auto simp: IncrementTermUnlocked_def split: if_splits)
  moreover have "leader_kept (vm v1) (vm v2)" using v2 set_voted_kept by (auto split: if_splits)
  ultimately show ?thesis using kept_trans [of "vm v" "vm v1" "vm v2"] by auto
qed

lemma start_kept:
  assumes "DoStartElection env lenv data pre v = (v', r)" "term_writable env v" "r \<noteq> Inl Fatal"
  shows "leader_kept (vm v) (vm v')"
proof (rule start_cases [OF assms(1)])
  fix v1 p r1 assume vm: "vm v1 = vm v" and c: "CreateElectionUnlocked env (data_mode data) p v1 = (v', r1)"
    and r: "r = (case r1 of Inl err \<Rightarrow> Inl err | Inr e \<Rightarrow> Inr (Some e))"
  have "term_writable env v1" using assms(2) vm by (simp add: term_writable_def)
  then show ?thesis using elect_kept [OF c] r assms(3) vm by (cases r1) auto
qed simp

lemma handler_kept:
  assumes "handler term_writable v v' False"
  shows "leader_kept (vm v) (vm v')"
  using assms
proof cases
  case (vote env req r)
  then show ?thesis using request_kept by blast
next
  case (start env lenv data pre r)
  then show ?thesis using start_kept by blast
next
  case (advance env t r)
  then show ?thesis using advance_kept by blast
next
  case (step_down env u r)
  then show ?thesis using step_down_kept by blast
next
  case unrelated
  then show ?thesis by (auto simp: leader_kept_def unrelated_def current_term_def)
qed simp_all

lemma loaded_leader: "Load u d = Inr m \<Longrightarrow> cm_leader_uuid m = ''''"
  by (auto simp: Load_def ConsensusMetadata_def UpdateActiveRole_def UpdateRoleAndTermCache_iff bind_result_eq_Inr split: option.splits)

lemma created_leader:
  assumes "Create io u g t d = Inr m"
  shows "cm_leader_uuid m = ''''"
proof -
  obtain m1 m2 m3 where c: "ConsensusMetadata u d = Inr m1" "set_committed_config g m1 = Inr m2"
    "set_current_term t m2 = Inr m3" and f: "(case Flush io m3 of (m, Inr _) \<Rightarrow> Inr m | (_, Inl err) \<Rightarrow> Inl err) = Inr m"
    using assms unfolding Create_def bind_result_eq_Inr by blast
  have "cm_leader_uuid m1 = ''''" using c(1) by (auto simp: ConsensusMetadata_def UpdateRoleAndTermCache_iff)
  then have "cm_leader_uuid m2 = ''''"
    using c(2) by (auto simp: set_committed_config_def UpdateActiveRole_def UpdateRoleAndTermCache_iff bind_result_eq_Inr Let_def
        split: if_splits)
  then have "cm_leader_uuid m3 = ''''" using c(3) by (auto simp: set_current_term_def UpdateRoleAndTermCache_iff)
  then show ?thesis using f by (auto simp: Flush_def split: sum.splits option.splits)
qed

definition leaders_known :: "cluster \<Rightarrow> bool" where
  "leaders_known c \<longleftrightarrow> (\<forall>w v. replicas c w = Some v \<longrightarrow> cm_leader_uuid (vm v) \<noteq> '''' \<longrightarrow>
     (voter_term v, cm_leader_uuid (vm v)) \<in> leaders c)"

lemma known_kept:
  assumes "leaders_known c" "replicas c w = Some v" "leader_kept (vm v) (vm v')" "leaders c \<subseteq> leaders c'"
    and "replicas c' = (replicas c)(w \<mapsto> v')"
  shows "leaders_known c'"
  using assms by (auto simp: leaders_known_def leader_kept_def split: if_splits)

lemma known_new:
  assumes "leaders_known c" "(voter_term v', cm_leader_uuid (vm v')) \<in> leaders c' \<or> cm_leader_uuid (vm v') = ''''"
    and "leaders c \<subseteq> leaders c'" "replicas c' = (replicas c)(w \<mapsto> v')"
  shows "leaders_known c'"
  using assms by (auto simp: leaders_known_def split: if_splits)

lemma request_term_kept:
  assumes "HandleLeaderRequestTermUnlocked env t v = (v', r)" "term_writable env v" "r \<noteq> Inl Fatal"
  shows "leader_kept (vm v) (vm v')" "r = Inr False \<Longrightarrow> voter_term v' = t"
proof -
  obtain v1 r1 where a: "HandleTermAdvanceUnlocked env t v = (v1, r1)" by (meson surj_pair)
  have c: "v' = v \<and> (r = Inr False \<longrightarrow> t = voter_term v) \<or> v' = v1 \<and> r1 \<noteq> Inl Fatal \<and> (r = Inr False \<longrightarrow> r1 = Inr ())"
    using assms(1,3) unfolding HandleLeaderRequestTermUnlocked_def a by (auto split: if_splits sum.splits)
  show "leader_kept (vm v) (vm v')" using c advance_kept [OF a assms(2)] by auto
  show "voter_term v' = t" if "r = Inr False" using c TermAdvance_result(2) [OF a] that by auto
qed

lemma known_step:
  assumes "cluster_step term_writable configs c c'" "leaders_known c" "cluster_ok configs c"
  shows "leaders_known c'"
  using assms(1)
proof cases
  case (join w io h t d v)
  then show ?thesis using known_new [OF assms(2), of v c' w] created_leader [OF join(3)] by simp
next
  case (elect w v env lenv data pre v' e)
  then show ?thesis using known_kept [OF assms(2) elect(2) start_kept [OF elect(4,3)], of c'] by simp
next
  case (vote i w v env v' resp)
  then show ?thesis using known_kept [OF assms(2) vote(3) request_kept [OF vote(5,4)], of c'] by simp
next
  case (count i h s s')
  then show ?thesis using assms(2) by (simp add: leaders_known_def)
next
  case (callback i h s r w v env lenv data v' again)
  have w: "cm_peer_uuid (vm v) = w" by (rule replica_uuid [OF assms(3) callback(6)])
  show ?thesis
  proof (rule callback_cases [OF callback(8)])
    assume s: "set_leader_uuid (cm_peer_uuid (vm (v\<lparr>actions := []\<rparr>))) (vm (v\<lparr>actions := []\<rparr>)) = Inr (vm v')"
      and m: "modes v' = insert (voter_term (v\<lparr>actions := []\<rparr>)) (modes (v\<lparr>actions := []\<rparr>))"
    have "cm_leader_uuid (vm v') = w" "voter_term v' = voter_term v" using set_leader_unrelated(2,3) [OF s] w by simp_all
    moreover have "SetLeaderMode (voter_term v) \<in> set (actions v')" using m by (auto simp: modes_def)
    ultimately show ?thesis using known_new [OF assms(2), of v' c' w] callback(1) by auto
  next
    fix v1 t r1 assume a: "vm v1 = vm (v\<lparr>actions := []\<rparr>)" "HandleTermAdvanceUnlocked env t v1 = (v', r1)"
      "Inr again = (if r1 = Inl Fatal then Inl Fatal else Inr False)"
    have "term_writable env v1" using callback(7) a(1) by (simp add: term_writable_def)
    then have "leader_kept (vm v) (vm v')" using advance_kept [OF a(2)] a(1,3) by (auto split: if_splits)
    then show ?thesis using known_kept [OF assms(2) callback(6), of v' c'] callback(1) by auto
  qed (use known_kept [OF assms(2) callback(6), of v' c'] callback(1) in auto)
next
  case (update t u w v env lenv v' r)
  show ?thesis
  proof (rule update_cases [OF update(5)])
    fix v1 assume h: "HandleLeaderRequestTermUnlocked env t v = (v1, Inr False)" and m: "set_leader_uuid u (vm v1) = Inr (vm v')"
    have "voter_term v1 = t" using request_term_kept(2) [OF h update(4)] by simp
    then have "(voter_term v', cm_leader_uuid (vm v')) \<in> leaders c" using set_leader_unrelated(2,3) [OF m] update(2) by simp
    then show ?thesis using known_new [OF assms(2), of v' c' w] update(1) by simp
  next
    fix v1 assume h: "HandleLeaderRequestTermUnlocked env t v = (v1, Inr False)" "vm v' = vm v1"
    then show ?thesis using known_kept [OF assms(2) update(3), of v' c'] request_term_kept(1) [OF h(1) update(4)] update(1) by simp
  next
    fix r1 assume h: "HandleLeaderRequestTermUnlocked env t v = (v', r1)" "r = Inl Fatal \<longleftrightarrow> r1 = Inl Fatal"
    then show ?thesis
      using known_kept [OF assms(2) update(3), of v' c'] request_term_kept(1) [OF h(1) update(4)] update(1,6) by simp
  qed (use known_kept [OF assms(2) update(3), of v' c'] update(1) in auto)
next
  case (other w v v')
  then show ?thesis using known_kept [OF assms(2) other(2) handler_kept [OF other(3)], of c'] by simp
next
  case (crash w v v1 v2)
  then show ?thesis using known_new [OF assms(2), of v2 c' w] loaded_leader [OF crash(4)] by simp
qed

lemma known_reachable:
  assumes "cluster_reachable term_writable configs c" "\<forall>h\<in>configs. wf_config h"
  shows "leaders_known c"
  using assms(1)
proof induction
  case start
  show ?case by (simp add: leaders_known_def)
next
  case (step c c')
  then show ?case using known_step cluster_reachable_ok [OF step(1) assms(2)] by blast
qed

end
