(* ===== verification/ConfigChange.thy ===== *)
theory ConfigChange
  imports RaftLeadership
begin

text \<open>
  Changes of the configuration: \<open>RaftConsensus::ChangeConfig\<close> in \<^verbatim>\<open>src/yb/consensus/raft_consensus.cc\<close>, which a leader runs to add
  or remove a peer or to make a new peer a voter, and the pending and committed configurations in \<^verbatim>\<open>replica_state.cc\<close>.
  The configuration of the change is pending on the leader and on every follower that has its log entry, and is
  committed with the index of the entry. The log itself is not modelled: the index and whether the entry could be appended
  are given, and so are the location of the server and its choice of addresses.
\<close>

section \<open>Requests\<close>

datatype change_config_type = UNKNOWN_CHANGE | ADD_SERVER | REMOVE_SERVER | CHANGE_ROLE

datatype change_error =
    INVALID_CONFIG | NOT_THE_LEADER | CAS_FAILED | LEADER_NOT_READY_CHANGE_CONFIG | ADD_CHANGE_CONFIG_ALREADY_PRESENT
  | REMOVE_CHANGE_CONFIG_NOT_PRESENT | LEADER_NEEDS_STEP_DOWN

record config_request = change_config_request +
  request_type :: "change_config_type option"
  has_server :: bool
  cas_config_opid_index :: "int option"

record change_env =
  ip_mode :: private_ip_mode
  local_cloud_info :: cloud_info
  committed_op_id :: op_id
  change_index :: int
  append_error :: "status option"

definition config_index :: "raft_config \<Rightarrow> int" where
  "config_index g = (case opid_index g of None \<Rightarrow> 0 | Some i \<Rightarrow> i)"

section \<open>Pending and committed configurations\<close>

text \<open>The state after a call, and its status; a failed check is \<open>Fatal\<close>.\<close>

definition SetPendingConfigUnlocked :: "raft_config \<Rightarrow> voter \<Rightarrow> voter \<times> unit result" where
  "SetPendingConfigUnlocked new_config v =
     (case VerifyRaftConfig new_config UNCOMMITTED_QUORUM of
        Inl err \<Rightarrow> (v, Inl err)
      | Inr _ \<Rightarrow>
          if cm_pending_config (vm v) \<noteq> None then (v, Inl Fatal)
          else (case set_pending_config new_config (vm v) of
                  Inl err \<Rightarrow> (v, Inl err)
                | Inr m \<Rightarrow> (v\<lparr>vm := m\<rparr>, Inr ())))"

definition ClearPendingConfigUnlocked :: "voter \<Rightarrow> voter \<times> unit result" where
  "ClearPendingConfigUnlocked v =
     (if cm_pending_config (vm v) = None then (v, Inl IllegalState)
      else (case clear_pending_config (vm v) of
              Inl err \<Rightarrow> (v, Inl err)
            | Inr m \<Rightarrow> (v\<lparr>vm := m\<rparr>, Inr ())))"

definition SetCommittedConfigUnlocked :: "status option \<Rightarrow> raft_config \<Rightarrow> voter \<Rightarrow> voter \<times> unit result" where
  "SetCommittedConfigUnlocked io g v =
     (case VerifyRaftConfig g COMMITTED_QUORUM of
        Inl err \<Rightarrow> (v, Inl err)
      | Inr _ \<Rightarrow>
          if cm_pending_config (vm v) \<noteq> Some (g\<lparr>opid_index := None\<rparr>) then (v, Inl Fatal)
          else (case bind_result (set_committed_config g (vm v)) clear_pending_config of
                  Inl err \<Rightarrow> (v, Inl err)
                | Inr m \<Rightarrow>
                    (case Flush io m of
                       (m, Inl _) \<Rightarrow> (v\<lparr>vm := m\<rparr>, Inl Fatal)
                     | (m, Inr _) \<Rightarrow> (v\<lparr>vm := m\<rparr>, Inr ()))))"

text \<open>The part of \<open>AddPendingOperation\<close> for the entry of a change: followers learn of it here.\<close>

definition AddPendingConfigChange :: "int \<Rightarrow> raft_config \<Rightarrow> voter \<Rightarrow> voter \<times> unit result" where
  "AddPendingConfigChange index new_config v =
     (if cm_active_role (vm v) \<noteq> LEADER
      then if cm_pending_config (vm v) \<noteq> None then (v, Inl IllegalState)
           else if index > config_index (committed_config (vm v))
           then (case SetPendingConfigUnlocked new_config v of
                   (v, Inl _) \<Rightarrow> (v, Inl Fatal)
                 | (v, Inr _) \<Rightarrow> (v, Inr ()))
           else (v, Inr ())
      else (v, Inr ()))"

definition ApplyConfigChangeUnlocked :: "status option \<Rightarrow> int \<Rightarrow> raft_config \<Rightarrow> voter \<Rightarrow> voter \<times> unit result" where
  "ApplyConfigChangeUnlocked io index new_config v =
     (if index > config_index (committed_config (vm v))
      then (case SetCommittedConfigUnlocked io (new_config\<lparr>opid_index := Some index\<rparr>) v of
              (v, Inl _) \<Rightarrow> (v, Inl Fatal)
            | (v, Inr _) \<Rightarrow> (v, Inr ()))
      else (v, Inr ()))"

section \<open>Changing the configuration\<close>

definition CheckActiveLeaderUnlocked :: "voter \<Rightarrow> unit result" where
  "CheckActiveLeaderUnlocked v =
     (if cm_active_role (vm v) \<noteq> LEADER then Inl IllegalState
      else if \<not> leader_no_op_committed v then Inl LeaderNotReadyToServe
      else Inr ())"

definition IsLeaderReadyForChangeConfigUnlocked :: "change_env \<Rightarrow> change_config_type \<Rightarrow> uuid \<Rightarrow> voter \<Rightarrow> unit result" where
  "IsLeaderReadyForChangeConfigUnlocked env type server_uuid v =
     (let g = active_config (vm v);
          servers_in_transition =
            (if type = ADD_SERVER then CountServersInTransition g ''''
             else if type = REMOVE_SERVER then CountServersInTransition g server_uuid else 0)
      in if op_term (committed_op_id env) \<noteq> voter_term v \<or> cm_pending_config (vm v) \<noteq> None \<or> servers_in_transition \<noteq> 0
         then Inl IllegalState else Inr ())"

text \<open>The new configuration, or an error and its code if it has one: the switch of \<open>ChangeConfig\<close>.\<close>

definition NewConfig ::
  "change_env \<Rightarrow> change_config_type \<Rightarrow> config_request \<Rightarrow> uuid \<Rightarrow> raft_config \<Rightarrow> change_error option \<times> raft_config result" where
  "NewConfig env type req self committed =
     (let new_config = committed\<lparr>opid_index := None\<rparr>;
          use_hostport = (use_host req = Some True);
          server_uuid = permanent_uuid (server req)
      in case type of
           ADD_SERVER \<Rightarrow>
             if IsRaftConfigMember server_uuid committed then (Some ADD_CHANGE_CONFIG_ALREADY_PRESENT, Inl IllegalState)
             else if peer_member_type (server req) = None then (None, Inl InvalidArgument)
             else if member_type_of (server req) \<noteq> PRE_VOTER \<and> member_type_of (server req) \<noteq> PRE_OBSERVER then (None, Inl InvalidArgument)
             else if last_known_private_addr (server req) = [] then (None, Inl InvalidArgument)
             else (None, Inr (new_config\<lparr>peers := peers new_config @ [server req]\<rparr>))
         | REMOVE_SERVER \<Rightarrow>
             if use_hostport \<and> last_known_private_addr (server req) = [] then (None, Inl InvalidArgument)
             else
               (case (if use_hostport then GetHostPortFromConfig (ip_mode env) new_config self (local_cloud_info env) True
                      else Inr \<lparr>host = '''', port = 0\<rparr>) of
                  Inl err \<Rightarrow> (None, Inl err)
                | Inr leader_hp \<Rightarrow>
                    if use_hostport \<and> list_ex (\<lambda>hp. port leader_hp = port hp \<and> host leader_hp = host hp) (last_known_private_addr (server req))
                    then (None, Inl InvalidArgument)
                    else if server_uuid = self then (Some LEADER_NEEDS_STEP_DOWN, Inl InvalidArgument)
                    else (case RemoveFromRaftConfig new_config (change_config_request.truncate req) of
                            (False, _) \<Rightarrow> (Some REMOVE_CHANGE_CONFIG_NOT_PRESENT, Inl NotFound)
                          | (True, g) \<Rightarrow> (None, Inr g)))
         | CHANGE_ROLE \<Rightarrow>
             if server_uuid = self then (None, Inl InvalidArgument)
             else
               (case GetMutableRaftConfigMember new_config server_uuid of
                  Inl _ \<Rightarrow> (None, Inl NotFound)
                | Inr i \<Rightarrow>
                    let p = peers new_config ! i in
                    if member_type_of p \<noteq> PRE_OBSERVER \<and> member_type_of p \<noteq> PRE_VOTER then (None, Inl IllegalState)
                    else (None, Inr (new_config\<lparr>peers := (peers new_config)
                           [i := p\<lparr>peer_member_type := Some (if member_type_of p = PRE_OBSERVER then OBSERVER else VOTER)\<rparr>]\<rparr>)))
         | UNKNOWN_CHANGE \<Rightarrow> (None, Inl InvalidArgument))"

definition ReplicateConfigChangeUnlocked :: "change_env \<Rightarrow> raft_config \<Rightarrow> voter \<Rightarrow> voter \<times> unit result" where
  "ReplicateConfigChangeUnlocked env new_config v =
     (case SetPendingConfigUnlocked new_config v of
        (v, Inl err) \<Rightarrow> (v, Inl err)
      | (v, Inr _) \<Rightarrow>
          let op_id = OpId (voter_term v) (change_index env);
              v = call [AppendConfigChange op_id new_config] (RefreshConsensusQueueAndPeersUnlocked v)
          in case append_error env of
               None \<Rightarrow> (v\<lparr>last_received_op_id := op_id, last_received_op_id_current_leader := op_id\<rparr>, Inr ())
             | Some err \<Rightarrow>
                 (case ClearPendingConfigUnlocked v of
                    (v, cleared) \<Rightarrow> (v, if cleared = Inl Fatal then Inl Fatal else Inl err)))"

text \<open>The state after the call, the code of the error if one was set, and the status.\<close>

definition ChangeConfig :: "change_env \<Rightarrow> config_request \<Rightarrow> voter \<Rightarrow> voter \<times> change_error option \<times> unit result" where
  "ChangeConfig env req v =
     (case request_type req of
        None \<Rightarrow> (v, None, Inl InvalidArgument)
      | Some type \<Rightarrow>
          if \<not> has_server req then (v, Some INVALID_CONFIG, Inl InvalidArgument)
          else if type \<noteq> REMOVE_SERVER \<and> use_host req = Some True then (v, None, Inl InvalidArgument)
          else if use_host req \<noteq> Some True \<and> peer_uuid (server req) = None then (v, None, Inl InvalidArgument)
          else if \<not> running v then (v, None, Inl IllegalState)
          else
            (case CheckActiveLeaderUnlocked v of
               Inl err \<Rightarrow> (v, Some NOT_THE_LEADER, Inl err)
             | Inr _ \<Rightarrow>
             (case IsLeaderReadyForChangeConfigUnlocked env type (permanent_uuid (server req)) v of
               Inl err \<Rightarrow> (v, Some LEADER_NOT_READY_CHANGE_CONFIG, Inl err)
             | Inr _ \<Rightarrow>
                 let committed = committed_config (vm v) in
                 if cas_config_opid_index req \<noteq> None \<and> cas_config_opid_index req \<noteq> Some (config_index committed)
                 then (v, Some CAS_FAILED, Inl IllegalState)
                 else
                   (case NewConfig env type req (cm_peer_uuid (vm v)) committed of
                      (code, Inl err) \<Rightarrow> (v, code, Inl err)
                    | (code, Inr new_config) \<Rightarrow>
                        (case ReplicateConfigChangeUnlocked env new_config v of
                           (v, Inl err) \<Rightarrow> (v, code, Inl err)
                         | (v, Inr _) \<Rightarrow> (call [SignalRequest] v, code, Inr ()))))))"

section \<open>Voters of the new configuration\<close>

lemma apart_peers:
  assumes "peers g1 = peers g" "peers h1 = peers h"
  shows "one_voter_apart g1 h1 = one_voter_apart g h"
  using assms by (simp add: one_voter_apart_def voters_def CountVoters_def CountMemberType_def)

lemma added_apart:
  assumes "member_type_of p \<noteq> VOTER"
  shows "one_voter_apart g (g\<lparr>peers := peers g @ [p]\<rparr>)"
  using assms by (auto simp: one_voter_apart_def voters_def CountVoters_def CountMemberType_filter)

lemma length_filter_update: "length (filter P (xs[i := x])) \<le> length (filter P xs) + 1"
proof (induction xs arbitrary: i)
  case (Cons y ys)
  show ?case
  proof (cases i)
    case (Suc j)
    then show ?thesis using Cons [of j] by simp
  qed simp
qed simp

lemma promoted_apart:
  assumes "i < length (peers g)" "member_type_of (peers g ! i) \<noteq> VOTER"
  shows "one_voter_apart g (g\<lparr>peers := (peers g)[i := p]\<rparr>)"
proof -
  have "q \<in> set ((peers g)[i := p])" if q: "q \<in> set (peers g)" "member_type_of q = VOTER" for q
  proof -
    obtain j where j: "j < length (peers g)" "q = peers g ! j" using q(1) by (auto simp: in_set_conv_nth)
    then have "j \<noteq> i" using q(2) assms(2) by auto
    then have "(peers g)[i := p] ! j = q" using j by simp
    then show ?thesis using j(1) by (metis length_list_update nth_mem)
  qed
  then have "voters g \<subseteq> voters (g\<lparr>peers := (peers g)[i := p]\<rparr>)" by (auto simp: voters_def)
  moreover have "CountVoters (g\<lparr>peers := (peers g)[i := p]\<rparr>) \<le> CountVoters g + 1"
    using length_filter_update by (simp add: CountVoters_def CountMemberType_filter)
  ultimately show ?thesis by (simp add: one_voter_apart_def)
qed

lemma member_index: "GetMutableRaftConfigMember g u = Inr i \<Longrightarrow> i < length (peers g)"
  by (auto simp: GetMutableRaftConfigMember_def find_Some_iff split: option.splits)

lemma new_config_apart:
  assumes "NewConfig env type req self g = (code, Inr g')" "wf_config g" "use_host req \<noteq> Some True"
  shows "one_voter_apart g g'"
proof (cases type)
  case UNKNOWN_CHANGE
  then show ?thesis using assms(1) by (simp add: NewConfig_def)
next
  case ADD_SERVER
  then have "g' = g\<lparr>opid_index := None, peers := peers g @ [server req]\<rparr>" "member_type_of (server req) \<noteq> VOTER"
    using assms(1) by (auto simp: NewConfig_def Let_def split: if_splits)
  then show ?thesis using added_apart [of "server req" g] apart_peers [OF refl, of g' "g\<lparr>peers := peers g @ [server req]\<rparr>" g] by simp
next
  case REMOVE_SERVER
  let ?g = "g\<lparr>opid_index := None\<rparr>"
  have r: "RemoveFromRaftConfig ?g (change_config_request.truncate req) = (True, g')"
    using assms(1,3) REMOVE_SERVER by (auto simp: NewConfig_def Let_def split: if_splits prod.splits bool.splits)
  have "wf_config ?g" "use_host (change_config_request.truncate req) \<noteq> Some True"
    using assms(2,3) by (simp_all add: wf_config_def change_config_request.truncate_def)
  from removed_apart [OF this] show ?thesis unfolding r using apart_peers [OF _ refl, of ?g g g'] by simp
next
  case CHANGE_ROLE
  then obtain i p where i: "GetMutableRaftConfigMember (g\<lparr>opid_index := None\<rparr>) (permanent_uuid (server req)) = Inr i"
      "member_type_of (peers g ! i) = PRE_OBSERVER \<or> member_type_of (peers g ! i) = PRE_VOTER"
      "g' = g\<lparr>opid_index := None, peers := (peers g)[i := p]\<rparr>"
    using assms(1) by (auto simp: NewConfig_def Let_def split: if_splits sum.splits)
  have "one_voter_apart g (g\<lparr>peers := (peers g)[i := p]\<rparr>)"
    using promoted_apart [of i g p] member_index [OF i(1)] i(2) by auto
  then show ?thesis using i(3) apart_peers [OF refl, of g' "g\<lparr>peers := (peers g)[i := p]\<rparr>" g] by simp
qed

section \<open>Steps of a replica\<close>

definition packable :: "int \<Rightarrow> bool" where
  "packable t \<longleftrightarrow> (\<exists>w. PackRoleAndTerm FOLLOWER t = Inr w)"

lemma pack_packable: "PackRoleAndTerm r t = Inr w \<Longrightarrow> packable t" "packable t \<Longrightarrow> \<exists>w. PackRoleAndTerm r t = Inr w"
  by (auto simp: packable_def PackRoleAndTerm_def split: if_splits)

lemma active_role_pack:
  assumes "UpdateActiveRole m = Inr m'"
  shows "packable (current_term m) \<and> (\<exists>r w. m' = m\<lparr>cm_active_role := r, role_and_term_cache := w\<rparr>)"
proof -
  have t: "(if pb_current_term (cm_pb m) \<noteq> None then current_term m else 0) = current_term m" by (auto simp: current_term_def)
  then obtain r w where "PackRoleAndTerm r (current_term m) = Inr w" "m' = m\<lparr>cm_active_role := r, role_and_term_cache := w\<rparr>"
    using assms by (auto simp: UpdateActiveRole_def UpdateRoleAndTermCache_def bind_result_eq_Inr current_term_def split: if_splits)
  then show ?thesis using pack_packable(1) by blast
qed

lemma active_role_works:
  assumes "packable (current_term m)"
  shows "\<exists>r w. UpdateActiveRole m = Inr (m\<lparr>cm_active_role := r, role_and_term_cache := w\<rparr>)"
proof -
  obtain c where c: "ToConsensusStatePB CONSENSUS_CONFIG_ACTIVE m = Inr c" by (simp add: ToConsensusStatePB_def)
  obtain w where "PackRoleAndTerm (GetConsensusRole (cm_peer_uuid m) c) (current_term m) = Inr w"
    using pack_packable(2) [OF assms] by blast
  then have "UpdateActiveRole m = Inr (m\<lparr>cm_active_role := GetConsensusRole (cm_peer_uuid m) c, role_and_term_cache := w\<rparr>)"
    using c by (cases "pb_current_term (cm_pb m)") (simp_all add: UpdateActiveRole_def UpdateRoleAndTermCache_def current_term_def)
  then show ?thesis by blast
qed

text \<open>Setting and clearing a pending configuration changes nothing that is written to the file.\<close>

definition same_file :: "cmeta \<Rightarrow> cmeta \<Rightarrow> bool" where
  "same_file m m' \<longleftrightarrow> cm_pb m' = cm_pb m \<and> disk m' = disk m \<and> cm_peer_uuid m' = cm_peer_uuid m \<and> cm_leader_uuid m' = cm_leader_uuid m"

lemma same_file_refl [simp]: "same_file m m"
  by (simp add: same_file_def)

lemma same_file_trans: "same_file a b \<Longrightarrow> same_file b c \<Longrightarrow> same_file a c"
  by (simp add: same_file_def)

lemma set_pending_keeps:
  assumes "SetPendingConfigUnlocked g v = (v', r)"
  shows "same_file (vm v) (vm v')"
    "r = Inr () \<Longrightarrow> VerifyRaftConfig g UNCOMMITTED_QUORUM = Inr () \<and> cm_pending_config (vm v) = None \<and>
       cm_pending_config (vm v') = Some g \<and> packable (voter_term v')"
proof -
  have m: "same_file (vm v) m \<and> cm_pending_config m = Some g \<and> packable (current_term m)"
    if "set_pending_config g (vm v) = Inr m" for m
    using active_role_pack [of "(vm v)\<lparr>cm_pending_config := Some g\<rparr>" m] that
    by (auto simp: set_pending_config_def same_file_def current_term_def)
  show "same_file (vm v) (vm v')"
    using assms m by (auto simp: SetPendingConfigUnlocked_def split: sum.splits if_splits)
  show "VerifyRaftConfig g UNCOMMITTED_QUORUM = Inr () \<and> cm_pending_config (vm v) = None \<and>
       cm_pending_config (vm v') = Some g \<and> packable (voter_term v')" if "r = Inr ()"
    using assms m that by (auto simp: SetPendingConfigUnlocked_def split: sum.splits if_splits)
qed

lemma clear_pending_keeps: "ClearPendingConfigUnlocked v = (v', r) \<Longrightarrow> same_file (vm v) (vm v')"
  using active_role_pack by (fastforce simp: ClearPendingConfigUnlocked_def clear_pending_config_def same_file_def split: sum.splits if_splits)

lemma refresh_vm [simp]: "vm (call as v) = vm v" "vm (RefreshConsensusQueueAndPeersUnlocked v) = vm v"
  by (simp_all add: call_def RefreshConsensusQueueAndPeersUnlocked_def Let_def)

lemma replicate_keeps:
  assumes "ReplicateConfigChangeUnlocked env g v = (v', r)"
  shows "same_file (vm v) (vm v')"
    "r = Inr () \<Longrightarrow> \<exists>v1. SetPendingConfigUnlocked g v = (v1, Inr ()) \<and> vm v' = vm v1"
proof -
  obtain v1 r1 where s: "SetPendingConfigUnlocked g v = (v1, r1)" by fastforce
  note k = set_pending_keeps(1) [OF s]
  have "same_file (vm v1) (vm v')"
    using assms s clear_pending_keeps [of "call [AppendConfigChange (OpId (voter_term v1) (change_index env)) g] (RefreshConsensusQueueAndPeersUnlocked v1)"]
    by (auto simp: ReplicateConfigChangeUnlocked_def Let_def split: sum.splits option.splits prod.splits)
  then show "same_file (vm v) (vm v')" by (rule same_file_trans [OF k])
  show "\<exists>v1. SetPendingConfigUnlocked g v = (v1, Inr ()) \<and> vm v' = vm v1" if "r = Inr ()"
    using assms s that by (auto simp: ReplicateConfigChangeUnlocked_def Let_def split: sum.splits option.splits prod.splits if_splits)
qed

lemma change_config_replicates:
  assumes "ChangeConfig env req v = (v', code, r)"
  shows "same_file (vm v) (vm v')"
    "r = Inr () \<Longrightarrow> \<exists>type g' v1. NewConfig env type req (cm_peer_uuid (vm v)) (committed_config (vm v)) = (code, Inr g') \<and>
       SetPendingConfigUnlocked g' v = (v1, Inr ()) \<and> vm v' = vm v1"
proof -
  have "v' = v \<and> r \<noteq> Inr () \<or>
    (\<exists>type g' v1 r1. NewConfig env type req (cm_peer_uuid (vm v)) (committed_config (vm v)) = (code, Inr g') \<and>
       ReplicateConfigChangeUnlocked env g' v = (v1, r1) \<and> vm v' = vm v1 \<and> (r = Inr () \<longrightarrow> r1 = Inr ()))"
    using assms by (force simp: ChangeConfig_def Let_def split: option.splits if_splits sum.splits prod.splits)
  then show "same_file (vm v) (vm v')"
    "r = Inr () \<Longrightarrow> \<exists>type g' v1. NewConfig env type req (cm_peer_uuid (vm v)) (committed_config (vm v)) = (code, Inr g') \<and>
       SetPendingConfigUnlocked g' v = (v1, Inr ()) \<and> vm v' = vm v1"
    using replicate_keeps by (auto 0 4)
qed

lemma add_pending_works:
  assumes "VerifyRaftConfig g UNCOMMITTED_QUORUM = Inr ()" "cm_active_role (vm v) \<noteq> LEADER" "cm_pending_config (vm v) = None"
    and "config_index (committed_config (vm v)) < index" "packable (voter_term v)"
  shows "\<exists>v'. AddPendingConfigChange index g v = (v', Inr ()) \<and> active_config (vm v') = g"
proof -
  have "packable (current_term ((vm v)\<lparr>cm_pending_config := Some g\<rparr>))" using assms(5) by (simp add: current_term_def)
  from active_role_works [OF this] show ?thesis
    using assms by (auto simp: AddPendingConfigChange_def SetPendingConfigUnlocked_def set_pending_config_def active_config_def)
qed

lemma apply_works:
  assumes "cm_pending_config (vm v) = Some g" "VerifyRaftConfig g UNCOMMITTED_QUORUM = Inr ()" "packable (voter_term v)"
    and "config_index (committed_config (vm v)) < index"
  shows "\<exists>v'. ApplyConfigChangeUnlocked None index g v = (v', Inr ()) \<and> cm_pending_config (vm v') = None \<and>
    committed_config (vm v') = g\<lparr>opid_index := Some index\<rparr> \<and> disk (vm v') = Some (cm_pb (vm v')) \<and>
    unrelated (vm v) (vm v') \<and> cm_leader_uuid (vm v') = cm_leader_uuid (vm v)"
proof -
  let ?g = "g\<lparr>opid_index := Some index\<rparr>"
  have none: "opid_index g = None" using assms(2) by (simp add: VerifyRaftConfig_iff)
  have ver: "VerifyRaftConfig ?g COMMITTED_QUORUM = Inr ()" using assms(2) by (simp add: VerifyRaftConfig_iff)
  define m where "m = (vm v)\<lparr>cm_pb := (cm_pb (vm v))\<lparr>pb_committed_config := Some ?g\<rparr>\<rparr>"
  have c: "set_committed_config ?g (vm v) = Inr m" using assms(1) by (simp add: set_committed_config_def m_def Let_def)
  have "packable (current_term (m\<lparr>cm_pending_config := None\<rparr>))" using assms(3) by (simp add: current_term_def m_def)
  from active_role_works [OF this] obtain r w where
    u: "clear_pending_config m = Inr (m\<lparr>cm_pending_config := None, cm_active_role := r, role_and_term_cache := w\<rparr>)"
    unfolding clear_pending_config_def by auto
  define m' where "m' = m\<lparr>cm_pending_config := None, cm_active_role := r, role_and_term_cache := w\<rparr>"
  have g: "committed_config m' = ?g" by (simp add: m'_def m_def committed_config_def)
  have f: "Flush None m' = (m'\<lparr>disk := Some (cm_pb m')\<rparr>, Inr ())" using ver g by (simp add: Flush_def)
  have p: "?g\<lparr>opid_index := None\<rparr> = g" using none by simp
  have "SetCommittedConfigUnlocked None ?g v = (v\<lparr>vm := m'\<lparr>disk := Some (cm_pb m')\<rparr>\<rparr>, Inr ())"
    unfolding SetCommittedConfigUnlocked_def ver c p using assms(1) u f by (simp add: m'_def)
  then have "ApplyConfigChangeUnlocked None index g v = (v\<lparr>vm := m'\<lparr>disk := Some (cm_pb m')\<rparr>\<rparr>, Inr ())"
    using assms(4) by (simp add: ApplyConfigChangeUnlocked_def)
  then show ?thesis using g by (auto simp: committed_config_def m'_def m_def unrelated_def)
qed

text \<open>In the runs of a cluster, changes of the configuration are steps.\<close>

lemma same_file_handler: "same_file (vm v) (vm v') \<Longrightarrow> handler allowed v v' fatal"
  by (rule handler.unrelated) (auto simp: same_file_def unrelated_def)

lemma change_config_handler: "ChangeConfig env req v = (v', code, r) \<Longrightarrow> handler allowed v v' (r = Inl Fatal)"
  by (rule same_file_handler) (rule change_config_replicates(1))

lemma add_pending_handler:
  assumes "AddPendingConfigChange index g v = (v', r)"
  shows "handler allowed v v' (r = Inl Fatal)"
proof (rule same_file_handler)
  obtain v1 r1 where s: "SetPendingConfigUnlocked g v = (v1, r1)" by fastforce
  then have "v' = v \<or> v' = v1" using assms by (auto simp: AddPendingConfigChange_def split: if_splits sum.splits)
  then show "same_file (vm v) (vm v')" using set_pending_keeps(1) [OF s] by auto
qed

lemma active_role_file: "UpdateActiveRole m = Inr m' \<Longrightarrow> same_file m m'"
  using active_role_pack by (fastforce simp: same_file_def)

lemma apply_handler:
  assumes "ApplyConfigChangeUnlocked io index g v = (v', r)"
  shows "handler allowed v v' (r = Inl Fatal)"
proof (cases "v' = v")
  case True
  then show ?thesis by (simp add: same_file_handler)
next
  case False
  let ?g = "g\<lparr>opid_index := Some index\<rparr>"
  define n where "n = (vm v)\<lparr>cm_pb := (cm_pb (vm v))\<lparr>pb_committed_config := Some ?g\<rparr>\<rparr>"
  obtain m1 m2 r1 where m: "set_committed_config ?g (vm v) = Inr m1" "clear_pending_config m1 = Inr m2" "Flush io m2 = (vm v', r1)"
    using assms False
    by (auto simp: ApplyConfigChangeUnlocked_def SetCommittedConfigUnlocked_def bind_result_eq_Inr split: if_splits sum.splits prod.splits)
  have "m1 = n \<or> UpdateActiveRole n = Inr m1" using m(1) by (auto simp: set_committed_config_def Let_def n_def split: if_splits)
  then have "same_file n m1" using active_role_file by auto
  moreover have "same_file m1 m2" using active_role_file m(2) unfolding clear_pending_config_def by (fastforce simp: same_file_def)
  ultimately have f: "same_file n m2" by (rule same_file_trans)
  have "vm v' = m2 \<or> vm v' = m2\<lparr>disk := Some (cm_pb m2)\<rparr>" using m(3) by (auto simp: Flush_def split: sum.splits option.splits)
  then show ?thesis using f by (intro handler.unrelated) (auto simp: unrelated_def same_file_def n_def)
qed

text \<open>C16. A change of the configuration is safe. If the change of a leader with a verified configuration is accepted, then no
  other was pending; the new configuration is pending, verified, and each of its majorities meets each majority of the old
  one, whether a server was added, removed by its uuid, or made a voter. A follower that gets the log entry has the new
  configuration in force as well, and committing the entry makes it the committed configuration, in memory and on disk.\<close>

theorem config_change_safe:
  assumes "ChangeConfig env req v = (v', code, Inr ())" "VerifyRaftConfig (committed_config (vm v)) COMMITTED_QUORUM = Inr ()"
    and "use_host req \<noteq> Some True"
  shows "\<exists>g'. cm_pending_config (vm v) = None \<and> cm_pending_config (vm v') = Some g' \<and> VerifyRaftConfig g' UNCOMMITTED_QUORUM = Inr () \<and>
    (\<forall>A B. majority (committed_config (vm v)) A \<and> majority g' B \<longrightarrow> A \<inter> B \<noteq> {}) \<and>
    (\<forall>w index. cm_active_role (vm w) \<noteq> LEADER \<and> cm_pending_config (vm w) = None \<and> config_index (committed_config (vm w)) < index \<and>
       0 \<le> voter_term w \<and> voter_term w < 2 ^ 61 \<longrightarrow>
       (\<exists>w'. AddPendingConfigChange index g' w = (w', Inr ()) \<and> active_config (vm w') = g')) \<and>
    (\<forall>index. config_index (committed_config (vm v)) < index \<longrightarrow>
       (\<exists>v''. ApplyConfigChangeUnlocked None index g' v' = (v'', Inr ()) \<and> cm_pending_config (vm v'') = None \<and>
          committed_config (vm v'') = g'\<lparr>opid_index := Some index\<rparr> \<and> disk (vm v'') = Some (cm_pb (vm v''))))"
proof -
  obtain type g' v1 where n: "NewConfig env type req (cm_peer_uuid (vm v)) (committed_config (vm v)) = (code, Inr g')"
      "SetPendingConfigUnlocked g' v = (v1, Inr ())" "vm v' = vm v1"
    using change_config_replicates(2) [OF assms(1)] by blast
  have p: "VerifyRaftConfig g' UNCOMMITTED_QUORUM = Inr ()" "cm_pending_config (vm v) = None" "cm_pending_config (vm v') = Some g'"
      "packable (voter_term v')"
    using set_pending_keeps(2) [OF n(2)] n(3) by simp_all
  have c: "committed_config (vm v') = committed_config (vm v)"
    using set_pending_keeps(1) [OF n(2)] n(3) by (simp add: same_file_def committed_config_def)
  have "one_voter_apart (committed_config (vm v)) g'" using new_config_apart [OF n(1) verified_wf [OF assms(2)] assms(3)] .
  then have "\<forall>A B. majority (committed_config (vm v)) A \<and> majority g' B \<longrightarrow> A \<inter> B \<noteq> {}" using apart_meet by blast
  moreover have "packable (voter_term w)" if "0 \<le> voter_term w" "voter_term w < 2 ^ 61" for w
    using pack_in_range [OF that] pack_packable(1) by blast
  moreover have "\<exists>v''. ApplyConfigChangeUnlocked None index g' v' = (v'', Inr ()) \<and> cm_pending_config (vm v'') = None \<and>
      committed_config (vm v'') = g'\<lparr>opid_index := Some index\<rparr> \<and> disk (vm v'') = Some (cm_pb (vm v''))"
    if "config_index (committed_config (vm v)) < index" for index
    using apply_works [OF p(3,1,4), of index] that c by auto
  ultimately show ?thesis using p add_pending_works [OF p(1)] by (intro exI [of _ g'] conjI) blast+
qed

definition pair_config :: raft_config where
  "pair_config = \<lparr>opid_index = Some 0, peers = [sample_peer ''a'', sample_peer ''b'']\<rparr>"

definition sample_leader :: voter where
  "sample_leader =
     (let pb = \<lparr>pb_committed_config = Some pair_config, pb_current_term = Some 4, pb_voted_for = Some ''a''\<rparr>
      in (sample_voter [] 0 None)\<lparr>vm := \<lparr>cm_peer_uuid = ''a'', cm_leader_uuid = ''a'', cm_pending_config = None, cm_active_role = LEADER,
           cm_pb = pb, role_and_term_cache = of_nat (role_value LEADER) OR push_bit 3 4, disk = Some pb\<rparr>,
         leader_no_op_committed := True\<rparr>)"

definition sample_change_env :: change_env where
  "sample_change_env = \<lparr>ip_mode = mode_zone, local_cloud_info = peer_cloud_info (sample_peer ''a''), committed_op_id = OpId 4 0,
     change_index = 1, append_error = None\<rparr>"

definition sample_removal :: config_request where
  "sample_removal = \<lparr>use_host = None, server = sample_peer ''b'', request_type = Some REMOVE_SERVER, has_server = True,
     cas_config_opid_index = Some 0\<rparr>"

lemma pair_verified: "VerifyRaftConfig pair_config COMMITTED_QUORUM = Inr ()"
  by (simp add: VerifyRaftConfig_def pair_config_def sample_peer_def permanent_uuid_def)

lemma sample_leader_config: "committed_config (vm sample_leader) = pair_config"
  by (simp add: sample_leader_def committed_config_def Let_def)

lemma sample_change:
  "\<exists>v'. ChangeConfig sample_change_env sample_removal sample_leader = (v', None, Inr ()) \<and>
     cm_pending_config (vm v') = Some (solo_config\<lparr>opid_index := None\<rparr>)"
proof -
  let ?g = "solo_config\<lparr>opid_index := None\<rparr>"
  have n: "NewConfig sample_change_env REMOVE_SERVER sample_removal ''a'' pair_config = (None, Inr ?g)"
    by (simp add: NewConfig_def Let_def sample_removal_def RemoveFromRaftConfig_def change_config_request.truncate_def pair_config_def
        solo_config_def sample_peer_def permanent_uuid_def)
  have "VerifyRaftConfig ?g UNCOMMITTED_QUORUM = Inr ()"
    by (simp add: VerifyRaftConfig_def solo_config_def sample_peer_def permanent_uuid_def)
  moreover have "packable (current_term ((vm sample_leader)\<lparr>cm_pending_config := Some ?g\<rparr>))"
    using pack_in_range [of 4 FOLLOWER] by (simp add: sample_leader_def current_term_def packable_def Let_def)
  moreover have "cm_pending_config (vm sample_leader) = None" by (simp add: sample_leader_def Let_def)
  ultimately obtain v1 where p: "SetPendingConfigUnlocked ?g sample_leader = (v1, Inr ())" "cm_pending_config (vm v1) = Some ?g"
    using active_role_works [of "(vm sample_leader)\<lparr>cm_pending_config := Some ?g\<rparr>"]
    by (auto simp: SetPendingConfigUnlocked_def set_pending_config_def)
  then obtain v2 where "ReplicateConfigChangeUnlocked sample_change_env ?g sample_leader = (v2, Inr ())" "vm v2 = vm v1"
    by (simp add: ReplicateConfigChangeUnlocked_def Let_def sample_change_env_def)
  moreover have "CheckActiveLeaderUnlocked sample_leader = Inr ()" "running sample_leader" "cm_peer_uuid (vm sample_leader) = ''a''"
    by (simp_all add: CheckActiveLeaderUnlocked_def sample_leader_def Let_def sample_voter_def)
  moreover have "IsLeaderReadyForChangeConfigUnlocked sample_change_env REMOVE_SERVER (permanent_uuid (server sample_removal)) sample_leader = Inr ()"
    by (simp add: IsLeaderReadyForChangeConfigUnlocked_def Let_def sample_leader_def sample_change_env_def current_term_def active_config_def
        committed_config_def pair_config_def CountServersInTransition_def CountMemberType_def sample_peer_def member_type_of_def)
  moreover have "use_host sample_removal = None" "request_type sample_removal = Some REMOVE_SERVER" "has_server sample_removal"
      "cas_config_opid_index sample_removal = Some 0" "peer_uuid (server sample_removal) \<noteq> None" "config_index pair_config = 0"
    by (simp_all add: sample_removal_def sample_peer_def config_index_def pair_config_def)
  ultimately show ?thesis using n p(2) by (auto simp: ChangeConfig_def sample_leader_config Let_def)
qed

theorem config_change_safe_witness:
  "\<exists>v' v''. cm_pending_config (vm v') = Some (solo_config\<lparr>opid_index := None\<rparr>) \<and>
     ApplyConfigChangeUnlocked None 1 (solo_config\<lparr>opid_index := None\<rparr>) v' = (v'', Inr ()) \<and> committed_config (vm v'') = solo_config"
proof -
  obtain v' where v': "ChangeConfig sample_change_env sample_removal sample_leader = (v', None, Inr ())"
      "cm_pending_config (vm v') = Some (solo_config\<lparr>opid_index := None\<rparr>)"
    using sample_change by blast
  have "use_host sample_removal \<noteq> Some True" "config_index pair_config < 1" "solo_config\<lparr>opid_index := Some 1\<rparr> = solo_config"
    by (simp_all add: sample_removal_def config_index_def pair_config_def solo_config_def)
  then show ?thesis
    using config_change_safe [OF v'(1)] v'(2) pair_verified by (fastforce simp: sample_leader_config)
qed

section \<open>What the theorems about clusters assume\<close>

text \<open>
  The configuration \<open>g\<close> stays, or one accepted change replaces it by \<open>g'\<close>. A removal by address is left out: it removes every peer
  with the address.
\<close>

definition config_change :: "raft_config \<Rightarrow> raft_config \<Rightarrow> bool" where
  "config_change g g' \<longleftrightarrow> g' = g \<or>
     (\<exists>env req v v' code. committed_config (vm v) = g \<and> use_host req \<noteq> Some True \<and>
        ChangeConfig env req v = (v', code, Inr ()) \<and> active_config (vm v') = g')"

lemma config_change_apart:
  assumes "config_change g g'" "VerifyRaftConfig g COMMITTED_QUORUM = Inr ()"
  shows "wf_config g" "wf_config g'" "one_voter_apart g g'"
proof -
  show wf: "wf_config g" by (rule verified_wf [OF assms(2)])
  have "wf_config g' \<and> one_voter_apart g g'"
    if c: "committed_config (vm v) = g" "use_host req \<noteq> Some True" "ChangeConfig env req v = (v', code, Inr ())" "active_config (vm v') = g'"
    for env req v v' code
  proof -
    obtain type h v1 where n: "NewConfig env type req (cm_peer_uuid (vm v)) g = (code, Inr h)"
        "SetPendingConfigUnlocked h v = (v1, Inr ())" "vm v' = vm v1"
      using change_config_replicates(2) [OF c(3)] c(1) by blast
    then have "h = g'" "wf_config h"
      using set_pending_keeps(2) [OF n(2)] c(4) verified_wf [of h] by (auto simp: active_config_def)
    then show ?thesis using new_config_apart [OF n(1) wf c(2)] by simp
  qed
  moreover have "one_voter_apart g g" by (simp add: one_voter_apart_def)
  ultimately have "wf_config g' \<and> one_voter_apart g g'" using assms(1) wf unfolding config_change_def by blast
  then show "wf_config g'" "one_voter_apart g g'" by simp_all
qed

end
