(* ===== verification/SampleCluster.thy ===== *)
theory SampleCluster
  imports ConfigChange
begin

text \<open>
  A run of a cluster: a peer is removed from a configuration of two, the other one, which has committed the removal, is elected in
  term 5 by the new configuration, and announces itself to the removed peer, which still has the old configuration in force. It
  shows that the hypotheses of the theorems about clusters can hold.
\<close>

definition node_meta :: "raft_config \<Rightarrow> uuid \<Rightarrow> role \<Rightarrow> uuid \<Rightarrow> int \<Rightarrow> uuid option \<Rightarrow> cmeta" where
  "node_meta g u r leader t vote =
     (let pb = \<lparr>pb_committed_config = Some g, pb_current_term = Some t, pb_voted_for = vote\<rparr>
      in \<lparr>cm_peer_uuid = u, cm_leader_uuid = leader, cm_pending_config = None, cm_active_role = r,
          cm_pb = pb, role_and_term_cache = of_nat (role_value r) OR push_bit 3 (word_of_int t), disk = Some pb\<rparr>)"

definition node :: "cmeta \<Rightarrow> consensus_action list \<Rightarrow> voter" where
  "node m as = (sample_voter as 0 None)\<lparr>vm := m, last_received_op_id := OpId 4 7\<rparr>"

definition sample_lenv :: leader_env where
  "sample_lenv = \<lparr>use_preelection = True, start_time = 0, committed_index = 0, callback_backoff = 0, callback_time = 0,
     temporary_disable_preelections_timeout = 0, append_io = None, no_op_index = 8, deduplicate_io = None, sequence_io = None,
     log_matching = Inr True, first_message = Inr False, abort_io = None\<rparr>"

definition sample_data :: election_data where
  "sample_data = \<lparr>data_mode = NORMAL_ELECTION, pending_commit = False, must_be_committed_opid = None,
     originator_uuid = '''', initial_election = False\<rparr>"

lemma solo_verified: "VerifyRaftConfig solo_config COMMITTED_QUORUM = Inr ()"
  by (simp add: VerifyRaftConfig_def solo_config_def sample_peer_def permanent_uuid_def)

lemma solo_find:
  "find (\<lambda>p. permanent_uuid p = ''a'') (peers solo_config) = Some (sample_peer ''a'')"
  "find (\<lambda>p. permanent_uuid p = ''b'') (peers pair_config) = Some (sample_peer ''b'')"
  "member_type_of (sample_peer u) = VOTER"
  by (simp_all add: solo_config_def pair_config_def sample_peer_def permanent_uuid_def member_type_of_def)

lemmas node_eval = ToConsensusStatePB_def active_config_def committed_config_def GetConsensusRole_def leader_uuid_def
  config_def Let_def UpdateActiveRole_def UpdateRoleAndTermCache_def PackRoleAndTerm_def current_term_def solo_find

lemma node_created:
  "Create None ''a'' solo_config 4 None = Inr (node_meta solo_config ''a'' FOLLOWER '''' 4 None)"
  "Create None ''b'' pair_config 4 None = Inr (node_meta pair_config ''b'' FOLLOWER '''' 4 None)"
  using solo_verified pair_verified
  by (simp_all add: Create_def ConsensusMetadata_def set_committed_config_def set_current_term_def Flush_def node_meta_def node_eval)

lemma node_advances:
  "HandleTermAdvanceUnlocked sample_env 5 (node (node_meta solo_config ''a'' FOLLOWER '''' 4 None) as) = (node (node_meta solo_config ''a'' FOLLOWER '''' 5 None) as, Inr ())"
  using solo_verified
  by (simp add: HandleTermAdvanceUnlocked_def SetCurrentTermUnlocked_def set_current_term_def clear_voted_for_def Flush_def
      clear_leader_uuid_def set_leader_uuid_def node_def node_meta_def sample_env_def sample_voter_def node_eval)

lemma node_votes:
  "SetVotedForCurrentTermUnlocked None ''a'' (node (node_meta solo_config ''a'' FOLLOWER '''' 5 None) as) =
     (node (node_meta solo_config ''a'' FOLLOWER '''' 5 (Some ''a'')) as, Inr ())"
  using solo_verified
  by (simp add: SetVotedForCurrentTermUnlocked_def set_voted_for_def Flush_def node_def node_meta_def sample_voter_def
      committed_config_def Let_def)

abbreviation started :: voter where
  "started \<equiv> node (node_meta solo_config ''a'' FOLLOWER '''' 5 (Some ''a'')) [SnoozeFailureDetector (Some 0)]"

lemma node_fields:
  "vm (node m as) = m" "running (node m as)" "actions (node m as) = as" "last_received_op_id (node m as) = OpId 4 7"
  "current_term (node_meta g u r l t vote) = t" "cm_peer_uuid (node_meta g u r l t vote) = u"
  "cm_leader_uuid (node_meta g u r l t vote) = l" "cm_active_role (node_meta g u r l t vote) = r"
  "active_config (node_meta g u r l t vote) = g" "committed_config (node_meta g u r l t vote) = g"
  "pending_election_opid (node m as) = None"
  by (simp_all add: node_def node_meta_def sample_voter_def current_term_def active_config_def committed_config_def Let_def)

lemma node_elects:
  "CreateElectionUnlocked sample_env NORMAL_ELECTION False (node (node_meta solo_config ''a'' FOLLOWER '''' 4 None) as) =
     ((node (node_meta solo_config ''a'' FOLLOWER '''' 5 (Some ''a'')) as), Inr (solo_election False kVoteUnknown))"
proof -
  have io: "vote_io sample_env = None" by (simp add: sample_env_def)
  have p: "v\<lparr>pending_election_opid := None\<rparr> = v" if "pending_election_opid v = None" for v :: voter using that by simp
  show ?thesis
    using solo_created
    by (simp add: CreateElectionUnlocked_def IncrementTermUnlocked_def node_fields node_advances node_votes io solo_request_def p)
qed

lemma node_starts:
  "DoStartElection sample_env sample_lenv sample_data True (node (node_meta solo_config ''a'' FOLLOWER '''' 4 None) []) =
     (started, Inr (Some (solo_election False kVoteUnknown)))"
proof -
  have c: "call as (node m bs) = node m (bs @ as)" for as bs m by (simp add: call_def node_def sample_voter_def)
  have b: "additional_backoff sample_env = 0" by (simp add: sample_env_def)
  show ?thesis
    by (simp add: DoStartElection_def Let_def node_fields sample_data_def c b node_elects)
qed

abbreviation granted :: election_result where
  "granted \<equiv> (ElectionResult False 5)\<lparr>decision := kGranted\<rparr>"

definition leading :: voter where
  "leading = fst (DoElectionCallback sample_env sample_lenv sample_data granted (started\<lparr>actions := []\<rparr>))"

lemma node_leads:
  "DoElectionCallback sample_env sample_lenv sample_data granted (started\<lparr>actions := []\<rparr>) = (leading, Inr False)"
  "SetLeaderMode 5 \<in> set (actions leading)"
proof -
  have "\<exists>v. DoElectionCallback sample_env sample_lenv sample_data granted (started\<lparr>actions := []\<rparr>) = (v, Inr False) \<and>
      SetLeaderMode 5 \<in> set (actions v)"
    by (simp add: DoElectionCallback_def ElectionResult_def sample_lenv_def node_def node_meta_def sample_voter_def
        IsRaftConfigVoter_def UpdateOldLeaderLeaseExpirationOnNonLeaderUnlocked_def TryUpdate_def SetLeaderUuidUnlocked_def
        set_leader_uuid_def BecomeLeaderUnlocked_def RefreshConsensusQueueAndPeersUnlocked_def call_def kNoCoarseTime_def
        kNoMicrosTime_def node_eval)
  then show "DoElectionCallback sample_env sample_lenv sample_data granted (started\<lparr>actions := []\<rparr>) = (leading, Inr False)"
    "SetLeaderMode 5 \<in> set (actions leading)" by (auto simp: leading_def)
qed

definition sample_cluster :: cluster where
  "sample_cluster =
     \<lparr>replicas = [''a'' \<mapsto> leading, ''b'' \<mapsto> node (node_meta pair_config ''b'' FOLLOWER '''' 4 None) []],
      elections = [(solo_config, solo_end [granted] (Sending []))], answers = {},
      leaders = {(t, ''a'') |t. SetLeaderMode t \<in> set (actions leading)}\<rparr>"

lemma sample_cluster_reachable:
  assumes "solo_config \<in> configs"
  shows "cluster_reachable term_writable configs sample_cluster"
proof -
  let ?b = "node (node_meta pair_config ''b'' FOLLOWER '''' 4 None) []" and ?a = "node (node_meta solo_config ''a'' FOLLOWER '''' 4 None) []"
  let ?c = "\<lambda>va es ls. \<lparr>replicas = [''a'' \<mapsto> va, ''b'' \<mapsto> ?b], elections = es, answers = {}, leaders = ls\<rparr>"
  let ?e = "solo_election False kVoteUnknown"
  have w: "term_writable sample_env v" if "committed_config (vm v) = solo_config" for v
    using solo_verified that by (simp add: term_writable_def sample_env_def)
  have "cluster_reachable term_writable configs (\<lparr>replicas = [''b'' \<mapsto> ?b], elections = [], answers = {}, leaders = {}\<rparr>)"
    using cluster_reachable.step [OF cluster_reachable.start cluster_step.join [of _ "''b''" None pair_config 4 None ?b]]
    by (simp add: node_fields node_created)
  from cluster_reachable.step [OF this cluster_step.join [of _ "''a''" None solo_config 4 None ?a]]
  have "cluster_reachable term_writable configs (?c ?a [] {})"
    by (simp add: node_fields node_created fun_upd_twist)
  from cluster_reachable.step [OF this cluster_step.elect [of _ "''a''" ?a _ sample_env, OF _ _ node_starts]]
  have "cluster_reachable term_writable configs (?c started [(solo_config, begin_election ?e)] {})"
    using assms w by (simp add: node_fields fun_upd_twist)
  from cluster_reachable.step [OF this cluster_step.count [of 0 _ _ _ "solo_end [] StartResponding"]]
  have "cluster_reachable term_writable configs (?c started [(solo_config, solo_end [] StartResponding)] {})"
    using solo_check by simp
  from cluster_reachable.step [OF this cluster_step.count [of 0 _ _ _ "solo_end [granted] (Sending [])"]]
  have "cluster_reachable term_writable configs (?c started [(solo_config, solo_end [granted] (Sending []))] {})"
    using solo_respond by simp
  from cluster_reachable.step [OF this cluster_step.callback [of 0 _ solo_config _ granted "''a''" started _ sample_env, OF _ _ _ _ _ _ node_leads(1)]]
  show ?thesis
    using w by (simp add: node_fields fun_upd_twist sample_cluster_def solo_end_def solo_election_def solo_request_def)
qed

lemma other_advances:
  "HandleLeaderRequestTermUnlocked sample_env 5 (node (node_meta pair_config ''b'' FOLLOWER '''' 4 None) []) =
     (node (node_meta pair_config ''b'' FOLLOWER '''' 5 None) [], Inr False)"
proof -
  have "HandleTermAdvanceUnlocked sample_env 5 (node (node_meta pair_config ''b'' FOLLOWER '''' 4 None) []) =
      (node (node_meta pair_config ''b'' FOLLOWER '''' 5 None) [], Inr ())"
    using pair_verified
    by (simp add: HandleTermAdvanceUnlocked_def SetCurrentTermUnlocked_def set_current_term_def clear_voted_for_def Flush_def
        clear_leader_uuid_def set_leader_uuid_def node_def node_meta_def sample_env_def sample_voter_def node_eval)
  then show ?thesis by (simp add: HandleLeaderRequestTermUnlocked_def node_fields)
qed

lemma sample_config_change: "config_change pair_config (solo_config\<lparr>opid_index := None\<rparr>)"
proof -
  obtain v' where v': "ChangeConfig sample_change_env sample_removal sample_leader = (v', None, Inr ())"
      "cm_pending_config (vm v') = Some (solo_config\<lparr>opid_index := None\<rparr>)"
    using sample_change by blast
  moreover have "use_host sample_removal \<noteq> Some True" by (simp add: sample_removal_def)
  ultimately show ?thesis
    unfolding config_change_def using sample_leader_config by (auto simp: active_config_def intro!: exI)
qed

lemma sample_cluster_run: "cluster_reachable term_writable (change_configs pair_config (solo_config\<lparr>opid_index := None\<rparr>)) sample_cluster"
  by (rule sample_cluster_reachable) (simp add: change_configs_def)

end
