(* ===== verification/Spec2Isabelle.thy ===== *)
theory Spec2Isabelle
  imports FastVarInt MemcmpableVarint HybridClock DocHybridTime DocKvUtil Intents LockBatches Mvcc RetryableRequests SampleCluster
begin

text \<open>
  \<^bold>\<open>A verification library for the core of a distributed document store.\<close> The program is the storage and replication
  layer under \<^verbatim>\<open>src/yb\<close>, a C++ code base. A table is split into tablets, each replicated by Raft consensus.
  A write gets a hybrid time from the clock of the leader, locks the document keys it touches, is replicated through
  the log, and becomes visible to reads by the tracking of hybrid times. Documents are stored under binary keys that
  are compared with \<^verbatim>\<open>memcmp\<close> and end with the hybrid time of the write, latest first. File names below are
  relative to \<^verbatim>\<open>src/yb\<close>. Definitions have the names of the functions they translate; a suffix or prefix is added
  where a name is taken. The tests, metrics, log lines and message texts of the code are not part of the model, and
  checks that only debug builds make are left out.

  \<^bold>\<open>Conventions.\<close> \<open>Prelude\<close> has the machine words, byte strings with their order, big-endian numbers, and results
  \<open>status + 'a\<close>: \<open>Inl\<close> of a status is an error returned, \<open>Fatal\<close> is a failed \<^verbatim>\<open>CHECK\<close> that aborts the process, and
  \<open>Undefined\<close> an operation the language leaves undefined. Objects are records passed and returned. Threads that
  share an object are step relations in which every atomic operation, mutex and wait is a step, so theorems
  hold for all interleavings. Clocks, disks, networks and flags are arguments of the definitions: every
  reading, failure and delay is covered. Sizes are as in the code; counters that would need more than \<open>2 ^ 63\<close> steps
  to overflow are \<open>nat\<close> or \<open>int\<close>. No definition needs fuel: every loop is structural or has a termination proof, and
  the compare-and-swap loops, which may go round again, are steps of the relations.

  \<^bold>\<open>Keys.\<close> \<open>KeyEncoding\<close> states what a part of a key promises, the locale \<open>key_encoding\<close>: decoding gives the value and the
  rest, and the order of encodings is that of the values whatever follows; \<open>key_pair\<close> composes two. The encodings
  are interpretations of it: \<open>FastVarInt\<close> for \<^verbatim>\<open>util/fast_varint.cc\<close> (signed, descending and unsigned integers, both
  builds of the signed decoder), \<open>MemcmpableVarint\<close> for \<^verbatim>\<open>util/memcmpable_varint.cc\<close>, \<open>DocHybridTime\<close> for
  \<^verbatim>\<open>common/doc_hybrid_time.cc\<close> (also decoding from the end of a key), and \<open>DocKvUtil\<close> for the strings and times of
  \<^verbatim>\<open>docdb/doc_kv_util.cc\<close>. The theorems are round trips with any suffix, agreement of orders, sizes, and what
  malformed input gives.

  \<^bold>\<open>Time.\<close> \<open>HybridTime\<close> has \<^verbatim>\<open>common/hybrid_time.h\<close>, a 64-bit word of microseconds and a logical part. \<open>HybridClock\<close>
  has the lock-free clock of \<^verbatim>\<open>server/hybrid_clock.cc\<close> and \<^verbatim>\<open>server/logical_clock.cc\<close> behind the locale \<open>clock\<close> of
  \<^verbatim>\<open>server/clock.h\<close>: however threads interleave, issued times rise above all that were issued or merged in.

  \<^bold>\<open>Locks.\<close> \<open>Intents\<close> has the types of intents, row marks, and the keys and values of provisional records
  (\<^verbatim>\<open>docdb/intent.cc\<close>, \<^verbatim>\<open>common/row_mark.cc\<close>). \<open>SharedLockManager\<close> has the lock of one key in
  \<^verbatim>\<open>docdb/shared_lock_manager.cc\<close>, a word of four counters with a mutex and a condition variable: no lost wake-up, and
  the word counts the holders. \<open>LockBatches\<close> has the manager with its table, reference counts and free list, the
  batches of \<^verbatim>\<open>docdb/lock_batch.cc\<close> and their preparation in \<^verbatim>\<open>docdb/docdb.cc\<close>: mutual exclusion, no deadlock, nothing
  leaks. Its steps contain those of \<open>SharedLockManager\<close>, whose invariant it uses per entry. At most 65535 threads
  hold a lock, the width of a counter.

  \<^bold>\<open>Visibility.\<close> \<open>Mvcc\<close> has \<^verbatim>\<open>tablet/mvcc.cc\<close>: a refinement of the list of live operations, and the locale \<open>safe_reads\<close>
  with its interpretation: a safe time is below every operation that becomes visible later, so reads repeat.

  \<^bold>\<open>Consensus.\<close> \<open>OpIds\<close> and \<open>Quorum\<close> have \<^verbatim>\<open>consensus/opid_util.cc\<close> and \<^verbatim>\<open>consensus/quorum_util.cc\<close>; the locale
  \<open>quorum_system\<close> says that quorums meet, interpreted for one configuration and for the two around a change.
  \<open>RetryableRequests\<close> has \<^verbatim>\<open>consensus/retryable_requests.cc\<close>: ranges of identifiers refine a set, and a finished
  write is refused when it is retried. \<open>LeaderElection\<close> has \<^verbatim>\<open>consensus/leader_election.cc\<close> with its
  messages in any order: one callback, one winner. \<open>ConsensusMeta\<close> has
  \<^verbatim>\<open>consensus/consensus_meta.cc\<close>, the term and vote on disk. \<open>RaftVoting\<close> has the requests for votes of
  \<^verbatim>\<open>consensus/raft_consensus.cc\<close> and \<^verbatim>\<open>consensus/replica_state.cc\<close>: one vote per term through failing writes and
  crashes. \<open>RaftLeadership\<close> has starting an election, its callback, becoming the leader and accepting one, and
  composes them into a cluster over an unreliable network. \<open>ConfigChange\<close> has \<open>ChangeConfig\<close> and the pending and committed
  configurations: an accepted change moves at most one voter, so majorities before and after it meet. \<open>SampleCluster\<close> runs
  a cluster through a removal. This theory states what spans them: one leader in a term, and when the fatal check for a
  second leader can be met. Both hold for runs whose elections start in one configuration or in the one that a change makes
  of it. That a second change waits for the first one to be committed is a matter of the log, which is not modelled, so
  runs through several changes are not covered.

  \<^bold>\<open>Not modelled.\<close> The log and its replication, the failure detector and the peers of consensus: they work on files,
  timers and remote calls, and the model records the calls made to them. The storage engine, a fork of RocksDB, and the
  code that reads and writes documents through its iterators. Query layers, PostgreSQL, the master, tablet servers,
  the client library, remote calls, change capture and tools: glue over remote calls, parsers and catalogs, which reach
  the modelled code only through the interfaces above.
\<close>

section \<open>Clusters\<close>

text \<open>C1. At most one leader in a term. In every run of a cluster, with votes and terms written to disk, failing writes,
  crashes and restarts, and a network that loses, repeats and reorders messages, two replicas that put their queues into leader
  mode for the same term are the same replica. The runs are those whose elections all start in the peers of a verified
  configuration \<open>g\<close> or in those of the configuration \<open>g'\<close> that one accepted change makes of it, by adding a server, removing one
  by its uuid or making one a voter, whatever index they have: the change may be pending on some replicas, committed on others
  and unknown to the rest. Runs through a second change are left out.\<close>

theorem one_leader_per_term:
  assumes "VerifyRaftConfig g COMMITTED_QUORUM = Inr ()" "config_change g g'"
    and "cluster_reachable allowed (change_configs g g') c"
    and "(t, a) \<in> leaders c" "(t, b) \<in> leaders c"
  shows "a = b"
  using leader_unique [OF assms(3) config_change_apart [OF assms(2,1)] assms(4,5)] .

theorem one_leader_per_term_witness:
  "\<exists>c :: cluster. (5, ''a'') \<in> leaders c \<and> (\<forall>b. (5, b) \<in> leaders c \<longrightarrow> ''a'' = b)"
proof -
  have a: "(5, ''a'') \<in> leaders sample_cluster" using node_leads(2) by (simp add: sample_cluster_def)
  have "\<forall>b. (5, b) \<in> leaders sample_cluster \<longrightarrow> ''a'' = b"
    using one_leader_per_term [OF pair_verified sample_config_change sample_cluster_run a] by simp
  with a show ?thesis by blast
qed

text \<open>C6. The fatal check of an update request. In the runs of a cluster described above, whose elections start in one verified
  configuration or in the one that a change makes of it, and in which new terms can be written, no replica that handles
  the term of a leader's request has another leader in that term: the process is never stopped with ``Unexpected new leader in
  same term''.\<close>

theorem no_unexpected_leader:
  assumes "VerifyRaftConfig g COMMITTED_QUORUM = Inr ()" "config_change g g'"
    and "cluster_reachable term_writable (change_configs g g') c"
    and "(t, u) \<in> leaders c" "replicas c w = Some v"
    and "term_writable env v" "HandleLeaderRequestTermUnlocked env t v = (v', Inr False)"
  shows "\<not> unexpected_leader u v'"
proof -
  note apart = config_change_apart [OF assms(2,1)]
  have "leaders_known c" by (rule known_reachable [OF assms(3) change_configs_wf [OF apart(1,2)]])
  moreover have "leader_kept (vm v) (vm v')" "voter_term v' = t" using request_term_kept [OF assms(7,6)] by simp_all
  ultimately have "cm_leader_uuid (vm v') = '''' \<or> (t, cm_leader_uuid (vm v')) \<in> leaders c"
    using assms(5) unfolding leaders_known_def leader_kept_def by metis
  then show ?thesis
    using leader_unique [OF assms(3) apart _ assms(4)] by (auto simp: unexpected_leader_def)
qed

theorem no_unexpected_leader_witness:
  "\<exists>v'. HandleLeaderRequestTermUnlocked sample_env 5 (node (node_meta pair_config ''b'' FOLLOWER '''' 4 None) []) = (v', Inr False) \<and>
     \<not> unexpected_leader ''a'' v'"
proof -
  let ?v = "node (node_meta pair_config ''b'' FOLLOWER '''' 4 None) []"
  have a: "(5, ''a'') \<in> leaders sample_cluster" "replicas sample_cluster ''b'' = Some ?v"
    using node_leads(2) by (simp_all add: sample_cluster_def)
  have "term_writable sample_env ?v" using pair_verified by (simp add: term_writable_def sample_env_def node_fields)
  from no_unexpected_leader [OF pair_verified sample_config_change sample_cluster_run a this other_advances] other_advances show ?thesis by auto
qed

text \<open>C40. A term that cannot be written. If writing a new term fails on a follower, the call returns the error with the term
  advanced in memory and the leader of the old term still set. A later request of the new term's leader then passes the
  term check and meets the fatal one.\<close>

theorem failed_term_write_keeps_leader:
  assumes "cm_active_role (vm v) \<noteq> LEADER" "0 \<le> voter_term v" "voter_term v < t" "t < 2 ^ 61" "term_io env = Some err"
    and "VerifyRaftConfig (committed_config (vm v)) COMMITTED_QUORUM = Inr ()"
    and "cm_leader_uuid (vm v) \<noteq> ''''" "u \<noteq> cm_leader_uuid (vm v)"
  shows "\<exists>v'. HandleTermAdvanceUnlocked env t v = (v', Inl err) \<and> voter_term v' = t \<and>
    HandleLeaderRequestTermUnlocked env2 t v' = (v', Inr False) \<and> unexpected_leader u v'"
proof -
  have "\<exists>c. PackRoleAndTerm (cm_active_role (vm v)) t = Inr c" using pack_in_range [of t] assms(2,3,4) by auto
  then obtain m where m: "set_current_term t (vm v) = Inr m" "cm_pb m = (cm_pb (vm v))\<lparr>pb_current_term := Some t\<rparr>"
      "cm_leader_uuid m = cm_leader_uuid (vm v)"
    by (auto simp: set_current_term_def UpdateRoleAndTermCache_def current_term_def)
  then have f: "Flush (term_io env) (clear_voted_for m) = (clear_voted_for m, Inl err)"
    using assms(5,6) by (simp add: Flush_def clear_voted_for_def committed_config_def)
  then have "HandleTermAdvanceUnlocked env t v = (v\<lparr>vm := clear_voted_for m\<rparr>, Inl err)"
    using assms(1,3) m(1) by (simp add: HandleTermAdvanceUnlocked_def SetCurrentTermUnlocked_def)
  moreover have "current_term (clear_voted_for m) = t" "cm_leader_uuid (clear_voted_for m) = cm_leader_uuid (vm v)"
    using m by (simp_all add: current_term_def clear_voted_for_def)
  ultimately show ?thesis using assms(7,8) by (simp add: HandleLeaderRequestTermUnlocked_def unexpected_leader_def)
qed

theorem failed_term_write_keeps_leader_witness:
  "\<exists>v'. HandleTermAdvanceUnlocked (sample_env\<lparr>term_io := Some IOError\<rparr>) 5 (node (node_meta pair_config ''a'' FOLLOWER ''b'' 4 None) []) =
     (v', Inl IOError) \<and> unexpected_leader ''c'' v'"
proof -
  let ?v = "node (node_meta pair_config ''a'' FOLLOWER ''b'' 4 None) []"
  show ?thesis
    using failed_term_write_keeps_leader [of ?v 5 "sample_env\<lparr>term_io := Some IOError\<rparr>" IOError "''c''" sample_env] pair_verified
    by (auto simp: node_fields)
qed

end
